(* ===== verification/Prelude.thy ===== *)
theory Prelude
  imports Main "HOL-Library.Word"
begin

text \<open>
  Shared vocabulary of the development: the fixed-width integers of \<open>src/src/type.h\<close>, the
  byte-addressed memory the kernel's pointers range over with its little-endian 32-bit
  accesses, arrays of 32-bit words in memory, NUL-terminated strings, the ways a call can fail
  to return, and the generic lemmas the component theories share.
\<close>

unbundle bit_operations_syntax

section \<open>Machine integers\<close>

type_synonym u8 = "8 word"
type_synonym u16 = "16 word"
type_synonym u32 = "32 word"

text \<open>Proof rules about memory accesses that the component proofs rewrite with.\<close>

named_theorems mem_simps

lemma unat_neg: "(x :: u32) \<noteq> 0 \<Longrightarrow> unat (- x) = 2 ^ 32 - unat x"
  using unat_sub_if' [of 0 x] by (simp add: unat_eq_zero)

lemma unat_of_nat_small: "n < 2 ^ 32 \<Longrightarrow> unat (of_nat n :: u32) = n"
  by (simp only: unat_of_nat take_bit_eq_mod) simp

lemma and_not_mask_eq: "x AND NOT (mask n) = x - take_bit n (x :: 'a::len word)"
proof -
  have "x AND NOT (mask n) = push_bit n (drop_bit n x)"
    by (rule bit_eqI) (auto simp: bit_simps)
  then show ?thesis
    using bits_ident [of n x] by (simp add: eq_diff_eq)
qed

lemma unat_take_bit_word: "unat (take_bit n (x :: 'a::len word)) = unat x mod 2 ^ n"
  by (simp only: unsigned_take_bit_eq) (simp only: take_bit_eq_mod)

lemma unat_and_not_mask: "unat (x AND NOT (mask n) :: 'a::len word) = unat x div 2 ^ n * 2 ^ n"
proof -
  have "take_bit n x \<le> x"
    by (simp add: word_le_nat_alt unat_take_bit_word)
  then have "unat (x AND NOT (mask n)) = unat x - unat x mod 2 ^ n"
    by (simp only: and_not_mask_eq unat_sub unat_take_bit_word)
  then show ?thesis by (simp add: minus_mod_eq_div_mult)
qed

lemma unat_and_mask: "unat (x AND mask n :: 'a::len word) = unat x mod 2 ^ n"
  by (simp add: unat_take_bit_word flip: take_bit_eq_mask)

lemma shift_mod: "0 \<le> u \<Longrightarrow> u < 2 * N \<Longrightarrow> (u + N) mod (2 * N) - N = (if u < N then u else u - 2 * N)"
  for u N :: int
proof (cases "u < N")
  case False
  moreover assume "u < 2 * N"
  moreover have "u + N = (u - N) + 2 * N" by simp
  then have "(u + N) mod (2 * N) = (u - N) mod (2 * N)" by (simp only: mod_add_self2)
  ultimately show ?thesis by simp
qed simp

lemma sint_u8: "sint c = (if c < 128 then uint c else uint c - 256)" for c :: u8
  using shift_mod [of "uint c" 128] uint_lt2p [of c]
  by (simp add: sint_uint signed_take_bit_eq_take_bit_shift take_bit_eq_mod word_less_def)

lemma sint_u32: "sint c = (if c < 2 ^ 31 then uint c else uint c - 2 ^ 32)" for c :: u32
  using shift_mod [of "uint c" "2 ^ 31"] uint_lt2p [of c]
  by (simp add: sint_uint signed_take_bit_eq_take_bit_shift take_bit_eq_mod word_less_def)

lemma unat_drop_bit_div: "unat (drop_bit n x) = unat x div 2 ^ n" for x :: "'a::len word"
  by (simp only: unat_drop_bit_eq) (simp only: drop_bit_eq_div)

lemma unat_u32_lt: "unat u < 4294967296" for u :: u32
proof -
  have "unat u < 2 ^ LENGTH(32)" by (rule unsigned_less)
  then show ?thesis by simp
qed

lemma ucast_of_nat_unat: "ucast x = (of_nat (unat x) :: 'b::len word)" for x :: "'a::len word"
  by (rule word_unat_eq_iff [THEN iffD2]) (simp only: unsigned_ucast_eq unat_of_nat take_bit_eq_mod)

lemma of_nat_u8_mod: "(of_nat (n mod 256) :: u8) = of_nat n"
  by (rule word_unat_eq_iff [THEN iffD2]) (simp add: unat_of_nat take_bit_eq_mod)

text \<open>A quantifier below a numeral, in a form that evaluates.\<close>

lemma all_less_list: "(\<forall>k < n. P k) \<longleftrightarrow> list_all P [0..<n]" for n :: nat
  by (auto simp: list_all_iff)

text \<open>The bits of the masks the code writes as constants.\<close>

lemma int_mask_numerals:
  "(0xF :: int) = mask 4" "(0xFF :: int) = mask 8" "(0xFFF :: int) = mask 12" "(0xFFFF :: int) = mask 16"
  "(0xF0 :: int) = push_bit 4 (mask 4)"
  by (simp_all add: mask_eq_exp_minus_1)

lemma bit_masks:
  "bit (0xF :: int) n \<longleftrightarrow> n < 4"
  "bit (0xFF :: int) n \<longleftrightarrow> n < 8"
  "bit (0xFFF :: int) n \<longleftrightarrow> n < 12"
  "bit (0xFFFF :: int) n \<longleftrightarrow> n < 16"
  "bit (0xF0 :: int) n \<longleftrightarrow> 4 \<le> n \<and> n < 8"
  unfolding int_mask_numerals by (auto simp: bit_simps)

section \<open>Calls that do not return\<close>

text \<open>
  A call either returns, or reaches \<open>_panic\<close> (which prints its message and spins for ever), or
  runs for ever in one of its own loops, or divides by zero, which the processor answers with an
  exception, or calls through a pointer that holds the address of no function of the program
  (\<open>Wild_call\<close>), or comes to an expression whose effect C leaves undefined. \<open>Out_of_fuel\<close> is not an outcome of the code: functions that call themselves through the
  allocator take a bound on the depth of the calls, and give it when the bound was too small.
\<close>

datatype fault = Panic string | Hang | Divide_error | Wild_call u32 | Undefined | Out_of_fuel

definition ebind :: "fault + 'a \<Rightarrow> ('a \<Rightarrow> fault + 'b) \<Rightarrow> fault + 'b" where
  "ebind x f = (case x of Inl e \<Rightarrow> Inl e | Inr v \<Rightarrow> f v)"

lemma ebind_simps [simp]:
  "ebind (Inl e) f = Inl e"
  "ebind (Inr v) f = f v"
  by (simp_all add: ebind_def)

lemma ebind_Inr_iff: "ebind x f = Inr r \<longleftrightarrow> (\<exists>v. x = Inr v \<and> f v = Inr r)"
  by (cases x) simp_all

lemma ebind_cong [fundef_cong]:
  "x = y \<Longrightarrow> (\<And>v. y = Inr v \<Longrightarrow> f v = g v) \<Longrightarrow> ebind x f = ebind y g"
  by (cases y) simp_all

text \<open>A loop written with \<^theory_text>\<open>partial_function\<close> yields no value when it never ends.\<close>

definition or_hang :: "'a option \<Rightarrow> fault + 'a" where
  "or_hang x = (case x of None \<Rightarrow> Inl Hang | Some v \<Rightarrow> Inr v)"

lemma or_hang_simps [simp]:
  "or_hang None = Inl Hang"
  "or_hang (Some v) = Inr v"
  by (simp_all add: or_hang_def)

section \<open>Byte-addressed memory\<close>

type_synonym memory = "u32 \<Rightarrow> u8"

definition load8 :: "memory \<Rightarrow> u32 \<Rightarrow> u8" where
  "load8 m a = m a"

definition store8 :: "memory \<Rightarrow> u32 \<Rightarrow> u8 \<Rightarrow> memory" where
  "store8 m a v = m(a := v)"

definition load32 :: "memory \<Rightarrow> u32 \<Rightarrow> u32" where
  "load32 m a = (ucast (m a) :: u32)
     OR push_bit 8 (ucast (m (a + 1)))
     OR push_bit 16 (ucast (m (a + 2)))
     OR push_bit 24 (ucast (m (a + 3)))"

definition store32 :: "memory \<Rightarrow> u32 \<Rightarrow> u32 \<Rightarrow> memory" where
  "store32 m a v =
     m(a := ucast v, a + 1 := ucast (drop_bit 8 v),
       a + 2 := ucast (drop_bit 16 v), a + 3 := ucast (drop_bit 24 v))"


text \<open>
  \<open>in_range a n x\<close>: the address \<open>x\<close> is one of the \<open>n\<close> bytes that start at \<open>a\<close>, with the
  wrap-around of 32-bit pointers. \<open>apart a n b k\<close>: the two byte ranges do not meet.
\<close>

definition in_range :: "u32 \<Rightarrow> nat \<Rightarrow> u32 \<Rightarrow> bool" where
  "in_range a n x \<longleftrightarrow> unat (x - a) < n"

definition apart :: "u32 \<Rightarrow> nat \<Rightarrow> u32 \<Rightarrow> nat \<Rightarrow> bool" where
  "apart a n b k \<longleftrightarrow> n \<le> unat (b - a) \<and> k \<le> unat (a - b)"

lemma apart_sym: "apart a n b k \<longleftrightarrow> apart b k a n"
  by (auto simp: apart_def)

lemma apart_in_range:
  assumes "apart a n b k" and "in_range b k x"
  shows "\<not> in_range a n x"
proof
  assume "in_range a n x"
  then have 1: "unat (x - a) < n" by (simp add: in_range_def)
  from assms have 2: "n \<le> unat (b - a)" "k \<le> unat (a - b)" "unat (x - b) < k"
    by (auto simp: apart_def in_range_def)
  have e: "b - a = (x - a) - (x - b)" by simp
  show False
  proof (cases "x - b \<le> x - a")
    case True
    then have "unat (b - a) = unat (x - a) - unat (x - b)"
      using e by (metis unat_sub)
    with 1 2 show False by simp
  next
    case False
    then have "x - a \<le> x - b" by simp
    moreover have "a - b = (x - b) - (x - a)" by simp
    ultimately have "unat (a - b) = unat (x - b) - unat (x - a)"
      by (metis unat_sub)
    with 1 2 show False by simp
  qed
qed

lemma in_range_mono: "in_range a n x \<Longrightarrow> n \<le> k \<Longrightarrow> in_range a k x"
  by (simp add: in_range_def)

lemma in_range_4: "in_range a 4 x \<longleftrightarrow> x = a \<or> x = a + 1 \<or> x = a + 2 \<or> x = a + 3"
proof -
  have "unat (x - a) < 4 \<longleftrightarrow> x - a = 0 \<or> x - a = 1 \<or> x - a = 2 \<or> x - a = 3"
    by unat_arith
  then show ?thesis by (simp add: in_range_def algebra_simps diff_eq_eq)
qed

lemma store32_other: "\<not> in_range a 4 x \<Longrightarrow> store32 m a v x = m x"
  by (simp add: in_range_4 store32_def)

lemma load32_cong:
  assumes "\<And>x. in_range a 4 x \<Longrightarrow> m x = m' x"
  shows "load32 m a = load32 m' a"
  using assms by (simp add: in_range_4 load32_def)

lemma load32_store32_same [mem_simps]: "load32 (store32 m a v) a = v"
proof (rule bit_word_eqI)
  fix n :: nat
  assume n: "n < LENGTH(32)"
  have d: "a + 1 \<noteq> a" "a + 2 \<noteq> a" "a + 3 \<noteq> a" "a + 2 \<noteq> a + 1" "a + 3 \<noteq> a + 1" "a + 3 \<noteq> a + 2"
    by simp_all
  consider "n < 8" | "8 \<le> n" "n < 16" | "16 \<le> n" "n < 24" | "24 \<le> n" by linarith
  then show "bit (load32 (store32 m a v) a) n = bit v n"
    using n d unfolding load32_def store32_def
    by cases (auto simp: bit_simps)
qed

lemma load32_store32_apart: "apart a 4 b 4 \<Longrightarrow> load32 (store32 m a v) b = load32 m b"
  by (rule load32_cong) (simp add: store32_other apart_in_range)

lemma load32_store8_apart: "\<not> in_range b 4 a \<Longrightarrow> load32 (store8 m a v) b = load32 m b"
  by (rule load32_cong) (auto simp: store8_def)

lemma load8_store32_apart: "\<not> in_range a 4 b \<Longrightarrow> load8 (store32 m a v) b = load8 m b"
  by (simp add: load8_def store32_other)

lemma load8_store8 [mem_simps]:
  "load8 (store8 m a v) b = (if a = b then v else load8 m b)"
  by (simp add: load8_def store8_def)

section \<open>Arrays of 32-bit words\<close>

text \<open>
  What the components that keep tables of 32-bit words rely on: a word written is read back, and
  a write changes no word whose bytes are apart from it. An array is the list of the words at
  \<open>base\<close>, \<open>base + 4\<close>, and so on.
\<close>

lemma apart_diff:
  assumes "b - a = of_nat d" and "d < 2 ^ 32" and "n \<le> d" and "k \<le> 2 ^ 32 - d" and "0 < d"
  shows "apart a n b k"
proof -
  have 1: "unat (b - a) = d"
    using assms(1,2) by (simp only: unat_of_nat_small)
  with assms(5) have "b - a \<noteq> 0" by auto
  then have "unat (- (b - a)) = 2 ^ 32 - d"
    using 1 by (subst unat_neg) auto
  then have 2: "unat (a - b) = 2 ^ 32 - d" by simp
  show ?thesis
    unfolding apart_def using 1 2 assms(3,4) by simp
qed

lemma apart_elements:
  assumes "i < 2 ^ 30" and "j < 2 ^ 30" and "i \<noteq> j"
  shows "apart (base + 4 * of_nat i) 4 (base + 4 * of_nat j) 4"
proof -
  have *: "apart (base + 4 * of_nat a) 4 (base + 4 * of_nat b) 4"
    if "a < b" "b < 2 ^ 30" for a b :: nat
  proof (rule apart_diff)
    show "base + 4 * of_nat b - (base + 4 * of_nat a) = of_nat (4 * (b - a))"
      using that by (simp add: of_nat_diff algebra_simps)
  qed (use that in simp_all)
  from assms(3) consider "i < j" | "j < i" by linarith
  then show ?thesis
    using *[of i j] *[of j i] assms(1,2) by cases (simp_all add: apart_sym)
qed

locale word_store =
  fixes rd :: "'m \<Rightarrow> u32 \<Rightarrow> u32"
    and wr :: "'m \<Rightarrow> u32 \<Rightarrow> u32 \<Rightarrow> 'm"
  assumes rd_wr_same: "rd (wr m a v) a = v"
    and rd_wr_apart: "apart a 4 b 4 \<Longrightarrow> rd (wr m a v) b = rd m b"
begin

definition words :: "'m \<Rightarrow> u32 \<Rightarrow> nat \<Rightarrow> u32 list" where
  "words m base n = map (\<lambda>k. rd m (base + 4 * of_nat k)) [0..<n]"

lemma length_words [simp]: "length (words m base n) = n"
  by (simp add: words_def)

lemma nth_words [simp]: "k < n \<Longrightarrow> words m base n ! k = rd m (base + 4 * of_nat k)"
  by (simp add: words_def)

lemma words_update:
  assumes "k < 2 ^ 30" and "n \<le> 2 ^ 30"
  shows "words (wr m (base + 4 * of_nat k) v) base n = (words m base n)[k := v]"
proof (rule nth_equalityI)
  fix i
  assume "i < length (words (wr m (base + 4 * of_nat k) v) base n)"
  then have i: "i < n" by simp
  with assms show "words (wr m (base + 4 * of_nat k) v) base n ! i = (words m base n)[k := v] ! i"
    by (cases "i = k") (simp_all add: rd_wr_same rd_wr_apart apart_elements)
qed simp

lemma words_outside:
  assumes "\<And>k. k < n \<Longrightarrow> apart a 4 (base + 4 * of_nat k) 4"
  shows "words (wr m a v) base n = words m base n"
  by (rule nth_equalityI) (simp_all add: rd_wr_apart assms)

end

interpretation raw: word_store load32 store32
  by unfold_locales (simp_all add: load32_store32_same load32_store32_apart)

section \<open>Bytes and NUL-terminated strings in memory\<close>

text \<open>
  \<open>bytes_at m a n\<close> is the list of the \<open>n\<close> bytes at \<open>a\<close>. \<open>cstr m a xs\<close> says that the C string at
  \<open>a\<close> is \<open>xs\<close>: its bytes are not NUL and a NUL follows them.
\<close>

fun bytes_at :: "memory \<Rightarrow> u32 \<Rightarrow> nat \<Rightarrow> u8 list" where
  "bytes_at m a 0 = []"
| "bytes_at m a (Suc n) = m a # bytes_at m (a + 1) n"

fun cstr :: "memory \<Rightarrow> u32 \<Rightarrow> u8 list \<Rightarrow> bool" where
  "cstr m a [] \<longleftrightarrow> m a = 0"
| "cstr m a (x # xs) \<longleftrightarrow> m a = x \<and> x \<noteq> 0 \<and> cstr m (a + 1) xs"

definition ascii :: "string \<Rightarrow> u8 list" where
  "ascii = List.map (\<lambda>c. of_nat (of_char c))"

lemma length_bytes_at [simp]: "length (bytes_at m a n) = n"
  by (induction n arbitrary: a) simp_all

lemma nth_bytes_at: "i < n \<Longrightarrow> bytes_at m a n ! i = m (a + of_nat i)"
  by (induction n arbitrary: a i) (auto simp: nth_Cons' less_Suc_eq_0_disj algebra_simps)

lemma bytes_at_eqI:
  assumes "length xs = n" and "\<And>i. i < n \<Longrightarrow> m (a + of_nat i) = xs ! i"
  shows "bytes_at m a n = xs"
  using assms by (intro nth_equalityI) (simp_all add: nth_bytes_at)

lemma cstr_iff:
  "cstr m a xs \<longleftrightarrow> (\<forall>i < length xs. m (a + of_nat i) = xs ! i \<and> xs ! i \<noteq> 0) \<and> m (a + of_nat (length xs)) = 0"
  by (induction xs arbitrary: a) (auto simp: nth_Cons' less_Suc_eq_0_disj algebra_simps)

lemma cstr_nonzero: "cstr m a xs \<Longrightarrow> 0 \<notin> set xs"
  by (induction xs arbitrary: a) auto

lemma cstr_unique: "cstr m a xs \<Longrightarrow> cstr m a ys \<Longrightarrow> xs = ys"
proof (induction xs arbitrary: a ys)
  case Nil
  then show ?case by (cases ys) auto
next
  case (Cons x xs)
  then show ?case by (cases ys) auto
qed

lemma cstr_cong:
  assumes "\<And>i. i \<le> length xs \<Longrightarrow> m (a + of_nat i) = m' (a + of_nat i)"
  shows "cstr m a xs \<longleftrightarrow> cstr m' a xs"
  using assms by (simp add: cstr_iff)


text \<open>Storing a list of bytes at consecutive addresses, first byte first.\<close>

fun store_bytes :: "memory \<Rightarrow> u32 \<Rightarrow> u8 list \<Rightarrow> memory" where
  "store_bytes m a [] = m"
| "store_bytes m a (x # xs) = store_bytes (m(a := x)) (a + 1) xs"

section \<open>Bounded queues\<close>

text \<open>
  The contract between a producer and a consumer that share a bounded buffer: below the capacity an
  element put in comes out after the ones already there; taking from the empty buffer gives the
  null element and changes nothing.
\<close>

locale bounded_queue =
  fixes put :: "'a \<Rightarrow> 'q \<Rightarrow> 'q"
    and get :: "'q \<Rightarrow> 'a \<times> 'q"
    and contents :: "'q \<Rightarrow> 'a list"
    and invar :: "'q \<Rightarrow> bool"
    and cap :: nat
    and null :: 'a
  assumes put_contents: "invar q \<Longrightarrow> length (contents q) < cap \<Longrightarrow> contents (put c q) = contents q @ [c]"
    and put_invar: "invar q \<Longrightarrow> invar (put c q)"
    and get_contents: "invar q \<Longrightarrow> contents q = c # cs \<Longrightarrow> fst (get q) = c \<and> contents (snd (get q)) = cs"
    and get_empty: "invar q \<Longrightarrow> contents q = [] \<Longrightarrow> get q = (null, q)"
    and get_invar: "invar q \<Longrightarrow> invar (snd (get q))"
begin

fun gets :: "nat \<Rightarrow> 'q \<Rightarrow> 'a list" where
  "gets 0 q = []"
| "gets (Suc n) q = fst (get q) # gets n (snd (get q))"

lemma puts_contents:
  "invar q \<Longrightarrow> length (contents q) + length cs \<le> cap \<Longrightarrow>
    contents (fold put cs q) = contents q @ cs \<and> invar (fold put cs q)"
  by (induction cs arbitrary: q) (simp_all add: put_contents put_invar)

lemma gets_contents:
  "invar q \<Longrightarrow> gets n q = take n (contents q) @ replicate (n - length (contents q)) null"
proof (induction n arbitrary: q)
  case (Suc n)
  show ?case
  proof (cases "contents q")
    case Nil
    with Suc show ?thesis by (simp add: get_empty)
  next
    case (Cons c cs)
    with Suc get_contents [OF Suc.prems Cons] get_invar show ?thesis by simp
  qed
qed simp

lemma fifo:
  assumes "invar q" and "contents q = []" and "length cs \<le> cap"
  shows "gets (length cs) (fold put cs q) = cs"
  using puts_contents [of q cs] gets_contents [of "fold put cs q" "length cs"] assms by simp

end

section \<open>Steps and their specification\<close>

text \<open>\<open>runs step s es t\<close>: the events \<open>es\<close>, one after the other, lead from \<open>s\<close> to \<open>t\<close>.\<close>

inductive runs :: "('s \<Rightarrow> 'e \<Rightarrow> 's \<Rightarrow> bool) \<Rightarrow> 's \<Rightarrow> 'e list \<Rightarrow> 's \<Rightarrow> bool" for step where
  stop: "runs step s [] s"
| go: "step s e t \<Longrightarrow> runs step t es u \<Longrightarrow> runs step s (e # es) u"

inductive_simps runs_Nil [simp]: "runs step s [] t"
inductive_simps runs_Cons [simp]: "runs step s (e # es) t"

lemma runs_function: "runs (\<lambda>s e t. t = f s e) s es t \<longleftrightarrow> t = foldl f s es"
  by (induction es arbitrary: s) auto

text \<open>
  A contract between an implementation, whose steps may be partial and have a choice, and a
  specification that computes: each step is matched by the specification, so each run is.
\<close>

locale simulation =
  fixes step :: "'s \<Rightarrow> 'e \<Rightarrow> 's \<Rightarrow> bool" and spec :: "'e \<Rightarrow> 'a \<Rightarrow> 'a" and stands_for :: "'s \<Rightarrow> 'a \<Rightarrow> bool"
  assumes simulates: "step s e t \<Longrightarrow> stands_for s a \<Longrightarrow> stands_for t (spec e a)"
begin

lemma runs_simulate: "runs step s es t \<Longrightarrow> stands_for s a \<Longrightarrow> stands_for t (fold spec es a)"
  by (induction arbitrary: a rule: runs.induct) (auto intro: simulates)

end

end
