(* ===== verification/Common_C.thy ===== *)
theory Common_C
  imports Prelude
begin

text \<open>
  \<open>src/src/common.c\<close>: the memory and string routines the kernel carries with it, the panic that
  ends a run, and the port writes. The routines work on the byte memory exactly as the loops do,
  byte by byte and in the same order, so overlapping arguments behave as in the code.
  \<open>strcat\<close>, which no other file calls, stores through \<open>*dest = *dest++\<close>, whose order C leaves undefined.
\<close>

section \<open>Port writes and panics\<close>

text \<open>The device registers are outside the program: a port write is recorded in the order made.\<close>

type_synonym ports = "(u16 \<times> u8) list"

definition outb :: "ports \<Rightarrow> u16 \<Rightarrow> u8 \<Rightarrow> ports" where
  "outb io port value = io @ [(port, value)]"

text \<open>
  \<open>_panic\<close> prints its banner and message and never returns. The callers pass literal messages
  without conversions.
\<close>

definition kpanic :: "string \<Rightarrow> fault + 'a" where
  "kpanic msg = Inl (Panic
     (CHR 0x0A # ''***** Kernel panic! *****'' @ [CHR 0x0A] @ msg @
      CHR 0x0A # ''*************************'' @ [CHR 0x0A]))"

section \<open>Memory blocks\<close>

fun memset_loop :: "memory \<Rightarrow> u32 \<Rightarrow> u8 \<Rightarrow> nat \<Rightarrow> memory" where
  "memset_loop m t_h v 0 = m"
| "memset_loop m t_h v (Suc l) = memset_loop (m(t_h := v)) (t_h + 1) v l"

text \<open>\<open>size_t\<close> is \<open>long\<close>, so the guard \<open>l > 0\<close> is signed; the stored value is cut to a \<open>char\<close>.\<close>

definition memset :: "memory \<Rightarrow> u32 \<Rightarrow> u32 \<Rightarrow> u32 \<Rightarrow> memory \<times> u32" where
  "memset m h v l = (memset_loop m h (ucast v) (nat (sint l)), h)"

fun memcpy_loop :: "memory \<Rightarrow> u32 \<Rightarrow> u32 \<Rightarrow> nat \<Rightarrow> memory" where
  "memcpy_loop m dst8 src8 0 = m"
| "memcpy_loop m dst8 src8 (Suc count) =
     memcpy_loop (m(dst8 := m src8)) (dst8 + 1) (src8 + 1) count"

definition memcpy :: "memory \<Rightarrow> u32 \<Rightarrow> u32 \<Rightarrow> u32 \<Rightarrow> memory \<times> u32" where
  "memcpy m dest src count = (memcpy_loop m dest src (unat count), dest)"

section \<open>Strings\<close>

partial_function (option) strlen_loop :: "memory \<Rightarrow> u32 \<Rightarrow> u32 \<Rightarrow> u32 option" where
  "strlen_loop m s l = (if m (s + l) = 0 then Some l else strlen_loop m s (l + 1))"

definition strlen :: "memory \<Rightarrow> u32 \<Rightarrow> u32 option" where
  "strlen m s = strlen_loop m s 0"

partial_function (option) strcmp :: "memory \<Rightarrow> u32 \<Rightarrow> u32 \<Rightarrow> int option" where
  "strcmp m s1 s2 =
     (if m s1 = m s2
      then if m s1 = 0 then Some 0 else strcmp m (s1 + 1) (s2 + 1)
      else Some (uint (m s1) - uint (m s2)))"

text \<open>The body of \<open>strcpy\<close> copies before it tests, and the test reads the next source byte.\<close>

partial_function (option) strcpy_loop :: "memory \<Rightarrow> u32 \<Rightarrow> u32 \<Rightarrow> (memory \<times> u32) option" where
  "strcpy_loop m d src =
     (let m' = m(d := m src) in
      if m' (src + 1) = 0 then Some (m', d + 1) else strcpy_loop m' (d + 1) (src + 1))"

definition strcpy :: "memory \<Rightarrow> u32 \<Rightarrow> u32 \<Rightarrow> fault + (memory \<times> u32)" where
  "strcpy m dest src =
     (if dest = 0 \<or> src = 0 then kpanic (''strcpy error'' @ [CHR 0x0A])
      else or_hang (strcpy_loop m dest src))"

text \<open>\<open>strcat\<close> steps over the characters of \<open>dest\<close> by the undefined store, and then copies as \<open>strcpy\<close> does.\<close>

definition strcat :: "memory \<Rightarrow> u32 \<Rightarrow> u32 \<Rightarrow> fault + (memory \<times> u32)" where
  "strcat m dest src =
     (if dest = 0 \<or> src = 0 then kpanic (''strcpy error'' @ [CHR 0x0A])
      else if m dest \<noteq> 0 then Inl Undefined
      else ebind (or_hang (strcpy_loop m dest src)) (\<lambda>(m, _). Inr (m, dest)))"

section \<open>Blocks: what is written and what is left alone\<close>

lemma in_range_shift:
  assumes "\<not> in_range a (Suc n) x" and "Suc n \<le> 2 ^ 32"
  shows "\<not> in_range (a + 1) n x" and "x \<noteq> a"
proof -
  show "x \<noteq> a" using assms(1) by (auto simp: in_range_def)
  then have "x - a \<noteq> 0" by simp
  then have "unat (x - (a + 1)) = unat (x - a) - 1"
    by (metis diff_diff_eq unat_minus_one)
  then show "\<not> in_range (a + 1) n x"
    using assms(1) by (simp add: in_range_def)
qed

lemma in_range_hd: "in_range a (Suc n) a"
  by (simp add: in_range_def)

lemma memset_loop_other:
  "\<not> in_range h n x \<Longrightarrow> n \<le> 2 ^ 32 \<Longrightarrow> memset_loop m h v n x = m x"
proof (induction n arbitrary: h m)
  case (Suc n)
  from in_range_shift [OF Suc.prems] Suc.prems(2) show ?case
    by (simp add: Suc.IH)
qed simp

lemma not_in_range_before: "n < 2 ^ 32 \<Longrightarrow> \<not> in_range (a + 1) n a"
  by (simp add: in_range_def unsigned_minus_1_eq_mask mask_eq_exp_minus_1)

lemma memset_loop_in:
  "in_range h n x \<Longrightarrow> n \<le> 2 ^ 32 \<Longrightarrow> memset_loop m h v n x = v"
proof (induction n arbitrary: h m)
  case 0
  then show ?case by (simp add: in_range_def)
next
  case (Suc n)
  show ?case
  proof (cases "x = h")
    case True
    have "\<not> in_range (h + 1) n x"
      using Suc.prems(2) True by (simp add: not_in_range_before)
    with True Suc.prems(2) show ?thesis by (simp add: memset_loop_other)
  next
    case False
    then have "x - h \<noteq> 0" by simp
    then have "unat (x - (h + 1)) = unat (x - h) - 1" "unat (x - h) \<noteq> 0"
      by (metis diff_diff_eq unat_minus_one, simp add: unat_eq_zero)
    with Suc.prems(1) have "in_range (h + 1) n x" by (simp add: in_range_def)
    with Suc show ?thesis by simp
  qed
qed

lemma memcpy_loop_other:
  "\<not> in_range d n x \<Longrightarrow> n \<le> 2 ^ 32 \<Longrightarrow> memcpy_loop m d s n x = m x"
proof (induction n arbitrary: d s m)
  case (Suc n)
  from in_range_shift [OF Suc.prems] Suc.prems(2) show ?case
    by (simp add: Suc.IH)
qed simp

lemma in_range_offset:
  assumes "i < n" and "n \<le> 2 ^ 32"
  shows "in_range a n (a + of_nat i)"
proof -
  have "unat (of_nat i :: u32) = i"
    using assms by (intro unat_of_nat_small) simp
  with assms show ?thesis by (simp add: in_range_def)
qed

lemma apart_offsets:
  assumes "apart a n b k" and "i < n" and "j < k" and "n \<le> 2 ^ 32" and "k \<le> 2 ^ 32"
  shows "a + of_nat i \<noteq> b + of_nat j"
  using apart_in_range [OF assms(1), of "b + of_nat j"] in_range_offset [of j k b]
    in_range_offset [of i n a] assms by auto

text \<open>
  A copy between blocks that do not overlap: every destination byte gets its source byte.
\<close>

lemma memcpy_loop_in:
  assumes "\<And>i j. i < n \<Longrightarrow> j < n \<Longrightarrow> d + of_nat i \<noteq> s + of_nat j" and "n \<le> 2 ^ 32" and "i < n"
  shows "memcpy_loop m d s n (d + of_nat i) = m (s + of_nat i)"
  using assms
proof (induction n arbitrary: d s m i)
  case (Suc n)
  have ne: "d + 1 + of_nat a \<noteq> s + 1 + of_nat b" if "a < n" "b < n" for a b
    using Suc.prems(1) [of "Suc a" "Suc b"] that by (simp add: algebra_simps)
  show ?case
  proof (cases i)
    case 0
    have "\<not> in_range (d + 1) n d"
      using Suc.prems(2) by (simp add: not_in_range_before)
    with 0 Suc.prems(2) show ?thesis by (simp add: memcpy_loop_other)
  next
    case (Suc k)
    then have k: "k < n" using Suc.prems(3) by simp
    have "memcpy_loop (m(d := m s)) (d + 1) (s + 1) n (d + 1 + of_nat k) = (m(d := m s)) (s + 1 + of_nat k)"
      using Suc.prems(2) k by (intro Suc.IH ne) simp_all
    moreover have "s + 1 + of_nat k \<noteq> d"
      using Suc.prems(1) [of 0 "Suc k"] k by (simp add: algebra_simps)
    ultimately show ?thesis
      using Suc by (simp add: algebra_simps)
  qed
qed simp


lemma store_bytes_other:
  "\<not> in_range a (length xs) x \<Longrightarrow> length xs \<le> 2 ^ 32 \<Longrightarrow> store_bytes m a xs x = m x"
proof (induction xs arbitrary: a m)
  case (Cons y ys)
  then have "\<not> in_range (a + 1) (length ys) x" "x \<noteq> a"
    using in_range_shift [of a "length ys" x] by simp_all
  with Cons show ?case by simp
qed simp

lemma store_bytes_in:
  "i < length xs \<Longrightarrow> length xs \<le> 2 ^ 32 \<Longrightarrow> store_bytes m a xs (a + of_nat i) = xs ! i"
proof (induction xs arbitrary: a m i)
  case (Cons y ys)
  show ?case
  proof (cases i)
    case 0
    have "\<not> in_range (a + 1) (length ys) a"
      using Cons.prems(2) by (intro not_in_range_before) simp
    with 0 Cons.prems(2) show ?thesis by (simp add: store_bytes_other)
  next
    case (Suc j)
    with Cons.prems Cons.IH [of j "m(a := y)" "a + 1"] show ?thesis
      by (simp add: algebra_simps del: fun_upd_apply)
  qed
qed simp

section \<open>Strings: length, comparison, copy\<close>

lemma strlen_loop_cstr: "cstr m (s + l) xs \<Longrightarrow> strlen_loop m s l = Some (l + of_nat (length xs))"
proof (induction xs arbitrary: l)
  case Nil
  then show ?case by (simp add: strlen_loop.simps)
next
  case (Cons x xs)
  then have "strlen_loop m s (l + 1) = Some (l + 1 + of_nat (length xs))"
    by (intro Cons.IH) (simp add: algebra_simps)
  with Cons.prems show ?case
    by (subst strlen_loop.simps) (simp add: algebra_simps)
qed

text \<open>
  On a NUL-terminated string, \<open>strlen\<close> returns, and returns the number of bytes
  before the terminator.
\<close>

theorem strlen_correct:
  "cstr m s xs \<Longrightarrow> strlen m s = Some (of_nat (length xs))"
  using strlen_loop_cstr [of m s 0 xs] by (simp add: strlen_def)

theorem strlen_correct_witness: "strlen ((\<lambda>_. 0)(8 := 104, 9 := 105)) 8 = Some 2"
  using strlen_correct [of "(\<lambda>_. 0)(8 := 104, 9 := 105)" 8 "[104, 105]"] by simp

lemma strcmp_step:
  "m a = m b \<Longrightarrow> m a \<noteq> 0 \<Longrightarrow> strcmp m a b = strcmp m (a + 1) (b + 1)"
  "m a = m b \<Longrightarrow> m a = 0 \<Longrightarrow> strcmp m a b = Some 0"
  "m a \<noteq> m b \<Longrightarrow> strcmp m a b = Some (uint (m a) - uint (m b))"
  by (subst strcmp.simps, simp)+

definition byte_less :: "(u8 \<times> u8) set" where
  "byte_less = {(x, y). x < y}"

definition strcmp_result :: "u8 list \<Rightarrow> u8 list \<Rightarrow> int \<Rightarrow> bool" where
  "strcmp_result xs ys r \<longleftrightarrow>
     (r = 0 \<longleftrightarrow> xs = ys) \<and> (r < 0 \<longleftrightarrow> (xs, ys) \<in> lexord byte_less)"

lemma byte_diff:
  "x \<noteq> y \<Longrightarrow> uint x - uint y \<noteq> 0 \<and> (uint x - uint y < 0 \<longleftrightarrow> x < y)" for x y :: u8
  by (simp add: word_less_def word_uint_eq_iff)

lemma strcmp_correct_aux:
  "cstr m a xs \<Longrightarrow> cstr m b ys \<Longrightarrow> \<exists>r. strcmp m a b = Some r \<and> strcmp_result xs ys r"
proof (induction xs arbitrary: a b ys)
  case Nil
  show ?case
  proof (cases ys)
    case Nil
    with Nil.prems show ?thesis
      by (simp add: strcmp_step strcmp_result_def)
  next
    case (Cons y ys')
    with Nil.prems show ?thesis
      using byte_diff [of 0 y]
      by (auto simp: strcmp_step strcmp_result_def word_neq_0_conv)
  qed
next
  case (Cons x xs)
  note IH = Cons.IH and prems = Cons.prems
  show ?case
  proof (cases ys)
    case Nil
    with prems show ?thesis
      using byte_diff [of x 0] by (auto simp: strcmp_step strcmp_result_def)
  next
    case (Cons y ys')
    show ?thesis
    proof (cases "x = y")
      case True
      with IH [of "a + 1" "b + 1" ys'] prems Cons show ?thesis
        by (auto simp: strcmp_step strcmp_result_def byte_less_def)
    next
      case False
      with prems Cons byte_diff [OF False] show ?thesis
        by (auto simp: strcmp_step strcmp_result_def byte_less_def)
    qed
  qed
qed

text \<open>
  On two NUL-terminated strings \<open>strcmp\<close> returns; the result is zero exactly when the
  strings are equal and negative exactly when the first comes before the second in the
  lexicographic order of unsigned bytes.
\<close>

theorem strcmp_correct:
  assumes "cstr m a xs" and "cstr m b ys"
  shows "\<exists>r. strcmp m a b = Some r \<and> (r = 0 \<longleftrightarrow> xs = ys) \<and> (r < 0 \<longleftrightarrow> (xs, ys) \<in> lexord byte_less)"
  using strcmp_correct_aux [OF assms] by (simp add: strcmp_result_def)

theorem strcmp_correct_witness:
  "\<exists>r. strcmp ((\<lambda>_. 0)(8 := 97, 16 := 98)) 8 16 = Some r \<and> r < 0"
  using strcmp_correct [of "(\<lambda>_. 0)(8 := 97, 16 := 98)" 8 "[97]" 16 "[98]"]
  by (auto simp: byte_less_def)

lemma strcpy_loop_cstr:
  assumes "cstr m src (x # xs)"
    and "\<And>i j. i \<le> length xs \<Longrightarrow> j \<le> Suc (length xs) \<Longrightarrow> d + of_nat i \<noteq> src + of_nat j"
  shows "strcpy_loop m d src =
    Some (memcpy_loop m d src (Suc (length xs)), d + 1 + of_nat (length xs))"
  using assms
proof (induction xs arbitrary: x m d src)
  case Nil
  have "src + 1 \<noteq> d" using Nil.prems(2) [of 0 1] by auto
  with Nil.prems(1) show ?case
    by (subst strcpy_loop.simps) (simp add: Let_def)
next
  case (Cons y ys)
  let ?m = "m(d := m src)"
  have ne: "d + 1 + of_nat i \<noteq> src + 1 + of_nat j" if "i \<le> length ys" "j \<le> Suc (length ys)" for i j
    using Cons.prems(2) [of "Suc i" "Suc j"] that by (simp add: algebra_simps)
  have "cstr ?m (src + 1) (y # ys) \<longleftrightarrow> cstr m (src + 1) (y # ys)"
  proof (rule cstr_cong)
    fix i assume "i \<le> length (y # ys)"
    then show "?m (src + 1 + of_nat i) = m (src + 1 + of_nat i)"
      using Cons.prems(2) [of 0 "Suc i"] by (auto simp: algebra_simps)
  qed
  moreover have "cstr m (src + 1) (y # ys)" using Cons.prems(1) by simp
  ultimately have c: "cstr ?m (src + 1) (y # ys)" by blast
  then have "?m (src + 1) \<noteq> 0" by simp
  then have "strcpy_loop m d src = strcpy_loop ?m (d + 1) (src + 1)"
    by (subst strcpy_loop.simps) (simp only: Let_def if_False)
  also have "\<dots> = Some (memcpy_loop ?m (d + 1) (src + 1) (Suc (length ys)), d + 1 + 1 + of_nat (length ys))"
    by (rule Cons.IH [OF c ne])
  finally show ?case by (simp add: algebra_simps del: fun_upd_apply)
qed

lemma strcpy_cstr:
  assumes "cstr m src xs" and "xs \<noteq> []" and "dest \<noteq> 0" and "src \<noteq> 0"
    and "\<And>i j. i < length xs \<Longrightarrow> j \<le> length xs \<Longrightarrow> dest + of_nat i \<noteq> src + of_nat j"
  shows "strcpy m dest src = Inr (memcpy_loop m dest src (length xs), dest + of_nat (length xs))"
proof -
  obtain y ys where xs: "xs = y # ys" using assms(2) by (cases xs) auto
  show ?thesis
    using strcpy_loop_cstr [of m src y ys dest] assms xs by (simp add: strcpy_def algebra_simps)
qed

text \<open>
  \<open>strcpy\<close> of a non-empty string to a place that does not overlap it copies the
  characters, returns the address after the last one copied (not \<open>dest\<close>), and writes nothing
  else: the byte after the copy keeps its old value, so the copy is not terminated.
\<close>

theorem strcpy_no_terminator:
  assumes "cstr m src xs" and "xs \<noteq> []" and "dest \<noteq> 0" and "src \<noteq> 0"
    and "apart dest (Suc (length xs)) src (Suc (length xs))" and "length xs < 2 ^ 31"
  shows "\<exists>m'. strcpy m dest src = Inr (m', dest + of_nat (length xs))
    \<and> bytes_at m' dest (length xs) = xs
    \<and> (\<forall>x. \<not> in_range dest (length xs) x \<longrightarrow> m' x = m x)
    \<and> m' (dest + of_nat (length xs)) = m (dest + of_nat (length xs))"
proof -
  let ?n = "length xs" and ?m' = "memcpy_loop m dest src (length xs)"
  have ne: "dest + of_nat i \<noteq> src + of_nat j" if "i \<le> ?n" "j \<le> ?n" for i j
    using apart_offsets [OF assms(5), of i j] that assms(6) by simp
  have "strcpy m dest src = Inr (?m', dest + of_nat ?n)"
    by (rule strcpy_cstr [OF assms(1-4) ne]) simp_all
  moreover have "bytes_at ?m' dest ?n = xs"
  proof (rule bytes_at_eqI)
    fix i assume i: "i < ?n"
    with assms(1) have "m (src + of_nat i) = xs ! i" by (simp add: cstr_iff)
    with i ne assms(6) show "?m' (dest + of_nat i) = xs ! i"
      by (subst memcpy_loop_in) simp_all
  qed simp
  moreover have "\<forall>x. \<not> in_range dest ?n x \<longrightarrow> ?m' x = m x"
    using assms(6) by (simp add: memcpy_loop_other)
  moreover have "\<not> in_range dest ?n (dest + of_nat ?n)"
    using assms(6) unat_of_nat_small [of ?n] by (simp add: in_range_def)
  ultimately show ?thesis by blast
qed

theorem strcpy_no_terminator_witness:
  "\<exists>m'. strcpy ((\<lambda>_. 7)(8 := 97, 9 := 98, 10 := 0)) 32 8 = Inr (m', 34) \<and> bytes_at m' 32 (length [97, 98 :: u8]) = [97, 98] \<and> m' 34 = 7"
  using strcpy_no_terminator [of "(\<lambda>_. 7)(8 := 97, 9 := 98, 10 := 0)" 8 "[97, 98]" 32]
  by (auto simp: apart_def)

text \<open>
  \<open>strcat\<close> is defined only for an empty destination; there it copies the string, without its terminator,
  and returns the destination.
\<close>

theorem strcat_empty_only:
  assumes "cstr m src xs" and "xs \<noteq> []" and "dest \<noteq> 0" and "src \<noteq> 0"
    and "apart dest (Suc (length xs)) src (Suc (length xs))" and "length xs < 2 ^ 31"
  shows "strcat m dest src = (if m dest = 0 then Inr (memcpy_loop m dest src (length xs), dest) else Inl Undefined)"
proof -
  have ne: "dest + of_nat i \<noteq> src + of_nat j" if "i \<le> length xs" "j \<le> length xs" for i j
    using apart_offsets [OF assms(5), of i j] that assms(6) by simp
  have "strcpy m dest src = Inr (memcpy_loop m dest src (length xs), dest + of_nat (length xs))"
    by (rule strcpy_cstr [OF assms(1-4) ne]) simp_all
  then show ?thesis using assms(3,4) by (simp add: strcat_def strcpy_def)
qed

end
