(* ===== verification/Printf.thy ===== *)
theory Printf
  imports Common_C
begin

text \<open>
  \<open>src/src/printf.c\<close>: \<open>vprintf\<close> reads the format at \<open>fmt\<close> and the arguments from the stack at \<open>ap\<close>
  (\<open>stdarg.h\<close>: each argument is one 32-bit word, \<open>va_arg\<close> steps over it), and hands characters to
  \<open>monitor_put\<close> one by one. The model returns those characters in order and the count \<open>ret\<close>.
  A reference formatter over decoded formats and arguments is the specification.
  The character codes are written as numbers: 37 is \<open>%\<close>, 99 \<open>c\<close>, 115 \<open>s\<close>, 100 \<open>d\<close>, 117 \<open>u\<close>,
  120 \<open>x\<close>, 45 \<open>-\<close>, 48 \<open>0\<close>.
\<close>

section \<open>The conversion loops\<close>

text \<open>
  Both loops store at \<open>s\<close> and step it, lowest digit first; \<open>buf\<close> is the list of the bytes stored
  so far. The array has 11 bytes.
\<close>

function dec_loop :: "u32 \<Rightarrow> u8 list \<Rightarrow> u8 list" where
  "dec_loop u buf =
     (let buf' = buf @ [48 + ucast (u mod 10)]; u' = u div 10 in
      if u' \<noteq> 0 then dec_loop u' buf' else buf')"
  by pat_completeness auto
termination
proof (relation "measure (\<lambda>(u, buf). unat u)")
  fix u u' :: u32 and buf buf' :: "u8 list"
  assume "buf' = buf @ [48 + ucast (u mod 10)]" "u' = u div 10" "u' \<noteq> 0"
  then show "((u', buf'), (u, buf)) \<in> measure (\<lambda>(u, buf). unat u)"
    by (auto simp: unat_div unat_eq_zero [symmetric] intro!: div_less_dividend)
qed simp

function hex_loop :: "u32 \<Rightarrow> u8 list \<Rightarrow> u8 list" where
  "hex_loop u buf =
     (let buf' = buf @ [ascii ''0123456789abcdef'' ! unat (u AND 0xf)]; u' = drop_bit 4 u in
      if u' \<noteq> 0 then hex_loop u' buf' else buf')"
  by pat_completeness auto
termination
proof (relation "measure (\<lambda>(u, buf). unat u)")
  fix u u' :: u32 and buf buf' :: "u8 list"
  assume "buf' = buf @ [ascii ''0123456789abcdef'' ! unat (u AND 0xf)]" "u' = drop_bit 4 u" "u' \<noteq> 0"
  then have "unat u' = unat u div 16" and "unat u' \<noteq> 0"
    using unat_drop_bit_div [of 4 u] by (simp, metis unat_eq_zero)
  then show "((u', buf'), (u, buf)) \<in> measure (\<lambda>(u, buf). unat u)"
    by simp
qed simp

declare dec_loop.simps [simp del] hex_loop.simps [simp del]

text \<open>What each conversion leaves in \<open>buf\<close>; \<open>dumpbuf\<close> prints it from the last byte to the first.\<close>

definition buf_d :: "u32 \<Rightarrow> u8 list" where
  "buf_d i =
     (let u = (if sint i < 0 then - i else i); s = dec_loop u [] in
      if sint i < 0 then s @ [45] else s)"

definition buf_u :: "u32 \<Rightarrow> u8 list" where
  "buf_u u = dec_loop u []"

definition buf_x :: "u32 \<Rightarrow> u8 list" where
  "buf_x u = hex_loop u []"

definition dumpbuf :: "u8 list \<Rightarrow> u8 list" where
  "dumpbuf buf = rev buf"

section \<open>vprintf\<close>

partial_function (option) put_str :: "memory \<Rightarrow> u32 \<Rightarrow> u8 list \<Rightarrow> u32 \<Rightarrow> (u8 list \<times> u32) option" where
  "put_str m s out ret =
     (if m s = 0 then Some (out, ret) else put_str m (s + 1) (out @ [m s]) (ret + 1))"

text \<open>
  One turn of the \<open>while\<close>: the characters printed so far, their count, and the two pointers. A
  \<open>%\<close> followed by none of the five letters prints that next character, whatever it is.
\<close>

partial_function (option) vprintf_loop ::
  "memory \<Rightarrow> u32 \<Rightarrow> u32 \<Rightarrow> u8 list \<Rightarrow> u32 \<Rightarrow> (u8 list \<times> u32) option" where
  "vprintf_loop m fmt ap out ret =
     (let c = m fmt; fmt = fmt + 1 in
      if c = 0 then Some (out, ret)
      else if c = 37 then
        (let c = m fmt; fmt = fmt + 1; arg = load32 m ap in
         if c = 99 then vprintf_loop m fmt (ap + 4) (out @ [ucast arg]) (ret + 1)
         else if c = 115 then
           Option.bind (put_str m arg out ret) (\<lambda>(out, ret). vprintf_loop m fmt (ap + 4) out ret)
         else if c = 100 then
           vprintf_loop m fmt (ap + 4) (out @ dumpbuf (buf_d arg)) (ret + of_nat (length (buf_d arg)))
         else if c = 117 then
           vprintf_loop m fmt (ap + 4) (out @ dumpbuf (buf_u arg)) (ret + of_nat (length (buf_u arg)))
         else if c = 120 then
           vprintf_loop m fmt (ap + 4) (out @ dumpbuf (buf_x arg)) (ret + of_nat (length (buf_x arg)))
         else vprintf_loop m fmt ap (out @ [c]) (ret + 1))
      else vprintf_loop m fmt ap (out @ [c]) (ret + 1))"

definition vprintf :: "memory \<Rightarrow> u32 \<Rightarrow> u32 \<Rightarrow> (u8 list \<times> u32) option" where
  "vprintf m fmt ap = vprintf_loop m fmt ap [] 0"

text \<open>
  \<open>printf\<close> is called with \<open>fmt\<close> at stack address \<open>fmt_slot\<close> and the arguments after it:
  \<open>va_start\<close> takes the address of \<open>fmt\<close> plus its four bytes.
\<close>

definition printf :: "memory \<Rightarrow> u32 \<Rightarrow> (u8 list \<times> u32) option" where
  "printf m fmt_slot = vprintf m (load32 m fmt_slot) (fmt_slot + 4)"

section \<open>The reference formatter\<close>

datatype arg = AInt u32 | AStr "u8 list"

fun args_at :: "memory \<Rightarrow> u32 \<Rightarrow> arg list \<Rightarrow> bool" where
  "args_at m ap [] \<longleftrightarrow> True"
| "args_at m ap (AInt v # as) \<longleftrightarrow> load32 m ap = v \<and> args_at m (ap + 4) as"
| "args_at m ap (AStr s # as) \<longleftrightarrow> cstr m (load32 m ap) s \<and> args_at m (ap + 4) as"

fun dec_digits :: "nat \<Rightarrow> u8 list" where
  "dec_digits n = (if n < 10 then [48 + of_nat n] else dec_digits (n div 10) @ [48 + of_nat (n mod 10)])"

fun hex_digits :: "nat \<Rightarrow> u8 list" where
  "hex_digits n = (if n < 16 then [ascii ''0123456789abcdef'' ! n]
     else hex_digits (n div 16) @ [ascii ''0123456789abcdef'' ! (n mod 16)])"

declare dec_digits.simps [simp del] hex_digits.simps [simp del]

definition show_int :: "u32 \<Rightarrow> u8 list" where
  "show_int i = (if sint i < 0 then 45 # dec_digits (nat (- sint i)) else dec_digits (nat (sint i)))"

text \<open>
  \<open>None\<close>: the format ends in a lone \<open>%\<close>, or an argument is missing or of the other kind.
\<close>

fun format :: "u8 list \<Rightarrow> arg list \<Rightarrow> u8 list option" where
  "format [] as = Some []"
| "format (c # cs) as =
     (if c \<noteq> 37 then map_option ((#) c) (format cs as)
      else case cs of [] \<Rightarrow> None
      | d # ds \<Rightarrow>
        if d = 99 then (case as of AInt v # as' \<Rightarrow> map_option ((#) (ucast v)) (format ds as') | _ \<Rightarrow> None)
        else if d = 115 then (case as of AStr s # as' \<Rightarrow> map_option ((@) s) (format ds as') | _ \<Rightarrow> None)
        else if d = 100 then (case as of AInt v # as' \<Rightarrow> map_option ((@) (show_int v)) (format ds as') | _ \<Rightarrow> None)
        else if d = 117 then (case as of AInt v # as' \<Rightarrow> map_option ((@) (dec_digits (unat v))) (format ds as') | _ \<Rightarrow> None)
        else if d = 120 then (case as of AInt v # as' \<Rightarrow> map_option ((@) (hex_digits (unat v))) (format ds as') | _ \<Rightarrow> None)
        else map_option ((#) d) (format ds as))"

section \<open>The buffers hold the digits\<close>

lemma dec_loop_rev: "dec_loop u buf = buf @ rev (dec_digits (unat u))"
proof (induction u buf rule: dec_loop.induct)
  case (1 u buf)
  let ?b = "buf @ [48 + ucast (u mod 10)]"
  have d: "ucast (u mod 10) = (of_nat (unat u mod 10) :: u8)"
    by (simp add: ucast_of_nat_unat unat_mod)
  have z: "u div 10 = 0 \<longleftrightarrow> unat u < 10"
    by (simp add: unat_eq_zero [symmetric] unat_div div_eq_0_iff)
  show ?case
  proof (cases "u div 10 = 0")
    case True
    with z d show ?thesis
      by (subst dec_loop.simps, subst dec_digits.simps) (simp add: Let_def)
  next
    case False
    then have "dec_loop u buf = dec_loop (u div 10) ?b"
      by (subst dec_loop.simps) (simp add: Let_def)
    also have "\<dots> = ?b @ rev (dec_digits (unat (u div 10)))"
      by (rule "1.IH") (use False in auto)
    finally show ?thesis
      using False z d by (subst dec_digits.simps) (simp add: unat_div)
  qed
qed

lemma hex_loop_rev: "hex_loop u buf = buf @ rev (hex_digits (unat u))"
proof (induction u buf rule: hex_loop.induct)
  case (1 u buf)
  let ?b = "buf @ [ascii ''0123456789abcdef'' ! unat (u AND 0xf)]"
  have d: "unat (u AND 0xf) = unat u mod 16"
    using unat_and_mask [of u 4] by (simp add: mask_eq_exp_minus_1)
  have s: "unat (drop_bit 4 u) = unat u div 16"
    using unat_drop_bit_div [of 4 u] by simp
  have z: "drop_bit 4 u = 0 \<longleftrightarrow> unat u < 16"
    using s by (simp add: unat_eq_zero [symmetric] div_eq_0_iff)
  show ?case
  proof (cases "drop_bit 4 u = 0")
    case True
    with z d show ?thesis
      by (subst hex_loop.simps, subst hex_digits.simps) (simp add: Let_def)
  next
    case False
    then have "hex_loop u buf = hex_loop (drop_bit 4 u) ?b"
      by (subst hex_loop.simps) (simp add: Let_def)
    also have "\<dots> = ?b @ rev (hex_digits (unat (drop_bit 4 u)))"
      by (rule "1.IH") (use False in auto)
    finally show ?thesis
      using False z d s by (subst hex_digits.simps) simp
  qed
qed


lemma nat_sint_abs:
  "unat (if sint i < 0 then - i else i) = nat (if sint i < 0 then - sint i else sint i)" for i :: u32
proof -
  have n: "sint i < 0 \<longleftrightarrow> \<not> i < 2 ^ 31"
    using uint_lt2p [of i] by (auto simp: sint_u32 word_less_def)
  show ?thesis
  proof (cases "i < 2 ^ 31")
    case True
    with n show ?thesis by (simp add: sint_u32 nat_uint_eq)
  next
    case False
    then have "i \<noteq> 0" by auto
    moreover have "uint i = int (unat i)" by simp
    then have "nat (4294967296 - uint i) = 4294967296 - unat i" by linarith
    ultimately show ?thesis using False n by (simp add: sint_u32 unat_neg)
  qed
qed

lemma dump_d: "dumpbuf (buf_d i) = show_int i"
  using nat_sint_abs [of i]
  by (auto simp: dumpbuf_def buf_d_def show_int_def dec_loop_rev Let_def)

lemma dump_u: "dumpbuf (buf_u u) = dec_digits (unat u)"
  by (simp add: dumpbuf_def buf_u_def dec_loop_rev)

lemma dump_x: "dumpbuf (buf_x u) = hex_digits (unat u)"
  by (simp add: dumpbuf_def buf_x_def hex_loop_rev)

lemmas dump_simps = dump_d dump_u dump_x

lemma length_buf:
  "length (buf_d i) = length (show_int i)"
  "length (buf_u i) = length (dec_digits (unat i))"
  "length (buf_x i) = length (hex_digits (unat i))"
  by (simp_all add: dumpbuf_def flip: dump_simps)

section \<open>vprintf against the reference\<close>

lemma put_str_cstr:
  "cstr m s xs \<Longrightarrow> put_str m s out ret = Some (out @ xs, ret + of_nat (length xs))"
proof (induction xs arbitrary: s out ret)
  case Nil
  then show ?case by (simp add: put_str.simps)
next
  case (Cons x xs)
  then show ?case by (subst put_str.simps) (simp add: algebra_simps)
qed

text \<open>One turn of the loop per case of the format.\<close>

lemma vprintf_end: "m fmt = 0 \<Longrightarrow> vprintf_loop m fmt ap out ret = Some (out, ret)"
  by (subst vprintf_loop.simps) (simp add: Let_def)

lemma vprintf_plain:
  "m fmt = c \<Longrightarrow> c \<noteq> 0 \<Longrightarrow> c \<noteq> 37 \<Longrightarrow>
    vprintf_loop m fmt ap out ret = vprintf_loop m (fmt + 1) ap (out @ [c]) (ret + 1)"
  by (subst vprintf_loop.simps) (simp add: Let_def)

lemma vprintf_percent:
  "m fmt = 37 \<Longrightarrow> vprintf_loop m fmt ap out ret =
    (let c = m (fmt + 1); fmt = fmt + 2; arg = load32 m ap in
     if c = 99 then vprintf_loop m fmt (ap + 4) (out @ [ucast arg]) (ret + 1)
     else if c = 115 then
       Option.bind (put_str m arg out ret) (\<lambda>(out, ret). vprintf_loop m fmt (ap + 4) out ret)
     else if c = 100 then
       vprintf_loop m fmt (ap + 4) (out @ show_int arg) (ret + of_nat (length (show_int arg)))
     else if c = 117 then
       vprintf_loop m fmt (ap + 4) (out @ dec_digits (unat arg)) (ret + of_nat (length (dec_digits (unat arg))))
     else if c = 120 then
       vprintf_loop m fmt (ap + 4) (out @ hex_digits (unat arg)) (ret + of_nat (length (hex_digits (unat arg))))
     else vprintf_loop m fmt ap (out @ [c]) (ret + 1))"
  by (subst vprintf_loop.simps) (simp add: Let_def length_buf dump_simps add.assoc)

lemma vprintf_conv:
  "m fmt = 37 \<Longrightarrow> m (fmt + 1) = 99 \<Longrightarrow> vprintf_loop m fmt ap out ret =
      vprintf_loop m (fmt + 2) (ap + 4) (out @ [ucast (load32 m ap)]) (ret + 1)"
  "m fmt = 37 \<Longrightarrow> m (fmt + 1) = 115 \<Longrightarrow> cstr m (load32 m ap) s \<Longrightarrow> vprintf_loop m fmt ap out ret =
      vprintf_loop m (fmt + 2) (ap + 4) (out @ s) (ret + of_nat (length s))"
  "m fmt = 37 \<Longrightarrow> m (fmt + 1) = 100 \<Longrightarrow> vprintf_loop m fmt ap out ret =
      vprintf_loop m (fmt + 2) (ap + 4) (out @ show_int (load32 m ap))
        (ret + of_nat (length (show_int (load32 m ap))))"
  "m fmt = 37 \<Longrightarrow> m (fmt + 1) = 117 \<Longrightarrow> vprintf_loop m fmt ap out ret =
      vprintf_loop m (fmt + 2) (ap + 4) (out @ dec_digits (unat (load32 m ap)))
        (ret + of_nat (length (dec_digits (unat (load32 m ap)))))"
  "m fmt = 37 \<Longrightarrow> m (fmt + 1) = 120 \<Longrightarrow> vprintf_loop m fmt ap out ret =
      vprintf_loop m (fmt + 2) (ap + 4) (out @ hex_digits (unat (load32 m ap)))
        (ret + of_nat (length (hex_digits (unat (load32 m ap)))))"
  "m fmt = 37 \<Longrightarrow> m (fmt + 1) = d \<Longrightarrow> d \<notin> {99, 115, 100, 117, 120} \<Longrightarrow> vprintf_loop m fmt ap out ret =
      vprintf_loop m (fmt + 2) ap (out @ [d]) (ret + 1)"
  by (subst vprintf_percent, assumption, simp add: Let_def put_str_cstr)+

text \<open>
  A format with its arguments, both in memory: the invariant of the loop is that the rest of the
  format still prints what the reference says.
\<close>

lemma vprintf_loop_format:
  "cstr m fmt xs \<Longrightarrow> args_at m ap as \<Longrightarrow> format xs as = Some r \<Longrightarrow>
    vprintf_loop m fmt ap out ret = Some (out @ r, ret + of_nat (length r))"
proof (induction xs as arbitrary: fmt ap out ret r rule: format.induct)
  case (1 as)
  then show ?case by (simp add: vprintf_end)
next
  case (2 c cs as)
  note IH = "2.IH" and prems = "2.prems"
  show ?case
  proof (cases "c = 37")
    case False
    with prems obtain r' where r: "r = c # r'" "format cs as = Some r'" by auto
    with False prems IH(1) [of "fmt + 1" ap r' "out @ [c]" "ret + 1"] show ?thesis
      by (simp add: vprintf_plain add.assoc)
  next
    case True
    with prems obtain d ds where cs: "cs = d # ds" by (cases cs) auto
    have m: "m fmt = 37" "m (fmt + 1) = d" "cstr m (fmt + 2) ds"
      using prems(1) True cs by (auto simp: add.assoc)
    consider (c) "d = 99" | (s) "d = 115" | (d) "d = 100" | (u) "d = 117" | (x) "d = 120"
      | (other) "d \<notin> {99, 115, 100, 117, 120}" by auto
    then show ?thesis
    proof cases
      case c
      with prems True cs obtain v as' r' where "as = AInt v # as'" "format ds as' = Some r'" "r = ucast v # r'"
        by (auto split: list.splits arg.splits)
      with IH(2) [of d ds] True cs c m prems(2) show ?thesis
        by (simp add: vprintf_conv(1) add.assoc)
    next
      case s
      with prems True cs obtain v as' r' where "as = AStr v # as'" "format ds as' = Some r'" "r = v @ r'"
        by (auto split: list.splits arg.splits)
      with IH(3) [of d ds "AStr v" as' v] True cs s m prems(2) show ?thesis
        by (simp add: vprintf_conv(2) [of m fmt ap v] add.assoc)
    next
      case d
      with prems True cs obtain v as' r' where "as = AInt v # as'" "format ds as' = Some r'" "r = show_int v @ r'"
        by (auto split: list.splits arg.splits)
      with IH(4) [of d ds] True cs d m prems(2) show ?thesis
        by (simp add: vprintf_conv(3) add.assoc)
    next
      case u
      with prems True cs obtain v as' r' where "as = AInt v # as'" "format ds as' = Some r'" "r = dec_digits (unat v) @ r'"
        by (auto split: list.splits arg.splits)
      with IH(5) [of d ds] True cs u m prems(2) show ?thesis
        by (simp add: vprintf_conv(4) add.assoc)
    next
      case x
      with prems True cs obtain v as' r' where "as = AInt v # as'" "format ds as' = Some r'" "r = hex_digits (unat v) @ r'"
        by (auto split: list.splits arg.splits)
      with IH(6) [of d ds] True cs x m prems(2) show ?thesis
        by (simp add: vprintf_conv(5) add.assoc)
    next
      case other
      with prems True cs obtain r' where "format ds as = Some r'" "r = d # r'" by auto
      with IH(7) [of d ds] True cs other m prems(2) show ?thesis
        by (simp add: vprintf_conv(6) add.assoc)
    qed
  qed
qed


section \<open>Digits: value and number\<close>

definition dec_value :: "u8 list \<Rightarrow> nat" where
  "dec_value ds = foldl (\<lambda>n d. 10 * n + (unat d - 48)) 0 ds"

definition hex_digit_value :: "u8 \<Rightarrow> nat" where
  "hex_digit_value d = (if d < 97 then unat d - 48 else unat d - 87)"

definition hex_value :: "u8 list \<Rightarrow> nat" where
  "hex_value ds = foldl (\<lambda>n d. 16 * n + hex_digit_value d) 0 ds"

lemma dec_char_value: "n < 10 \<Longrightarrow> unat (48 + of_nat n :: u8) = 48 + n"
  by (simp add: unat_word_ariths unat_of_nat take_bit_eq_mod)

lemma dec_value_digits: "dec_value (dec_digits n) = n"
proof (induction n rule: dec_digits.induct)
  case (1 n)
  show ?case
  proof (cases "n < 10")
    case True
    then show ?thesis by (subst dec_digits.simps) (simp add: dec_value_def dec_char_value)
  next
    case False
    with 1 have "dec_value (dec_digits (n div 10)) = n div 10" by simp
    moreover have "unat (48 + of_nat (n mod 10) :: u8) = 48 + n mod 10"
      by (rule dec_char_value) simp
    ultimately show ?thesis using False
      by (subst dec_digits.simps) (simp add: dec_value_def)
  qed
qed

lemma hex_char_value: "n < 16 \<Longrightarrow> hex_digit_value (ascii ''0123456789abcdef'' ! n) = n"
proof -
  have "\<forall>n \<in> {0..<16}. hex_digit_value (ascii ''0123456789abcdef'' ! n) = n"
    by (simp add: ascii_def hex_digit_value_def atLeastLessThan_nat_numeral)
  then show "n < 16 \<Longrightarrow> hex_digit_value (ascii ''0123456789abcdef'' ! n) = n" by simp
qed

lemma hex_value_digits: "hex_value (hex_digits n) = n"
proof (induction n rule: hex_digits.induct)
  case (1 n)
  show ?case
  proof (cases "n < 16")
    case True
    then show ?thesis by (subst hex_digits.simps) (simp add: hex_value_def hex_char_value)
  next
    case False
    with 1 have "hex_value (hex_digits (n div 16)) = n div 16" by simp
    with False show ?thesis
      by (subst hex_digits.simps) (simp add: hex_value_def hex_char_value)
  qed
qed

lemma length_dec_digits: "0 < k \<Longrightarrow> n < 10 ^ k \<Longrightarrow> length (dec_digits n) \<le> k"
proof (induction n arbitrary: k rule: dec_digits.induct)
  case (1 n)
  show ?case
  proof (cases "n < 10")
    case True
    with "1.prems" show ?thesis by (subst dec_digits.simps) simp
  next
    case False
    with "1.prems" have k: "1 < k" by (cases k; cases "k - 1") auto
    then have "n div 10 < 10 ^ (k - 1)"
      using "1.prems"(2) by (cases k) (auto simp: less_mult_imp_div_less mult.commute)
    with False k "1.IH" [of "k - 1"] show ?thesis
      by (subst dec_digits.simps) simp
  qed
qed

lemma length_hex_digits: "0 < k \<Longrightarrow> n < 16 ^ k \<Longrightarrow> length (hex_digits n) \<le> k"
proof (induction n arbitrary: k rule: hex_digits.induct)
  case (1 n)
  show ?case
  proof (cases "n < 16")
    case True
    with "1.prems" show ?thesis by (subst hex_digits.simps) simp
  next
    case False
    with "1.prems" have k: "1 < k" by (cases k; cases "k - 1") auto
    then have "n div 16 < 16 ^ (k - 1)"
      using "1.prems"(2) by (cases k) (auto simp: less_mult_imp_div_less mult.commute)
    with False k "1.IH" [of "k - 1"] show ?thesis
      by (subst hex_digits.simps) simp
  qed
qed

lemma abs_sint_bound: "nat \<bar>sint (i :: u32)\<bar> < 10 ^ 10"
  using sint_ge [of i] sint_lt [of i] by (simp add: nat_less_iff)

section \<open>Properties\<close>

text \<open>
  Property C10. When the format and the string arguments are NUL-terminated and the arguments on the
  stack fit the conversions, \<open>vprintf\<close> returns, prints exactly the text the reference formatter
  gives for the format and the arguments, and returns the number of characters printed.
\<close>

theorem vprintf_refines:
  assumes "cstr m fmt xs" and "args_at m ap as" and "format xs as = Some r"
  shows "vprintf m fmt ap = Some (r, of_nat (length r))"
  using vprintf_loop_format [OF assms, of "[]" 0] by (simp add: vprintf_def)

definition printf_memory :: memory where
  "printf_memory = (store32 (\<lambda>_. 0) 64 42)(16 := 37, 17 := 100, 18 := 33)"

theorem vprintf_refines_witness:
  "vprintf printf_memory 16 64 = Some ([52, 50, 33], of_nat (length [52, 50, 33 :: u8]))"
proof (rule vprintf_refines)
  show "cstr printf_memory 16 [37, 100, 33]"
    by (simp add: printf_memory_def store32_def)
  show "args_at printf_memory 64 [AInt 42]"
    by (simp add: printf_memory_def store32_def load32_def)
  show "format [37, 100, 33] [AInt 42] = Some [52, 50, 33]"
    by (simp add: show_int_def dec_digits.simps)
qed

text \<open>
  Property C34. What \<open>%d\<close>, \<open>%u\<close> and \<open>%x\<close> print can be read back: the decimal digits of \<open>%u\<close> and the
  hexadecimal digits of \<open>%x\<close> denote the argument, and \<open>%d\<close> prints a minus sign exactly for a
  negative argument, followed by the digits of its absolute value.
\<close>

theorem printed_digits_roundtrip:
  "dec_value (dumpbuf (buf_u u)) = unat u
   \<and> hex_value (dumpbuf (buf_x u)) = unat u
   \<and> (\<exists>ds. dumpbuf (buf_d u) = (if sint u < 0 then [45] else []) @ ds \<and> dec_value ds = nat \<bar>sint u\<bar>)"
  by (simp add: dump_simps dec_value_digits hex_value_digits show_int_def)

text \<open>
  No conversion stores more bytes in the array \<open>buf\<close> than its 11 (ten digits and a
  sign), for any argument.
\<close>

theorem conversion_fits_buf:
  "length (buf_d i) \<le> 11 \<and> length (buf_u i) \<le> 11 \<and> length (buf_x i) \<le> 11"
proof -
  have "length (show_int i) \<le> 11"
    using length_dec_digits [of 10 "nat \<bar>sint i\<bar>"] abs_sint_bound [of i]
    by (auto simp: show_int_def)
  moreover have "length (dec_digits (unat i)) \<le> 10"
    using unat_u32_lt [of i] by (intro length_dec_digits) simp_all
  moreover have "length (hex_digits (unat i)) \<le> 8"
    using unat_u32_lt [of i] by (intro length_hex_digits) simp_all
  ultimately show ?thesis by (simp add: length_buf)
qed

text \<open>
  A format that ends in a lone \<open>%\<close> is not stopped by its terminator: \<open>vprintf\<close> prints
  the NUL and goes on reading format bytes after it.
\<close>

theorem lone_percent_runs_on:
  assumes "m fmt = 37" and "m (fmt + 1) = 0"
  shows "vprintf_loop m fmt ap out ret = vprintf_loop m (fmt + 2) ap (out @ [0]) (ret + 1)"
  using assms by (subst vprintf_percent) (simp_all add: Let_def)

theorem lone_percent_runs_on_witness:
  "vprintf_loop ((\<lambda>_. 0)(5 := 37)) 5 0 [] 0 = vprintf_loop ((\<lambda>_. 0)(5 := 37)) 7 0 [0] 1"
  using lone_percent_runs_on [of "(\<lambda>_. 0)(5 := 37)" 5 0 "[]" 0] by simp

end
