(* ===== verification/Monitor.thy ===== *)
theory Monitor
  imports Common_C
begin

text \<open>
  \<open>src/src/monitor.c\<close>: the 80 by 25 text screen. The state is the two static cursor bytes, the
  16-bit cells from \<open>0xb8000\<close> on (indexed as \<open>video_memory[i]\<close>, with no bound of its own) and the
  port writes made. A terminal of 25 rows is the specification that \<open>monitor_put\<close> refines.
\<close>

section \<open>State and operations\<close>

record monitor =
  cursor_x :: u8
  cursor_y :: u8
  video_memory :: "nat \<Rightarrow> u16"
  mon_ports :: ports

definition move_cursor :: "monitor \<Rightarrow> monitor" where
  "move_cursor s =
     (let cursorLocation = (of_nat (unat (cursor_y s) * 80 + unat (cursor_x s)) :: u16) in
      s\<lparr>mon_ports := outb (outb (outb (outb (mon_ports s)
          0x3D4 14) 0x3D5 (ucast (drop_bit 8 cursorLocation)))
          0x3D4 15) 0x3D5 (ucast cursorLocation)\<rparr>)"

text \<open>The two loops of \<open>scroll\<close>: \<open>video_memory[i] = video_memory[i + 80]\<close>, then the blanks.\<close>

function scroll_copy :: "(nat \<Rightarrow> u16) \<Rightarrow> nat \<Rightarrow> (nat \<Rightarrow> u16)" where
  "scroll_copy vm i = (if i < (25 - 1) * 80 then scroll_copy (vm(i := vm (i + 80))) (i + 1) else vm)"
  by pat_completeness auto
termination by (relation "measure (\<lambda>(vm, i). (25 - 1) * 80 - i)") auto

function fill_cells :: "(nat \<Rightarrow> u16) \<Rightarrow> u16 \<Rightarrow> nat \<Rightarrow> (nat \<Rightarrow> u16)" where
  "fill_cells vm blank i = (if i < 80 * 25 then fill_cells (vm(i := blank)) blank (i + 1) else vm)"
  by pat_completeness auto
termination by (relation "measure (\<lambda>(vm, blank, i). 80 * 25 - i)") auto

declare scroll_copy.simps [simp del] fill_cells.simps [simp del]

definition scroll :: "monitor \<Rightarrow> monitor" where
  "scroll s =
     (let attributeByte = (push_bit 4 0 OR (15 AND 0x0f) :: u8);
          blank = (0x20 OR push_bit 8 (ucast attributeByte) :: u16) in
      if 25 \<le> cursor_y s
      then s\<lparr>video_memory := fill_cells (scroll_copy (video_memory s) (0 * 80)) blank ((25 - 1) * 80),
             cursor_y := 25 - 1\<rparr>
      else s)"

text \<open>
  The \<open>if\<close> chain of \<open>monitor_put\<close>; \<open>char\<close> is signed, so \<open>c >= ' '\<close> is a signed comparison.
\<close>

definition put_char :: "monitor \<Rightarrow> u8 \<Rightarrow> monitor" where
  "put_char s c =
     (let attributeByte = (push_bit 4 0 OR (15 AND 0x0f) :: u8);
          attribute = (push_bit 8 (ucast attributeByte) :: u16) in
      if c = 0x08 \<and> cursor_x s \<noteq> 0 then s\<lparr>cursor_x := cursor_x s - 1\<rparr>
      else if c = 0x09 then s\<lparr>cursor_x := (cursor_x s + 4) AND NOT (4 - 1)\<rparr>
      else if c = 0x0D then s\<lparr>cursor_x := 0\<rparr>
      else if c = 0x0A then s\<lparr>cursor_y := cursor_y s + 1, cursor_x := 0\<rparr>
      else if sint (0x20 :: u8) \<le> sint c
        then s\<lparr>video_memory := (video_memory s)
                 (unat (cursor_y s) * 80 + unat (cursor_x s) := ucast c OR attribute),
               cursor_x := cursor_x s + 1\<rparr>
      else s)"

definition wrap_line :: "monitor \<Rightarrow> monitor" where
  "wrap_line s = (if 80 \<le> cursor_x s then s\<lparr>cursor_y := cursor_y s + 1, cursor_x := 0\<rparr> else s)"

definition monitor_put :: "monitor \<Rightarrow> u8 \<Rightarrow> monitor" where
  "monitor_put s c = move_cursor (scroll (wrap_line (put_char s c)))"

fun monitor_puts :: "monitor \<Rightarrow> u8 list \<Rightarrow> monitor" where
  "monitor_puts s [] = s"
| "monitor_puts s (c # cs) = monitor_puts (monitor_put s c) cs"

text \<open>\<open>monitor_write\<close> puts the bytes from \<open>c\<close> up to the first NUL.\<close>

partial_function (option) monitor_write :: "memory \<Rightarrow> monitor \<Rightarrow> u32 \<Rightarrow> monitor option" where
  "monitor_write m s c = (if m c = 0 then Some s else monitor_write m (monitor_put s (m c)) (c + 1))"

definition monitor_clear :: "monitor \<Rightarrow> monitor" where
  "monitor_clear s =
     move_cursor (s\<lparr>video_memory := fill_cells (video_memory s) 0x0020 0, cursor_x := 0, cursor_y := 0\<rparr>)"

section \<open>The loops in closed form\<close>

lemma scroll_copy_eq:
  "scroll_copy vm i = (\<lambda>k. if i \<le> k \<and> k < 1920 then vm (k + 80) else vm k)"
proof (induction vm i rule: scroll_copy.induct)
  case (1 vm i)
  show ?case
  proof (cases "i < 1920")
    case True
    then have "scroll_copy vm i = scroll_copy (vm(i := vm (i + 80))) (i + 1)"
      by (subst scroll_copy.simps) simp
    also have "\<dots> = (\<lambda>k. if i + 1 \<le> k \<and> k < 1920 then (vm(i := vm (i + 80))) (k + 80)
        else (vm(i := vm (i + 80))) k)"
      using True by (intro "1.IH") simp
    finally show ?thesis using True by (auto simp: fun_eq_iff)
  next
    case False
    then show ?thesis by (subst scroll_copy.simps) (auto simp: fun_eq_iff)
  qed
qed

lemma fill_cells_eq:
  "fill_cells vm blank i = (\<lambda>k. if i \<le> k \<and> k < 2000 then blank else vm k)"
proof (induction vm blank i rule: fill_cells.induct)
  case (1 vm blank i)
  show ?case
  proof (cases "i < 2000")
    case True
    then have "fill_cells vm blank i = fill_cells (vm(i := blank)) blank (i + 1)"
      by (subst fill_cells.simps) simp
    also have "\<dots> = (\<lambda>k. if i + 1 \<le> k \<and> k < 2000 then blank else (vm(i := blank)) k)"
      using True by (intro "1.IH") simp
    finally show ?thesis using True by (auto simp: fun_eq_iff)
  next
    case False
    then show ?thesis by (subst fill_cells.simps) (auto simp: fun_eq_iff)
  qed
qed

section \<open>The terminal that the screen refines\<close>

record terminal =
  tx :: nat
  ty :: nat
  rows :: "u16 list list"

definition blank_row :: "u16 list" where
  "blank_row = replicate 80 0x0F20"

definition line_feed :: "terminal \<Rightarrow> terminal" where
  "line_feed t =
     (if ty t + 1 < 25 then t\<lparr>tx := 0, ty := ty t + 1\<rparr>
      else t\<lparr>tx := 0, rows := tl (rows t) @ [blank_row]\<rparr>)"

definition advance_to :: "terminal \<Rightarrow> nat \<Rightarrow> terminal" where
  "advance_to t x = (if x < 80 then t\<lparr>tx := x\<rparr> else line_feed t)"

definition printable :: "u8 \<Rightarrow> bool" where
  "printable c \<longleftrightarrow> 32 \<le> c \<and> c < 128"

definition terminal_put :: "terminal \<Rightarrow> u8 \<Rightarrow> terminal" where
  "terminal_put t c =
     (if c = 8 then t\<lparr>tx := tx t - 1\<rparr>
      else if c = 9 then advance_to t ((tx t div 4 + 1) * 4)
      else if c = 13 then t\<lparr>tx := 0\<rparr>
      else if c = 10 then line_feed t
      else if printable c
        then advance_to (t\<lparr>rows := (rows t)[ty t := (rows t ! ty t)[tx t := 0x0F00 OR ucast c]]\<rparr>) (tx t + 1)
      else t)"

definition screen_rows :: "(nat \<Rightarrow> u16) \<Rightarrow> u16 list list" where
  "screen_rows vm = map (\<lambda>y. map (\<lambda>x. vm (y * 80 + x)) [0..<80]) [0..<25]"

definition abs_terminal :: "monitor \<Rightarrow> terminal" where
  "abs_terminal s = \<lparr>tx = unat (cursor_x s), ty = unat (cursor_y s), rows = screen_rows (video_memory s)\<rparr>"

definition on_screen :: "monitor \<Rightarrow> bool" where
  "on_screen s \<longleftrightarrow> cursor_x s < 80 \<and> cursor_y s < 25"


section \<open>Every character keeps the cursor on the screen\<close>

lemma move_cursor_frame [simp]:
  "cursor_x (move_cursor s) = cursor_x s"
  "cursor_y (move_cursor s) = cursor_y s"
  "video_memory (move_cursor s) = video_memory s"
  by (simp_all add: move_cursor_def Let_def)

lemma tab_stop: "x < 80 \<Longrightarrow> unat ((x + 4) AND NOT 3 :: u8) = (unat x div 4 + 1) * 4"
proof -
  assume "x < 80"
  then have "unat (x + 4) = unat x + 4"
    by (simp add: word_less_nat_alt unat_word_ariths)
  moreover have "(3::u8) = mask 2" by (simp add: mask_eq_exp_minus_1)
  ultimately show ?thesis by (simp only: unat_and_not_mask) (simp, arith)
qed

lemma printable_signed: "32 \<le> sint c \<longleftrightarrow> printable c"
  using uint_lt2p [of c] by (simp add: printable_def sint_u8 word_less_def word_le_def)

lemma unat_inc: "x < 80 \<Longrightarrow> unat (x + 1) = unat x + 1" for x :: u8
  by (simp add: word_less_nat_alt unat_word_ariths)

lemma unat_dec: "x \<noteq> 0 \<Longrightarrow> unat (x - 1) = unat x - 1" for x :: u8
  by (rule unat_minus_one)

lemma tab_bound: "x < 80 \<Longrightarrow> (x + 4) AND NOT 3 \<le> (80 :: u8)"
  using tab_stop [of x] by (simp add: word_le_nat_alt word_less_nat_alt)

text \<open>The screen after the three stages, in terms of the terminal.\<close>

lemma length_screen_rows [simp]: "length (screen_rows vm) = 25"
  by (simp add: screen_rows_def)

lemma nth_screen_rows: "y < 25 \<Longrightarrow> screen_rows vm ! y = map (\<lambda>x. vm (y * 80 + x)) [0..<80]"
  by (simp add: screen_rows_def)

lemma screen_rows_put:
  assumes "x < 80" and "y < 25"
  shows "screen_rows (vm(y * 80 + x := v)) = (screen_rows vm)[y := (screen_rows vm ! y)[x := v]]"
proof (rule nth_equalityI)
  fix i assume "i < length (screen_rows (vm(y * 80 + x := v)))"
  then have i: "i < 25" by simp
  have split: "(a * 80 + b) div 80 = a \<and> (a * 80 + b) mod 80 = b" if "b < 80" for a b :: nat
    using that by simp
  have eq: "i * 80 + j = y * 80 + x \<longleftrightarrow> i = y \<and> j = x" if "j < 80" for j
    using split [of j i] split [of x y] that assms(1) by metis
  show "screen_rows (vm(y * 80 + x := v)) ! i = (screen_rows vm)[y := (screen_rows vm ! y)[x := v]] ! i"
    using i assms eq by (intro nth_equalityI) (auto simp: nth_screen_rows nth_list_update)
qed simp

lemma screen_rows_scroll:
  "screen_rows (fill_cells (scroll_copy vm 0) 0x0F20 1920) = tl (screen_rows vm) @ [blank_row]"
proof (rule nth_equalityI)
  fix i assume "i < length (screen_rows (fill_cells (scroll_copy vm 0) 0x0F20 1920))"
  then have i: "i < 25" by simp
  show "screen_rows (fill_cells (scroll_copy vm 0) 0x0F20 1920) ! i = (tl (screen_rows vm) @ [blank_row]) ! i"
  proof (cases "i = 24")
    case True
    then show ?thesis
      by (intro nth_equalityI)
        (auto simp: nth_screen_rows nth_append blank_row_def fill_cells_eq scroll_copy_eq)
  next
    case False
    with i have "i < 24" by simp
    then show ?thesis
      by (intro nth_equalityI)
        (auto simp: nth_screen_rows nth_append nth_tl fill_cells_eq scroll_copy_eq algebra_simps)
  qed
qed (simp add: blank_row_def)


text \<open>One character on the screen is one character on the terminal.\<close>

lemmas put_unfold = monitor_put_def put_char_def wrap_line_def scroll_def Let_def
lemmas terminal_unfold = terminal_put_def advance_to_def line_feed_def abs_terminal_def

lemma on_screen_nat: "on_screen s \<longleftrightarrow> unat (cursor_x s) < 80 \<and> unat (cursor_y s) < 25"
  by (simp add: on_screen_def word_less_nat_alt)

text \<open>
  Ending a line: the row after the last is reached by scrolling, from any earlier row by going
  down; both are the terminal's line feed.
\<close>

lemma scroll_line_feed:
  assumes "unat (cursor_y s) < 25" and "t = abs_terminal s"
  shows "abs_terminal (scroll (s\<lparr>cursor_y := cursor_y s + 1, cursor_x := 0\<rparr>)) = line_feed t"
    and "on_screen (scroll (s\<lparr>cursor_y := cursor_y s + 1, cursor_x := 0\<rparr>))"
proof -
  have u: "unat (cursor_y s + 1) = unat (cursor_y s) + 1"
    using assms(1) by (simp add: unat_word_ariths)
  have l: "25 \<le> cursor_y s + 1 \<longleftrightarrow> unat (cursor_y s) + 1 = 25"
    using assms(1) u by (auto simp: word_le_nat_alt)
  show "abs_terminal (scroll (s\<lparr>cursor_y := cursor_y s + 1, cursor_x := 0\<rparr>)) = line_feed t"
    using assms u l
    by (simp add: scroll_def line_feed_def abs_terminal_def Let_def screen_rows_scroll)
  show "on_screen (scroll (s\<lparr>cursor_y := cursor_y s + 1, cursor_x := 0\<rparr>))"
    using assms u l by (simp add: scroll_def on_screen_nat Let_def)
qed

lemma scroll_idle:
  assumes "unat (cursor_y s) < 25"
  shows "scroll s = s"
  using assms by (simp add: scroll_def Let_def word_le_nat_alt)

text \<open>The stage after the character has moved the cursor to column \<open>x\<close>, at most 80.\<close>

lemma wrap_scroll_advance:
  assumes "unat (cursor_y s) < 25" and "unat (cursor_x s) \<le> 80"
  shows "abs_terminal (scroll (wrap_line s)) = advance_to (abs_terminal s) (unat (cursor_x s))"
    and "on_screen (scroll (wrap_line s))"
proof -
  have l: "80 \<le> cursor_x s \<longleftrightarrow> unat (cursor_x s) = 80"
    using assms(2) by (auto simp: word_le_nat_alt)
  have lf: "line_feed (abs_terminal s) = line_feed ((abs_terminal s)\<lparr>tx := v\<rparr>)" for v
    by (simp add: line_feed_def)
  show "abs_terminal (scroll (wrap_line s)) = advance_to (abs_terminal s) (unat (cursor_x s))"
    using assms l scroll_line_feed(1) [OF assms(1) refl]
    by (auto simp: wrap_line_def advance_to_def scroll_idle abs_terminal_def)
  show "on_screen (scroll (wrap_line s))"
    using assms l scroll_line_feed(2) [OF assms(1) refl]
    by (auto simp: wrap_line_def scroll_idle on_screen_nat)
qed

lemma abs_terminal_move_cursor [simp]: "abs_terminal (move_cursor s) = abs_terminal s"
  by (simp add: abs_terminal_def)

lemma on_screen_move_cursor [simp]: "on_screen (move_cursor s) = on_screen s"
  by (simp add: on_screen_def)

lemma put_char_stage:
  assumes "on_screen s" and "c \<noteq> 10"
  shows "unat (cursor_y (put_char s c)) < 25" and "unat (cursor_x (put_char s c)) \<le> 80"
    and "advance_to (abs_terminal (put_char s c)) (unat (cursor_x (put_char s c)))
      = terminal_put (abs_terminal s) c"
proof -
  have b: "unat (cursor_x s) < 80" "unat (cursor_y s) < 25"
    using assms(1) by (simp_all add: on_screen_nat)
  have x: "cursor_x s < 80" using assms(1) by (simp add: on_screen_def)
  have tab: "unat (cursor_x s) div 4 * 4 + 4 \<le> 80" using b(1) by arith
  note eqs = tab_stop [OF x] unat_inc [OF x]
  show "unat (cursor_y (put_char s c)) < 25"
    using b assms(2) by (simp add: put_char_def Let_def)
  show "unat (cursor_x (put_char s c)) \<le> 80"
    using b assms(2) tab eqs by (auto simp: put_char_def Let_def unat_dec)
  show "advance_to (abs_terminal (put_char s c)) (unat (cursor_x (put_char s c)))
      = terminal_put (abs_terminal s) c"
    using b assms(2) tab eqs
    by (auto simp: put_char_def Let_def terminal_put_def abs_terminal_def unat_dec
      printable_signed screen_rows_put advance_to_def line_feed_def or.commute unat_eq_zero)
qed

lemma monitor_put_step:
  assumes "on_screen s"
  shows "abs_terminal (monitor_put s c) = terminal_put (abs_terminal s) c \<and> on_screen (monitor_put s c)"
proof (cases "c = 10")
  case True
  have b: "unat (cursor_y s) < 25" using assms by (simp add: on_screen_nat)
  have "wrap_line (put_char s c) = s\<lparr>cursor_y := cursor_y s + 1, cursor_x := 0\<rparr>"
    using True by (simp add: put_char_def wrap_line_def Let_def)
  with scroll_line_feed [OF b refl] True show ?thesis
    by (simp add: monitor_put_def terminal_put_def)
next
  case False
  with put_char_stage [OF assms False] wrap_scroll_advance [of "put_char s c"] show ?thesis
    by (simp add: monitor_put_def)
qed

text \<open>The screen simulates the terminal, one character after the other.\<close>

interpretation screen: simulation "\<lambda>s c t. t = monitor_put s c" "\<lambda>c t. terminal_put t c" "\<lambda>s t. on_screen s \<and> t = abs_terminal s"
  by unfold_locales (simp add: monitor_put_step)

lemma monitor_puts_foldl: "monitor_puts s cs = foldl monitor_put s cs"
  by (induction cs arbitrary: s) simp_all

lemma monitor_puts_fold:
  "on_screen s \<Longrightarrow> abs_terminal (monitor_puts s cs) = fold (\<lambda>c t. terminal_put t c) cs (abs_terminal s)
    \<and> on_screen (monitor_puts s cs)"
  using screen.runs_simulate [of s cs "monitor_puts s cs" "abs_terminal s"]
  by (simp add: runs_function monitor_puts_foldl)

lemma monitor_write_cstr: "cstr m a xs \<Longrightarrow> monitor_write m s a = Some (monitor_puts s xs)"
  by (induction xs arbitrary: a s) (simp_all add: monitor_write.simps)

lemma monitor_clear_screen:
  "on_screen (monitor_clear s) \<and> unat (cursor_x (monitor_clear s)) = 0 \<and> unat (cursor_y (monitor_clear s)) = 0"
  by (simp add: monitor_clear_def on_screen_def)

section \<open>Properties\<close>

text \<open>
  Property C9. While the cursor is on the screen, \<open>monitor_put\<close> does to the 25 rows and the cursor
  what a terminal does with the character (print, tab to the next multiple of four, return, new
  line, backspace, wrap at column 80, scroll at the bottom), and leaves the cursor on the screen.
\<close>

theorem monitor_put_refines:
  assumes "on_screen s"
  shows "abs_terminal (monitor_put s c) = terminal_put (abs_terminal s) c \<and> on_screen (monitor_put s c)"
  using assms by (rule monitor_put_step)

theorem monitor_put_refines_witness:
  "abs_terminal (monitor_put \<lparr>cursor_x = 79, cursor_y = 24, video_memory = (\<lambda>_. 0), mon_ports = []\<rparr> 65)
     = terminal_put (abs_terminal \<lparr>cursor_x = 79, cursor_y = 24, video_memory = (\<lambda>_. 0), mon_ports = []\<rparr>) 65
   \<and> on_screen (monitor_put \<lparr>cursor_x = 79, cursor_y = 24, video_memory = (\<lambda>_. 0), mon_ports = []\<rparr> 65)"
  by (rule monitor_put_refines) (simp add: on_screen_def)

text \<open>
  Whatever the state, clearing the screen and then writing any NUL-terminated string
  with \<open>monitor_write\<close> returns, and shows what a terminal shows for the string's characters.
\<close>

theorem monitor_write_refines:
  assumes "cstr m a xs"
  shows "\<exists>s'. monitor_write m (monitor_clear s) a = Some s' \<and> on_screen s'
    \<and> abs_terminal s' = fold (\<lambda>c t. terminal_put t c) xs (abs_terminal (monitor_clear s))"
  using monitor_write_cstr [OF assms] monitor_puts_fold [of "monitor_clear s" xs] monitor_clear_screen
  by simp

definition no_cells :: monitor where
  "no_cells = \<lparr>cursor_x = 3, cursor_y = 7, video_memory = (\<lambda>_. 0), mon_ports = []\<rparr>"

theorem monitor_write_refines_witness:
  "\<exists>s'. monitor_write ((\<lambda>_. 0)(16 := 72, 17 := 105)) (monitor_clear no_cells) 16 = Some s' \<and> on_screen s'
    \<and> abs_terminal s' = fold (\<lambda>c t. terminal_put t c) [72, 105] (abs_terminal (monitor_clear no_cells))"
  by (rule monitor_write_refines) simp

lemma put_char_cells:
  assumes "on_screen s" and "2000 \<le> k"
  shows "video_memory (put_char s c) k = video_memory s k"
proof -
  have "unat (cursor_y s) * 80 + unat (cursor_x s) < 2000"
    using assms(1) by (simp add: on_screen_nat)
  with assms(2) show ?thesis by (auto simp: put_char_def Let_def)
qed

lemma scroll_cells: "2000 \<le> k \<Longrightarrow> video_memory (scroll s) k = video_memory s k"
  by (simp add: scroll_def Let_def fill_cells_eq scroll_copy_eq)

text \<open>
  While the cursor is on the screen, \<open>monitor_put\<close> writes no cell outside the 80 by 25
  cells of the screen, and the last four port writes tell the VGA board the high and then the low
  byte of the new cursor's cell number.
\<close>

theorem monitor_put_bounds:
  assumes "on_screen s" and "2000 \<le> k"
  shows "video_memory (monitor_put s c) k = video_memory s k
    \<and> mon_ports (monitor_put s c) = mon_ports s @
       (let loc = unat (cursor_y (monitor_put s c)) * 80 + unat (cursor_x (monitor_put s c)) in
        [(0x3D4, 14), (0x3D5, of_nat (loc div 256)), (0x3D4, 15), (0x3D5, of_nat (loc mod 256))])"
proof -
  let ?s = "scroll (wrap_line (put_char s c))"
  let ?loc = "unat (cursor_y ?s) * 80 + unat (cursor_x ?s)"
  have on: "on_screen ?s"
    using monitor_put_step [OF assms(1), of c] by (simp add: monitor_put_def)
  then have l: "?loc < 2 ^ 16" by (simp add: on_screen_nat)
  then have u: "unat (of_nat ?loc :: u16) = ?loc"
    by (simp only: unat_of_nat take_bit_eq_mod) simp
  have hi: "ucast (drop_bit 8 (of_nat ?loc :: u16)) = (of_nat (?loc div 256) :: u8)"
    by (simp only: ucast_of_nat_unat unat_drop_bit_eq u) (simp add: drop_bit_eq_div)
  have lo: "ucast (of_nat ?loc :: u16) = (of_nat (?loc mod 256) :: u8)"
    by (simp only: ucast_of_nat_unat u of_nat_u8_mod)
  have "mon_ports ?s = mon_ports s"
    by (simp add: put_char_def wrap_line_def scroll_def Let_def)
  moreover have "video_memory ?s k = video_memory s k"
    using assms by (simp add: scroll_cells wrap_line_def put_char_cells)
  ultimately show ?thesis
    using hi lo by (simp add: monitor_put_def move_cursor_def Let_def outb_def del: of_nat_add of_nat_mult)
qed

theorem monitor_put_bounds_witness:
  "video_memory (monitor_put no_cells 65) 2001 = 0"
  using monitor_put_bounds [of no_cells 2001 65] by (simp add: no_cells_def on_screen_def)

end
