(* ===== verification/Descriptor_Tables.thy ===== *)
theory Descriptor_Tables
  imports Common_C
begin

text \<open>
  \<open>src/src/descriptor_tables.c\<close>: the segment table, the interrupt table and the programming of the
  two interrupt controllers. The addresses of the tables and of the assembly stubs \<open>isr0\<close> to
  \<open>isr31\<close> and \<open>irq0\<close> to \<open>irq15\<close> are fixed by the linker and are parameters; \<open>gdt_w\<close> and \<open>idt_w\<close>
  load a table register with the address of a pointer record, which the state keeps.
\<close>

section \<open>Entries and their encoding\<close>

record gdt_entry =
  limit_low :: u16
  base_low :: u16
  base_middle :: u8
  access :: u8
  granularity :: u8
  base_high :: u8

record idt_entry =
  idt_base_low :: u16
  seg_selector :: u16
  always0 :: u8
  idt_flags :: u8
  idt_base_high :: u16

record table_ptr =
  ptr_limit :: u16
  ptr_base :: u32

record tables =
  GDT_ENTRY :: "gdt_entry list"
  GDT_PTR :: table_ptr
  IDT_ENTRY :: "idt_entry list"
  IDT_PTR :: table_ptr
  gdtr :: u32
  idtr :: u32
  dt_ports :: ports

definition zero_gdt :: gdt_entry where
  "zero_gdt = \<lparr>limit_low = 0, base_low = 0, base_middle = 0, access = 0, granularity = 0, base_high = 0\<rparr>"

definition zero_idt :: idt_entry where
  "zero_idt = \<lparr>idt_base_low = 0, seg_selector = 0, always0 = 0, idt_flags = 0, idt_base_high = 0\<rparr>"

definition make_gdt :: "u32 \<Rightarrow> u32 \<Rightarrow> u8 \<Rightarrow> u8 \<Rightarrow> gdt_entry" where
  "make_gdt base limit acc gran =
     \<lparr>limit_low = ucast (limit AND 0xFFFF),
      base_low = ucast (base AND 0xFFFF),
      base_middle = ucast (drop_bit 16 base AND 0xFFFF),
      access = acc,
      granularity = ucast (drop_bit 16 limit AND 0x0F) OR (gran AND 0xF0),
      base_high = ucast (drop_bit 24 base AND 0xFF)\<rparr>"

definition gdt_set :: "nat \<Rightarrow> u32 \<Rightarrow> u32 \<Rightarrow> u8 \<Rightarrow> u8 \<Rightarrow> tables \<Rightarrow> tables" where
  "gdt_set index base limit acc gran s =
     s\<lparr>GDT_ENTRY := (GDT_ENTRY s)[index := make_gdt base limit acc gran]\<rparr>"

definition make_idt :: "u32 \<Rightarrow> u16 \<Rightarrow> u8 \<Rightarrow> idt_entry" where
  "make_idt base sel flags =
     \<lparr>idt_base_low = ucast (base AND 0xFFFF), seg_selector = sel, always0 = 0, idt_flags = flags,
      idt_base_high = ucast (drop_bit 16 base AND 0xFFFF)\<rparr>"

definition idt_set :: "nat \<Rightarrow> u32 \<Rightarrow> u16 \<Rightarrow> u8 \<Rightarrow> tables \<Rightarrow> tables" where
  "idt_set index base sel flags s =
     s\<lparr>IDT_ENTRY := (IDT_ENTRY s)[index := make_idt base sel flags]\<rparr>"

definition gdt_w :: "u32 \<Rightarrow> tables \<Rightarrow> tables" where
  "gdt_w p s = s\<lparr>gdtr := p\<rparr>"

definition idt_w :: "u32 \<Rightarrow> tables \<Rightarrow> tables" where
  "idt_w p s = s\<lparr>idtr := p\<rparr>"

section \<open>Initialisation\<close>

text \<open>\<open>gdt_addr\<close>, \<open>gdt_ptr_addr\<close> and their kin are the linker's addresses of the four tables.\<close>

definition gdt_init :: "u32 \<Rightarrow> u32 \<Rightarrow> tables \<Rightarrow> tables" where
  "gdt_init gdt_addr gdt_ptr_addr s =
     (let s = s\<lparr>GDT_PTR := \<lparr>ptr_limit = 8 * 5 - 1, ptr_base = gdt_addr\<rparr>\<rparr>;
          s = gdt_set 0 0 0 0 0 s;
          s = gdt_set 1 0 0xFFFFFFFF 0x9A 0xCF s;
          s = gdt_set 2 0 0xFFFFFFFF 0x92 0xCF s;
          s = gdt_set 3 0 0xFFFFFFFF 0xFA 0xCF s;
          s = gdt_set 4 0 0xFFFFFFFF 0xF2 0xCF s
      in gdt_w gdt_ptr_addr s)"

text \<open>The initialisation words of the two 8259A controllers, in the order they are written.\<close>

definition pic_words :: "(u16 \<times> u8) list" where
  "pic_words = [(0x20, 0x11), (0xA0, 0x11), (0x21, 0x20), (0xA1, 0x28), (0x21, 0x04),
                (0xA1, 0x02), (0x21, 0x01), (0xA1, 0x01), (0x21, 0x0), (0xA1, 0x0)]"

definition pic_init :: "tables \<Rightarrow> tables" where
  "pic_init s = s\<lparr>dt_ports := foldl (\<lambda>io (port, value). outb io port value) (dt_ports s) pic_words\<rparr>"

text \<open>The 48 calls \<open>idt_set(k, stub, 0x08, 0x8E)\<close>, in order: the exceptions, then the IRQs.\<close>

definition gate_stubs :: "(nat \<Rightarrow> u32) \<Rightarrow> (nat \<Rightarrow> u32) \<Rightarrow> (nat \<times> u32) list" where
  "gate_stubs isr irq = map (\<lambda>k. (k, isr k)) [0..<32] @ map (\<lambda>k. (32 + k, irq k)) [0..<16]"

fun set_gates :: "(nat \<times> u32) list \<Rightarrow> tables \<Rightarrow> tables" where
  "set_gates [] s = s"
| "set_gates ((k, stub) # gs) s = set_gates gs (idt_set k stub 0x08 0x8E s)"

definition idt_init :: "u32 \<Rightarrow> u32 \<Rightarrow> (nat \<Rightarrow> u32) \<Rightarrow> (nat \<Rightarrow> u32) \<Rightarrow> tables \<Rightarrow> tables" where
  "idt_init idt_addr idt_ptr_addr isr irq s =
     (let s = s\<lparr>IDT_PTR := \<lparr>ptr_limit = 8 * 256 - 1, ptr_base = idt_addr\<rparr>\<rparr>;
          s = s\<lparr>IDT_ENTRY := replicate 256 zero_idt\<rparr>;
          s = pic_init s;
          s = set_gates (gate_stubs isr irq) s
      in idt_w idt_ptr_addr s)"

definition init_descriptor_tables ::
  "u32 \<Rightarrow> u32 \<Rightarrow> u32 \<Rightarrow> u32 \<Rightarrow> (nat \<Rightarrow> u32) \<Rightarrow> (nat \<Rightarrow> u32) \<Rightarrow> tables \<Rightarrow> tables" where
  "init_descriptor_tables gdt_addr gdt_ptr_addr idt_addr idt_ptr_addr isr irq s =
     idt_init idt_addr idt_ptr_addr isr irq (gdt_init gdt_addr gdt_ptr_addr s)"

section \<open>What the processor reads from an entry\<close>

definition segment_base :: "gdt_entry \<Rightarrow> u32" where
  "segment_base e = ucast (base_low e) OR push_bit 16 (ucast (base_middle e)) OR push_bit 24 (ucast (base_high e))"

definition segment_limit :: "gdt_entry \<Rightarrow> u32" where
  "segment_limit e = ucast (limit_low e) OR push_bit 16 (ucast (granularity e AND 0x0F))"

definition gate_offset :: "idt_entry \<Rightarrow> u32" where
  "gate_offset e = ucast (idt_base_low e) OR push_bit 16 (ucast (idt_base_high e))"

lemma gate_offset_make: "gate_offset (make_idt base sel flags) = base"
proof (rule bit_word_eqI)
  fix n :: nat assume n: "n < LENGTH(32)"
  consider "n < 16" | "16 \<le> n" by linarith
  then show "bit (gate_offset (make_idt base sel flags)) n = bit base n"
    using n by cases (auto simp: gate_offset_def make_idt_def bit_simps bit_masks)
qed

lemma segment_base_make: "segment_base (make_gdt base limit acc gran) = base"
proof (rule bit_word_eqI)
  fix n :: nat assume n: "n < LENGTH(32)"
  consider "n < 16" | "16 \<le> n" "n < 24" | "24 \<le> n" by linarith
  then show "bit (segment_base (make_gdt base limit acc gran)) n = bit base n"
    using n by cases (auto simp: segment_base_def make_gdt_def bit_simps bit_masks)
qed


lemma segment_limit_make: "segment_limit (make_gdt base limit acc gran) = take_bit 20 limit"
proof (rule bit_word_eqI)
  fix n :: nat assume n: "n < LENGTH(32)"
  consider "n < 16" | "16 \<le> n" "n < 20" | "20 \<le> n" by linarith
  then show "bit (segment_limit (make_gdt base limit acc gran)) n = bit (take_bit 20 limit) n"
    using n by cases (auto simp: segment_limit_def make_gdt_def bit_simps bit_masks)
qed

lemma granularity_make: "granularity (make_gdt base limit acc gran) AND 0xF0 = gran AND 0xF0"
  by (rule bit_word_eqI) (auto simp: make_gdt_def bit_simps bit_masks)

text \<open>The tables after the calls of the initialisation.\<close>

lemma set_gates_tables:
  "length (IDT_ENTRY (set_gates gs s)) = length (IDT_ENTRY s)"
  "GDT_ENTRY (set_gates gs s) = GDT_ENTRY s"
  "GDT_PTR (set_gates gs s) = GDT_PTR s"
  "IDT_PTR (set_gates gs s) = IDT_PTR s"
  "gdtr (set_gates gs s) = gdtr s"
  "dt_ports (set_gates gs s) = dt_ports s"
  by (induction gs s rule: set_gates.induct) (simp_all add: idt_set_def)

lemma set_gates_entry:
  "distinct (map fst gs) \<Longrightarrow> k < length (IDT_ENTRY s) \<Longrightarrow>
    IDT_ENTRY (set_gates gs s) ! k =
      (case map_of gs k of Some stub \<Rightarrow> make_idt stub 0x08 0x8E | None \<Rightarrow> IDT_ENTRY s ! k)"
proof (induction gs s rule: set_gates.induct)
  case (2 j stub gs s)
  have "map_of gs j = None" using 2(2) by (auto simp: map_of_eq_None_iff)
  with 2 show ?case
    by (auto simp: idt_set_def nth_list_update split: option.splits)
qed simp

lemma gate_stubs_distinct: "distinct (map fst (gate_stubs isr irq))"
proof -
  have "map fst (gate_stubs isr irq) = [0..<32] @ map ((+) 32) [0..<16]"
    by (simp add: gate_stubs_def comp_def)
  then show ?thesis by (auto simp: distinct_map)
qed

lemma gate_stubs_lookup:
  "map_of (gate_stubs isr irq) k =
    (if k < 32 then Some (isr k) else if k < 48 then Some (irq (k - 32)) else None)"
proof -
  have "k < 32 \<Longrightarrow> (k, isr k) \<in> set (gate_stubs isr irq)"
    by (simp add: gate_stubs_def image_iff)
  moreover have "32 \<le> k \<Longrightarrow> k < 48 \<Longrightarrow> (k, irq (k - 32)) \<in> set (gate_stubs isr irq)"
    unfolding gate_stubs_def by (auto simp: image_iff intro!: bexI [of _ "k - 32"])
  moreover have "48 \<le> k \<Longrightarrow> k \<notin> fst ` set (gate_stubs isr irq)"
    by (auto simp: gate_stubs_def)
  ultimately show ?thesis
    using gate_stubs_distinct [of isr irq] by (auto simp: map_of_eq_None_iff)
qed

lemma pic_init_frame:
  "IDT_ENTRY (pic_init s) = IDT_ENTRY s" "GDT_ENTRY (pic_init s) = GDT_ENTRY s"
  "GDT_PTR (pic_init s) = GDT_PTR s" "IDT_PTR (pic_init s) = IDT_PTR s" "gdtr (pic_init s) = gdtr s"
  by (simp_all add: pic_init_def)

lemma pic_init_ports: "dt_ports (pic_init s) = dt_ports s @ pic_words"
  by (simp add: pic_init_def pic_words_def outb_def)

lemmas init_unfold = init_descriptor_tables_def idt_init_def gdt_init_def gdt_w_def idt_w_def Let_def

section \<open>Properties\<close>

text \<open>
  The encodings lose nothing the processor needs: a segment descriptor set from any
  base and limit decodes to that base and to the low 20 bits of the limit, with the access byte and
  the upper four granularity flags as given, and a gate decodes to the handler address.
\<close>

theorem descriptor_roundtrip:
  "segment_base (make_gdt base limit acc gran) = base
   \<and> segment_limit (make_gdt base limit acc gran) = take_bit 20 limit
   \<and> access (make_gdt base limit acc gran) = acc
   \<and> granularity (make_gdt base limit acc gran) AND 0xF0 = gran AND 0xF0
   \<and> gate_offset (make_idt base sel flags) = base
   \<and> seg_selector (make_idt base sel flags) = sel \<and> idt_flags (make_idt base sel flags) = flags"
proof -
  have "access (make_gdt base limit acc gran) = acc" "seg_selector (make_idt base sel flags) = sel"
    "idt_flags (make_idt base sel flags) = flags"
    by (simp_all add: make_gdt_def make_idt_def)
  then show ?thesis
    by (simp add: segment_base_make segment_limit_make granularity_make gate_offset_make)
qed

text \<open>
  Property C24. After \<open>init_descriptor_tables\<close>, whatever the tables held before, as the processor reads them: the gates of
  the vectors 0 to 31 lead to \<open>isr 0\<close> to \<open>isr 31\<close> and those of 32 to 47, for the sixteen lines, to \<open>irq 0\<close> to \<open>irq 15\<close>,
  each through selector 8 as a present 32-bit interrupt gate; the vectors from 48 on are empty; the null descriptor
  is zero and the code and data segments of both privilege levels are flat (base 0, limit \<open>0xFFFFF\<close> in units of pages,
  32-bit); the two pointer records and table registers describe exactly these tables.
\<close>

theorem init_descriptor_tables_correct:
  fixes s :: tables
  assumes "length (GDT_ENTRY s) = 5" and "k < 256" and "j < 4"
    and s'_def: "s' = init_descriptor_tables gdt_addr gdt_ptr idt_addr idt_ptr isr irq s"
  shows "length (IDT_ENTRY s') = 256 \<and> length (GDT_ENTRY s') = 5
    \<and> (let g = IDT_ENTRY s' ! k in
        if k < 48 then gate_offset g = (if k < 32 then isr k else irq (k - 32)) \<and> seg_selector g = 8 \<and> always0 g = 0 \<and> idt_flags g = 0x8E
        else g = \<lparr>idt_base_low = 0, seg_selector = 0, always0 = 0, idt_flags = 0, idt_base_high = 0\<rparr>)
    \<and> GDT_ENTRY s' ! 0 = \<lparr>limit_low = 0, base_low = 0, base_middle = 0, access = 0, granularity = 0, base_high = 0\<rparr>
    \<and> (let d = GDT_ENTRY s' ! (j + 1) in
        segment_base d = 0 \<and> segment_limit d = 0xFFFFF \<and> access d = [0x9A, 0x92, 0xFA, 0xF2] ! j \<and> granularity d = 0xCF)
    \<and> GDT_PTR s' = \<lparr>ptr_limit = 39, ptr_base = gdt_addr\<rparr> \<and> gdtr s' = gdt_ptr
    \<and> IDT_PTR s' = \<lparr>ptr_limit = 2047, ptr_base = idt_addr\<rparr> \<and> idtr s' = idt_ptr"
proof -
  obtain a b c d e where g: "GDT_ENTRY s = [a, b, c, d, e]"
    using assms(1) by (auto simp: length_Suc_conv eval_nat_numeral)
  have z: "make_gdt 0 0 0 0 = zero_gdt" by (simp add: make_gdt_def zero_gdt_def)
  have gs: "GDT_ENTRY s' = zero_gdt # map (\<lambda>acc. make_gdt 0 0xFFFFFFFF acc 0xCF) [0x9A, 0x92, 0xFA, 0xF2]"
    by (simp add: s'_def init_unfold set_gates_tables pic_init_frame gdt_set_def g z)
  then have j: "GDT_ENTRY s' ! (j + 1) = make_gdt 0 0xFFFFFFFF ([0x9A, 0x92, 0xFA, 0xF2] ! j) 0xCF"
    using assms(3) by (simp del: list.map)
  have t: "take_bit 20 (0xFFFFFFFF :: u32) = 0xFFFFF" by simp
  have flat: "granularity (make_gdt 0 0xFFFFFFFF acc 0xCF) = 0xCF" "access (make_gdt 0 0xFFFFFFFF acc 0xCF) = acc" for acc
    by (simp_all add: make_gdt_def)
  have "IDT_ENTRY s' ! k = (if k < 32 then make_idt (isr k) 8 0x8E
      else if k < 48 then make_idt (irq (k - 32)) 8 0x8E else zero_idt)"
    using assms(2)
    by (simp add: s'_def init_unfold set_gates_entry gate_stubs_distinct gate_stubs_lookup pic_init_frame)
  moreover have "seg_selector (make_idt b sel flags) = sel" "always0 (make_idt b sel flags) = 0" "idt_flags (make_idt b sel flags) = flags" for b sel flags
    by (simp_all add: make_idt_def)
  moreover have "length (IDT_ENTRY s') = 256"
    by (simp add: s'_def init_unfold set_gates_tables pic_init_frame)
  moreover have "GDT_PTR s' = \<lparr>ptr_limit = 39, ptr_base = gdt_addr\<rparr> \<and> gdtr s' = gdt_ptr
    \<and> IDT_PTR s' = \<lparr>ptr_limit = 2047, ptr_base = idt_addr\<rparr> \<and> idtr s' = idt_ptr"
    by (simp add: s'_def init_unfold set_gates_tables pic_init_frame gdt_set_def)
  ultimately show ?thesis
    using gs j by (simp add: Let_def segment_base_make segment_limit_make gate_offset_make flat t zero_idt_def zero_gdt_def)
qed

text \<open>
  The controllers are programmed to deliver line \<open>l\<close> at the vector whose gate leads to
  the stub of line \<open>l\<close>: the second word written to each data port is its vector base, the master's
  lines 0 to 7 arrive at the gates of \<open>irq 0\<close> to \<open>irq 7\<close> and the slave's at those of \<open>irq 8\<close> to
  \<open>irq 15\<close>, and the last words leave every line unmasked.
\<close>

definition data_words :: "u16 \<Rightarrow> ports \<Rightarrow> u8 list" where
  "data_words port io = map snd (filter (\<lambda>w. fst w = port) io)"

theorem pic_vectors_match_gates:
  assumes "dt_ports s = []" and "l < 8"
    and s'_def: "s' = idt_init idt_addr idt_ptr isr irq s"
  shows "gate_offset (IDT_ENTRY s' ! (unat (data_words 0x21 (dt_ports s') ! 0) + l)) = irq l
    \<and> gate_offset (IDT_ENTRY s' ! (unat (data_words 0xA1 (dt_ports s') ! 0) + l)) = irq (8 + l)
    \<and> last (data_words 0x21 (dt_ports s')) = 0 \<and> last (data_words 0xA1 (dt_ports s')) = 0"
proof -
  have io: "dt_ports s' = pic_words"
    by (simp add: s'_def init_unfold set_gates_tables pic_init_ports assms(1))
  have gate: "32 \<le> k \<Longrightarrow> k < 48 \<Longrightarrow> gate_offset (IDT_ENTRY s' ! k) = irq (k - 32)" for k
    by (simp add: s'_def init_unfold set_gates_entry gate_stubs_distinct gate_stubs_lookup
        pic_init_frame gate_offset_make)
  have w: "data_words 0x21 pic_words = [0x20, 0x04, 0x01, 0]" "data_words 0xA1 pic_words = [0x28, 0x02, 0x01, 0]"
    by (simp_all add: data_words_def pic_words_def)
  show ?thesis
    using gate [of "32 + l"] gate [of "40 + l"] assms(2) by (simp add: io w)
qed

definition blank_tables :: tables where
  "blank_tables = \<lparr>GDT_ENTRY = replicate 5 zero_gdt, GDT_PTR = \<lparr>ptr_limit = 0, ptr_base = 0\<rparr>,
     IDT_ENTRY = [], IDT_PTR = \<lparr>ptr_limit = 0, ptr_base = 0\<rparr>, gdtr = 0, idtr = 0, dt_ports = []\<rparr>"

theorem init_descriptor_tables_correct_witness:
  "gate_offset (IDT_ENTRY (init_descriptor_tables 0 40 48 60 (\<lambda>k. of_nat k) (\<lambda>k. 0x89ABCD00 + of_nat k) blank_tables) ! 33) = 0x89ABCD01
   \<and> granularity (GDT_ENTRY (init_descriptor_tables 0 40 48 60 (\<lambda>k. of_nat k) (\<lambda>k. 0x89ABCD00 + of_nat k) blank_tables) ! 1) = 0xCF"
  using init_descriptor_tables_correct [OF _ _ _ refl, where s = blank_tables and k = 33 and j = 0
    and isr = "\<lambda>k. of_nat k" and irq = "\<lambda>k. 0x89ABCD00 + of_nat k"
    and gdt_addr = 0 and gdt_ptr = 40 and idt_addr = 48 and idt_ptr = 60]
  by (simp add: blank_tables_def Let_def)

theorem pic_vectors_match_gates_witness:
  "last (data_words 0x21 (dt_ports (idt_init 48 60 (\<lambda>k. 0) (\<lambda>k. of_nat k) blank_tables))) = 0"
  using pic_vectors_match_gates [OF _ _ refl, where s = blank_tables and l = 0
    and idt_addr = 48 and idt_ptr = 60 and isr = "\<lambda>k. 0" and irq = "\<lambda>k. of_nat k"]
  by (simp add: blank_tables_def)

end
