(* ===== verification/Interrupts.thy ===== *)
theory Interrupts
  imports Common_C
begin

text \<open>
  \<open>src/src/isr.c\<close>, \<open>isr.h\<close> and the set-up of \<open>src/src/timer.c\<close>: the table of handlers, the two
  entry points the assembly stubs call, and the programming of the interval timer. The kernel
  registers three handlers; a function pointer is one of their names, and what running one does to
  the rest of the kernel (the state \<open>'s\<close>) is the argument \<open>run\<close>.
\<close>

section \<open>State\<close>

record registers =
  reg_ds :: u32
  reg_edi :: u32
  reg_esi :: u32
  reg_ebp :: u32
  reg_esp :: u32
  reg_ebx :: u32
  reg_edx :: u32
  reg_ecx :: u32
  reg_eax :: u32
  int_no :: u32
  err_code :: u32
  reg_eip :: u32
  reg_cs :: u32
  reg_eflags :: u32
  reg_useresp :: u32
  reg_ss :: u32

datatype handler = Timer_callback | Keyboard_handler | Page_fault

text \<open>\<open>unhandled\<close> lists the vectors of the lines \<open>unhandled interrupt\<close> that were printed.\<close>

record isr_state =
  interrupt_handler :: "u32 \<Rightarrow> handler option"
  isr_ports :: ports
  unhandled :: "u32 list"

definition IRQ0 :: u32 where "IRQ0 = 32"
definition IRQ1 :: u32 where "IRQ1 = 33"

section \<open>Registration and dispatch\<close>

definition register_interrupt_handler :: "u32 \<Rightarrow> handler \<Rightarrow> isr_state \<Rightarrow> isr_state" where
  "register_interrupt_handler n h s = s\<lparr>interrupt_handler := (interrupt_handler s)(n := Some h)\<rparr>"

definition isr_handler ::
  "(handler \<Rightarrow> registers \<Rightarrow> isr_state \<times> 's \<Rightarrow> isr_state \<times> 's) \<Rightarrow> registers \<Rightarrow> isr_state \<times> 's \<Rightarrow> isr_state \<times> 's" where
  "isr_handler run reg st =
     (case interrupt_handler (fst st) (int_no reg) of
        Some h \<Rightarrow> run h reg st
      | None \<Rightarrow> ((fst st)\<lparr>unhandled := unhandled (fst st) @ [int_no reg]\<rparr>, snd st))"

definition irq_handler ::
  "(handler \<Rightarrow> registers \<Rightarrow> isr_state \<times> 's \<Rightarrow> isr_state \<times> 's) \<Rightarrow> registers \<Rightarrow> isr_state \<times> 's \<Rightarrow> isr_state \<times> 's" where
  "irq_handler run reg st =
     (let s = fst st;
          s = (if 39 < int_no reg then s\<lparr>isr_ports := outb (isr_ports s) 0xA0 0x20\<rparr> else s);
          s = s\<lparr>isr_ports := outb (isr_ports s) 0x20 0x20\<rparr>
      in case interrupt_handler s (int_no reg) of
           Some h \<Rightarrow> run h reg (s, snd st)
         | None \<Rightarrow> (s, snd st))"

section \<open>The interval timer\<close>

definition init_timer :: "u32 \<Rightarrow> isr_state \<Rightarrow> fault + isr_state" where
  "init_timer f s =
     (let s = register_interrupt_handler IRQ0 Timer_callback s in
      if f = 0 then Inl Divide_error
      else
        let divisor = 1193180 div f;
            s = s\<lparr>isr_ports := outb (isr_ports s) 0x43 0x36\<rparr>;
            low = (ucast (divisor AND 0xFF) :: u8);
            high = (ucast (drop_bit 8 divisor AND 0xFF) :: u8);
            s = s\<lparr>isr_ports := outb (isr_ports s) 0x40 low\<rparr>;
            s = s\<lparr>isr_ports := outb (isr_ports s) 0x40 high\<rparr>
        in Inr s)"

section \<open>Properties\<close>

lemma registered_lookup [simp]:
  "interrupt_handler (register_interrupt_handler n h s) k = (if k = n then Some h else interrupt_handler s k)"
  by (simp add: register_interrupt_handler_def)

lemma register_frame [simp]:
  "isr_ports (register_interrupt_handler n h s) = isr_ports s"
  "unhandled (register_interrupt_handler n h s) = unhandled s"
  by (simp_all add: register_interrupt_handler_def)

text \<open>
  A hardware interrupt is acknowledged before its handler runs, at the master
  controller always and at the slave first exactly for the vectors above 39, and then the handler
  registered last for its vector runs, on the state with the acknowledgements written; handlers of
  other vectors are not called.
\<close>

theorem irq_acknowledge_then_dispatch:
  "irq_handler run reg (register_interrupt_handler n h s, k) =
     (let eoi = (if 39 < int_no reg then [(0xA0, 0x20)] else []) @ [(0x20, 0x20)];
          s' = (register_interrupt_handler n h s)\<lparr>isr_ports := isr_ports s @ eoi\<rparr>
      in if int_no reg = n then run h reg (s', k)
         else case interrupt_handler s (int_no reg) of Some h' \<Rightarrow> run h' reg (s', k) | None \<Rightarrow> (s', k))"
  by (auto simp: irq_handler_def Let_def outb_def split: option.split)

text \<open>
  An exception or software interrupt runs the handler registered for its vector and
  sends no acknowledgement of its own; with none registered it only reports the vector.
\<close>

theorem isr_dispatch:
  "(interrupt_handler s (int_no reg) = Some h \<longrightarrow> isr_handler run reg (s, k) = run h reg (s, k))
   \<and> (interrupt_handler s (int_no reg) = None \<longrightarrow>
        isr_handler run reg (s, k) = (s\<lparr>unhandled := unhandled s @ [int_no reg]\<rparr>, k))"
  by (simp add: isr_handler_def)

definition quiet_registers :: "u32 \<Rightarrow> registers" where
  "quiet_registers n = \<lparr>reg_ds = 16, reg_edi = 0, reg_esi = 0, reg_ebp = 0, reg_esp = 0, reg_ebx = 0,
     reg_edx = 0, reg_ecx = 0, reg_eax = 0, int_no = n, err_code = 0, reg_eip = 0, reg_cs = 8,
     reg_eflags = 0, reg_useresp = 0, reg_ss = 16\<rparr>"

theorem isr_dispatch_witness:
  "isr_handler (\<lambda>h reg (s, k). (s, k + int_no reg)) (quiet_registers 14)
     (\<lparr>interrupt_handler = [14 \<mapsto> Page_fault], isr_ports = [], unhandled = []\<rparr>, 1)
   = (\<lparr>interrupt_handler = [14 \<mapsto> Page_fault], isr_ports = [], unhandled = []\<rparr>, 15)"
  using isr_dispatch [of "\<lparr>interrupt_handler = [14 \<mapsto> Page_fault], isr_ports = [], unhandled = []\<rparr>"
      "quiet_registers 14" Page_fault "\<lambda>h reg (s, k). (s, k + int_no reg)" 1]
  by (simp add: quiet_registers_def)

text \<open>
  For a frequency of at least 19 Hz the three bytes \<open>init_timer\<close> writes select
  rate-generator mode and the divisor \<open>1193180 div f\<close>, low byte first, and from then on vector 32
  runs the timer callback; a frequency of zero divides by zero.
\<close>

theorem init_timer_programs_divisor:
  "init_timer 0 s = Inl Divide_error
   \<and> (19 \<le> f \<longrightarrow> (\<exists>s' low high. init_timer f s = Inr s'
        \<and> isr_ports s' = isr_ports s @ [(0x43, 0x36), (0x40, low), (0x40, high)]
        \<and> unat low + 256 * unat high = 1193180 div unat f
        \<and> interrupt_handler s' IRQ0 = Some Timer_callback))"
proof -
  have "\<exists>s' low high. init_timer f s = Inr s'
      \<and> isr_ports s' = isr_ports s @ [(0x43, 0x36), (0x40, low), (0x40, high)]
      \<and> unat low + 256 * unat high = 1193180 div unat f
      \<and> interrupt_handler s' IRQ0 = Some Timer_callback" if "19 \<le> f"
  proof -
    let ?d = "1193180 div f" and ?n = "1193180 div unat f"
    have f: "19 \<le> unat f" using that by (simp add: word_le_nat_alt)
    have d: "unat ?d = ?n" by (simp add: unat_div)
    have "?n \<le> 1193180 div 19" using f by (intro div_le_mono2) simp_all
    then have n: "?n < 65536" by simp
    have m: "unat (x AND 0xFF) = unat x mod 256" for x :: u32
      using unat_and_mask [of x 8] by (simp add: mask_eq_exp_minus_1)
    have s: "unat (drop_bit 8 ?d) = ?n div 256"
      using unat_drop_bit_div [of 8 ?d] d by simp
    have b: "unat (of_nat k :: u8) = k" if "k < 256" for k
      using that by (simp only: unat_of_nat take_bit_eq_mod) simp
    have low: "unat (ucast (?d AND 0xFF) :: u8) = ?n mod 256"
      by (simp only: ucast_of_nat_unat m d) (simp add: b)
    have "unat (ucast (drop_bit 8 ?d AND 0xFF) :: u8) = ?n div 256 mod 256"
      by (simp only: ucast_of_nat_unat m s) (simp add: b)
    then have high: "unat (ucast (drop_bit 8 ?d AND 0xFF) :: u8) = ?n div 256"
      using n by simp
    have "unat (ucast (?d AND 0xFF) :: u8) + 256 * unat (ucast (drop_bit 8 ?d AND 0xFF) :: u8) = ?n"
      unfolding low high by simp
    moreover have "f \<noteq> 0" using f by auto
    ultimately show ?thesis
      by (simp add: init_timer_def Let_def outb_def)
  qed
  then show ?thesis by (simp add: init_timer_def Let_def)
qed

theorem init_timer_programs_divisor_witness:
  "\<exists>s' low high. init_timer 100 \<lparr>interrupt_handler = Map.empty, isr_ports = [], unhandled = []\<rparr> = Inr s'
    \<and> isr_ports s' = [(0x43, 0x36), (0x40, low), (0x40, high)] \<and> unat low + 256 * unat high = 11931"
  using init_timer_programs_divisor [of "\<lparr>interrupt_handler = Map.empty, isr_ports = [], unhandled = []\<rparr>" 100]
  by fastforce

end
