(* ===== verification/Keyboard.thy ===== *)
theory Keyboard
  imports Interrupts
begin

text \<open>
  \<open>src/src/keyboard.c\<close>: the two key maps, the interrupt handler that turns scan codes into
  characters, the ring buffer between the handler and \<open>keyboard_getchar\<close>, and \<open>scanf\<close>, which polls
  it. The state starts where \<open>init_keyboard_driver\<close> leaves it; before that \<open>current_layout\<close> is NULL
  and no handler is registered.
\<close>

section \<open>Key maps\<close>

record keymap =
  scancodes :: "u8 list"
  shift_scancodes :: "u8 list"
  control_map :: "u8 list"
  controls :: u8

text \<open>An array initialiser names the first entries; C fills the rest of the 128 with zeros.\<close>

definition pad128 :: "u8 list \<Rightarrow> u8 list" where
  "pad128 xs = xs @ replicate (128 - length xs) 0"

definition keys_after_slash :: "u8 list" where
  "keys_after_slash = [0, 42, 0, 32, 0] @ replicate 10 0 @ [0, 0, 0, 0, 0, 45, 0, 0, 0, 43]"

definition us_keys :: "u8 list" where
  "us_keys = pad128 ([0, 27] @ ascii ''1234567890-='' @ [8, 9] @ ascii ''qwertyuiop[]'' @ [10, 0]
     @ ascii ''asdfghjkl;'' @ [39, 96, 0, 92] @ ascii ''zxcvbnm,./'' @ keys_after_slash)"

definition shifted_keys :: "u8 list" where
  "shifted_keys = pad128 ([0, 27] @ ascii ''!@#$%^&*()_+'' @ [8, 9] @ ascii ''QWERTYUIOP{}'' @ [10, 0]
     @ ascii ''ASDFGHJKL:'' @ [34, 126, 0] @ ascii ''|ZXCVBNM<>?'' @ keys_after_slash)"

definition gb_keys :: "u8 list" where
  "gb_keys = pad128 ([0, 27] @ ascii ''1234567890-='' @ [8, 9] @ ascii ''qwertyuiop[]'' @ [10, 0]
     @ ascii ''asdfghjkl;'' @ [39, 35, 0, 92] @ ascii ''zxcvbnm,./'' @ keys_after_slash)"

definition control_keys :: "u8 list" where
  "control_keys = [29, 56, 0, 42, 54, 58, 70, 69]"

definition us :: keymap where
  "us = \<lparr>scancodes = us_keys, shift_scancodes = shifted_keys, control_map = control_keys, controls = 0\<rparr>"

definition gb :: keymap where
  "gb = \<lparr>scancodes = gb_keys, shift_scancodes = shifted_keys, control_map = control_keys, controls = 0\<rparr>"

section \<open>State and operations\<close>

datatype layout = US | GB

record keyboard =
  us_map :: keymap
  gb_map :: keymap
  current_layout :: layout
  keyboard_buffer_start :: u32
  keyboard_buffer_end :: u32
  keyboard_buffer :: "u32 \<Rightarrow> u8"

definition layout_map :: "keyboard \<Rightarrow> keymap" where
  "layout_map s = (case current_layout s of US \<Rightarrow> us_map s | GB \<Rightarrow> gb_map s)"

definition set_controls :: "u8 \<Rightarrow> keyboard \<Rightarrow> keyboard" where
  "set_controls c s = (case current_layout s of
      US \<Rightarrow> s\<lparr>us_map := (us_map s)\<lparr>controls := c\<rparr>\<rparr>
    | GB \<Rightarrow> s\<lparr>gb_map := (gb_map s)\<lparr>controls := c\<rparr>\<rparr>)"

definition switch_layout :: "layout \<Rightarrow> keyboard \<Rightarrow> keyboard" where
  "switch_layout l s = s\<lparr>current_layout := l\<rparr>"

definition init_keyboard_driver :: "isr_state \<times> keyboard \<Rightarrow> isr_state \<times> keyboard" where
  "init_keyboard_driver st =
     (register_interrupt_handler IRQ1 Keyboard_handler (fst st),
      (switch_layout GB (snd st))\<lparr>keyboard_buffer_start := 0, keyboard_buffer_end := 0\<rparr>)"

definition keyboard_getchar :: "keyboard \<Rightarrow> u8 \<times> keyboard" where
  "keyboard_getchar s =
     (if keyboard_buffer_start s \<noteq> keyboard_buffer_end s
      then (keyboard_buffer s (keyboard_buffer_start s),
            s\<lparr>keyboard_buffer_start := (keyboard_buffer_start s + 1) AND 255\<rparr>)
      else (0, s))"

text \<open>The two search loops: the first control key from \<open>i\<close> below \<open>n\<close> with the scan code.\<close>

function find_control :: "u8 list \<Rightarrow> u8 \<Rightarrow> nat \<Rightarrow> nat \<Rightarrow> nat option" where
  "find_control cm sc i n =
     (if i < n then if cm ! i = sc then Some i else find_control cm sc (i + 1) n else None)"
  by pat_completeness auto
termination by (relation "measure (\<lambda>(cm, sc, i, n). n - i)") auto

declare find_control.simps [simp del]

definition buffer_put :: "u8 \<Rightarrow> keyboard \<Rightarrow> keyboard" where
  "buffer_put c s =
     (if keyboard_buffer_end s \<noteq> keyboard_buffer_start s - 1
      then s\<lparr>keyboard_buffer := (keyboard_buffer s)(keyboard_buffer_end s := c),
             keyboard_buffer_end := (keyboard_buffer_end s + 1) AND 255\<rparr>
      else s)"

definition CONTROL :: u8 where "CONTROL = 0x1"
definition LSHIFT :: u8 where "LSHIFT = 0x8"
definition RSHIFT :: u8 where "RSHIFT = 0x10"
definition CAPSLOCK :: u8 where "CAPSLOCK = 0x20"
definition RELEASED_MASK :: u8 where "RELEASED_MASK = 0x80"

text \<open>\<open>scancode\<close> is the byte read from port \<open>0x60\<close>.\<close>

definition keyboard_handler :: "u8 \<Rightarrow> keyboard \<Rightarrow> keyboard" where
  "keyboard_handler scancode s =
     (let km = layout_map s in
      if scancode AND RELEASED_MASK \<noteq> 0 then
        (case find_control (control_map km) (scancode AND NOT RELEASED_MASK) 0 5 of
           Some i \<Rightarrow> set_controls (controls km AND NOT (push_bit i 1)) s
         | None \<Rightarrow> s)
      else
        (case find_control (control_map km) scancode 0 8 of
           Some i \<Rightarrow>
             (if controls km AND push_bit i 1 \<noteq> 0
              then set_controls (controls km AND NOT (push_bit i 1)) s
              else set_controls (controls km OR push_bit i 1) s)
         | None \<Rightarrow>
             (let codes = (if controls km AND (LSHIFT OR RSHIFT OR CAPSLOCK) \<noteq> 0
                             \<and> controls km AND CONTROL = 0
                           then shift_scancodes km else scancodes km)
              in buffer_put (codes ! unat scancode) s)))"

text \<open>
  \<open>scanf\<close> calls \<open>keyboard_getchar\<close> until it sees a newline, and between two calls any number of
  interrupts may come. \<open>polls\<close> lists, call by call, the scan codes whose interrupts are handled
  before the call; when the list ends the loop is still waiting (\<open>None\<close>). \<open>scanf_wait\<close> is the
  first loop, \<open>scanf_read\<close> the second; the second stores at \<open>t_v\<close> and echoes.
\<close>

definition poll :: "u8 list \<Rightarrow> keyboard \<Rightarrow> u8 \<times> keyboard" where
  "poll scs s = keyboard_getchar (fold keyboard_handler scs s)"

fun scanf_read :: "memory \<Rightarrow> keyboard \<Rightarrow> u32 \<Rightarrow> u8 \<Rightarrow> u8 list \<Rightarrow> u8 list list
    \<Rightarrow> (memory \<times> keyboard \<times> u8 list \<times> u8 list list) option" where
  "scanf_read m s t_v c out polls =
     (if c = 10 then Some (m, s, out, polls)
      else
        let (m, t_v, out) = (if c \<noteq> 0 then (m(t_v := c), t_v + 1, out @ [c]) else (m, t_v, out)) in
        case polls of [] \<Rightarrow> None
        | p # ps \<Rightarrow> (case poll p s of (c', s') \<Rightarrow> scanf_read m s' t_v c' out ps))"

fun scanf_wait :: "memory \<Rightarrow> keyboard \<Rightarrow> u32 \<Rightarrow> u8 list \<Rightarrow> u8 list list
    \<Rightarrow> (memory \<times> keyboard \<times> u8 list \<times> u8 list list) option" where
  "scanf_wait m s v out [] = None"
| "scanf_wait m s v out (p # ps) =
     (case poll p s of (c, s') \<Rightarrow> if c = 0 then scanf_wait m s' v out ps else scanf_read m s' v c out ps)"

text \<open>\<open>scanf\<close> prints the prompt first; its return value is always 1.\<close>

definition scanf :: "u8 list \<Rightarrow> memory \<Rightarrow> keyboard \<Rightarrow> u32 \<Rightarrow> u8 list list
    \<Rightarrow> (memory \<times> keyboard \<times> u8 list \<times> u8 list list) option" where
  "scanf tip m s v polls = scanf_wait m s v tip polls"


section \<open>The ring buffer is a bounded queue\<close>

definition ring_ok :: "keyboard \<Rightarrow> bool" where
  "ring_ok s \<longleftrightarrow> unat (keyboard_buffer_start s) < 256 \<and> unat (keyboard_buffer_end s) < 256"

definition ring_count :: "keyboard \<Rightarrow> nat" where
  "ring_count s = (unat (keyboard_buffer_end s) + 256 - unat (keyboard_buffer_start s)) mod 256"

definition ring_at :: "keyboard \<Rightarrow> nat \<Rightarrow> u8" where
  "ring_at s k = keyboard_buffer s (of_nat ((unat (keyboard_buffer_start s) + k) mod 256))"

definition ring_contents :: "keyboard \<Rightarrow> u8 list" where
  "ring_contents s = map (ring_at s) [0..<ring_count s]"

lemma unat_next: "unat ((x + 1) AND 255) = (unat x + 1) mod 256" if "unat x < 256" for x :: u32
proof -
  have "unat (x + 1) = unat x + 1" using that by (simp add: unat_word_ariths)
  then show ?thesis using unat_and_mask [of "x + 1" 8] by (simp add: mask_eq_exp_minus_1)
qed

lemma unat_prev: "unat (x - 1) = (if unat x = 0 then 4294967295 else unat x - 1)" for x :: u32
  by (auto simp: unat_minus_one unat_eq_zero unsigned_minus_1_eq_mask mask_eq_exp_minus_1)

lemma ring_count_mod:
  fixes a b :: nat
  assumes "a < 256" and "b < 256"
  shows "(b + 256 - a) mod 256 = (if a \<le> b then b - a else b + 256 - a)"
  using assms by (auto simp: mod_if)

lemma ring_full_iff:
  assumes "ring_ok s"
  shows "ring_count s = 255 \<longleftrightarrow>
    unat (keyboard_buffer_end s) = (if unat (keyboard_buffer_start s) = 0 then 255 else unat (keyboard_buffer_start s) - 1)"
  using assms by (auto simp: ring_ok_def ring_count_def ring_count_mod)

lemma ring_count_bound: "ring_ok s \<Longrightarrow> ring_count s \<le> 255"
  by (simp add: ring_count_def less_Suc_eq_le [symmetric])

lemma put_guard:
  assumes "ring_ok s"
  shows "keyboard_buffer_end s \<noteq> keyboard_buffer_start s - 1 \<longleftrightarrow>
    ring_count s \<noteq> 255 \<or> unat (keyboard_buffer_start s) = 0"
proof -
  have "keyboard_buffer_end s = keyboard_buffer_start s - 1 \<longleftrightarrow>
      unat (keyboard_buffer_end s) = unat (keyboard_buffer_start s - 1)"
    by (simp add: word_unat_eq_iff)
  then show ?thesis
    using assms ring_full_iff [OF assms] by (auto simp: unat_prev ring_ok_def)
qed

lemma buffer_put_ok: "ring_ok s \<Longrightarrow> ring_ok (buffer_put c s)"
  by (auto simp: ring_ok_def buffer_put_def unat_next)

lemma getchar_ok: "ring_ok s \<Longrightarrow> ring_ok (snd (keyboard_getchar s))"
  by (auto simp: ring_ok_def keyboard_getchar_def unat_next)

lemma buffer_put_contents:
  assumes "ring_ok s" and "length (ring_contents s) < 255"
  shows "ring_contents (buffer_put c s) = ring_contents s @ [c]"
proof -
  let ?a = "unat (keyboard_buffer_start s)" and ?b = "unat (keyboard_buffer_end s)"
  let ?s = "buffer_put c s"
  have ab: "?a < 256" "?b < 256" using assms(1) by (auto simp: ring_ok_def)
  have n: "ring_count s < 255" using assms(2) by (simp add: ring_contents_def)
  then have e: "keyboard_buffer_start ?s = keyboard_buffer_start s"
      "keyboard_buffer_end ?s = (keyboard_buffer_end s + 1) AND 255"
      "keyboard_buffer ?s = (keyboard_buffer s)(keyboard_buffer_end s := c)"
    using put_guard [OF assms(1)] by (auto simp: buffer_put_def)
  have cnt: "ring_count ?s = ring_count s + 1"
    using ab n by (auto simp: ring_count_def e unat_next ring_count_mod mod_if)
  have wrap: "j mod 256 = (if j < 256 then j else j - 256)" if "j < 512" for j :: nat
    using that by (auto simp: mod_if)
  have last: "(?a + ring_count s) mod 256 = ?b"
    using ab by (auto simp: ring_count_def ring_count_mod mod_if)
  have old: "(?a + k) mod 256 \<noteq> ?b" if "k < ring_count s" for k
    using ab that wrap [of "?a + k"] by (auto simp: ring_count_def ring_count_mod split: if_splits)
  have w: "(of_nat j :: u32) = keyboard_buffer_end s \<longleftrightarrow> j = ?b" if "j < 256" for j
    using that by (simp only: word_unat_eq_iff) (simp add: unat_of_nat_small)
  have "ring_at ?s k = ring_at s k" if "k < ring_count s" for k
    using old [OF that] w [of "(?a + k) mod 256"] by (simp add: ring_at_def e)
  moreover have "ring_at ?s (ring_count s) = c"
    using last w [of ?b] ab by (simp add: ring_at_def e)
  ultimately show ?thesis by (simp add: ring_contents_def cnt)
qed

lemma getchar_contents:
  assumes "ring_ok s" and "ring_contents s = c # cs"
  shows "fst (keyboard_getchar s) = c \<and> ring_contents (snd (keyboard_getchar s)) = cs"
proof -
  let ?a = "unat (keyboard_buffer_start s)" and ?b = "unat (keyboard_buffer_end s)"
  have ab: "?a < 256" "?b < 256" using assms(1) by (auto simp: ring_ok_def)
  obtain n where n: "ring_count s = Suc n"
    using assms(2) by (cases "ring_count s") (auto simp: ring_contents_def)
  have "[0..<Suc n] = 0 # map Suc [0..<n]"
    by (simp add: upt_conv_Cons map_Suc_upt del: upt_Suc)
  then have c: "c = ring_at s 0" and "cs = map (ring_at s) (map Suc [0..<n])"
    using assms(2) n by (auto simp: ring_contents_def simp del: upt_Suc map_map)
  then have cs: "cs = map (\<lambda>k. ring_at s (Suc k)) [0..<n]" by (simp add: o_def)
  have ne: "keyboard_buffer_start s \<noteq> keyboard_buffer_end s"
    using n by (auto simp: ring_count_def)
  let ?s = "snd (keyboard_getchar s)"
  have s: "?s = s\<lparr>keyboard_buffer_start := (keyboard_buffer_start s + 1) AND 255\<rparr>"
    using ne by (simp add: keyboard_getchar_def)
  have "ring_count ?s = n"
    using ab n by (auto simp: s ring_count_def unat_next ring_count_mod mod_if split: if_splits)
  moreover have "ring_at ?s k = ring_at s (Suc k)" for k
    using ab by (simp add: s ring_at_def unat_next mod_simps)
  moreover have "fst (keyboard_getchar s) = c"
    using ne ab c by (simp add: keyboard_getchar_def ring_at_def)
  ultimately show ?thesis by (simp add: ring_contents_def cs)
qed

lemma getchar_empty: "ring_ok s \<Longrightarrow> ring_contents s = [] \<Longrightarrow> keyboard_getchar s = (0, s)"
proof -
  assume "ring_ok s" "ring_contents s = []"
  then have "unat (keyboard_buffer_start s) = unat (keyboard_buffer_end s)"
    by (auto simp: ring_contents_def ring_count_def ring_ok_def ring_count_mod split: if_splits)
  then show ?thesis by (simp add: keyboard_getchar_def word_unat_eq_iff)
qed

interpretation ring: bounded_queue buffer_put keyboard_getchar ring_contents ring_ok 255 0
  by unfold_locales
    (simp_all add: buffer_put_contents buffer_put_ok getchar_contents getchar_empty getchar_ok)


section \<open>The handler\<close>

lemma find_control_Some:
  "find_control cm sc i n = Some j \<Longrightarrow> i \<le> j \<and> j < n \<and> cm ! j = sc \<and> (\<forall>k. i \<le> k \<and> k < j \<longrightarrow> cm ! k \<noteq> sc)"
proof (induction cm sc i n rule: find_control.induct)
  case (1 cm sc i n)
  show ?case
  proof (cases "i < n \<and> cm ! i \<noteq> sc")
    case True
    with "1.prems" have "find_control cm sc (i + 1) n = Some j"
      by (subst (asm) find_control.simps) simp
    then have "i + 1 \<le> j \<and> j < n \<and> cm ! j = sc \<and> (\<forall>k. i + 1 \<le> k \<and> k < j \<longrightarrow> cm ! k \<noteq> sc)"
      using True "1.IH" by blast
    moreover have "k = i \<or> i + 1 \<le> k" if "i \<le> k" for k using that by arith
    ultimately show ?thesis using True by (metis add_leD1)
  next
    case False
    with "1.prems" show ?thesis by (subst (asm) find_control.simps) (auto split: if_splits)
  qed
qed

lemma all_from_step:
  fixes i :: nat
  assumes "P i"
  shows "(\<forall>k. i \<le> k \<and> k < n \<longrightarrow> P k) \<longleftrightarrow> (\<forall>k. i + 1 \<le> k \<and> k < n \<longrightarrow> P k)"
proof (intro iffI allI impI)
  fix k
  assume "\<forall>k. i + 1 \<le> k \<and> k < n \<longrightarrow> P k" and "i \<le> k \<and> k < n"
  then show "P k" using assms by (cases "k = i") simp_all
qed simp

lemma find_control_None:
  "find_control cm sc i n = None \<longleftrightarrow> (\<forall>k. i \<le> k \<and> k < n \<longrightarrow> cm ! k \<noteq> sc)"
proof (induction cm sc i n rule: find_control.induct)
  case (1 cm sc i n)
  show ?case
  proof (cases "i < n \<and> cm ! i \<noteq> sc")
    case True
    then have "find_control cm sc i n = find_control cm sc (i + 1) n"
      by (subst find_control.simps) simp
    with True "1.IH" all_from_step [of "\<lambda>k. cm ! k \<noteq> sc" i n] show ?thesis by metis
  next
    case False
    then show ?thesis by (subst find_control.simps) auto
  qed
qed

lemma set_controls_frame [simp]:
  "keyboard_buffer_start (set_controls c s) = keyboard_buffer_start s"
  "keyboard_buffer_end (set_controls c s) = keyboard_buffer_end s"
  "keyboard_buffer (set_controls c s) = keyboard_buffer s"
  "current_layout (set_controls c s) = current_layout s"
  "layout_map (set_controls c s) = (layout_map s)\<lparr>controls := c\<rparr>"
  by (cases "current_layout s"; simp add: set_controls_def layout_map_def)+

lemma buffer_put_frame [simp]:
  "current_layout (buffer_put c s) = current_layout s"
  "layout_map (buffer_put c s) = layout_map s"
  by (simp_all add: buffer_put_def layout_map_def split: layout.split)

lemma ring_set_controls [simp]:
  "ring_contents (set_controls c s) = ring_contents s"
  "ring_ok (set_controls c s) = ring_ok s"
proof -
  have "ring_at (set_controls c s) = ring_at s" by (rule ext) (simp add: ring_at_def)
  then show "ring_contents (set_controls c s) = ring_contents s"
    by (simp add: ring_contents_def ring_count_def)
qed (simp add: ring_ok_def)

lemma keyboard_handler_ok: "ring_ok s \<Longrightarrow> ring_ok (keyboard_handler sc s)"
  by (simp add: keyboard_handler_def Let_def buffer_put_ok split: option.split)

lemma poll_ok: "ring_ok s \<Longrightarrow> ring_ok (snd (poll scs s))"
proof -
  assume "ring_ok s"
  then have "ring_ok (fold keyboard_handler scs s)"
    by (induction scs arbitrary: s) (simp_all add: keyboard_handler_ok)
  then show ?thesis by (simp add: poll_def getchar_ok)
qed

text \<open>The shifted table is in force: a shift or caps bit is set and the control bit is not.\<close>

definition shifted :: "u8 \<Rightarrow> bool" where
  "shifted c \<longleftrightarrow> c AND (LSHIFT OR RSHIFT OR CAPSLOCK) \<noteq> 0 \<and> c AND CONTROL = 0"

lemma handler_key:
  assumes "sc AND RELEASED_MASK = 0" and "\<forall>k < 8. control_map (layout_map s) ! k \<noteq> sc"
  shows "keyboard_handler sc s =
    buffer_put ((if shifted (controls (layout_map s)) then shift_scancodes (layout_map s)
      else scancodes (layout_map s)) ! unat sc) s"
proof -
  have "find_control (control_map (layout_map s)) sc 0 8 = None"
    using assms(2) by (simp add: find_control_None)
  with assms(1) show ?thesis by (simp add: keyboard_handler_def shifted_def Let_def)
qed

lemma handler_control:
  assumes "sc AND RELEASED_MASK = 0" and "find_control (control_map (layout_map s)) sc 0 8 = Some i"
  shows "keyboard_handler sc s = set_controls (controls (layout_map s) XOR push_bit i 1) s"
proof -
  let ?c = "controls (layout_map s)"
  have i: "i < 8" using find_control_Some [OF assms(2)] by simp
  have b: "?c AND push_bit i 1 \<noteq> 0 \<longleftrightarrow> bit ?c i"
  proof -
    have "bit (?c AND push_bit i 1) n \<longleftrightarrow> n = i \<and> bit ?c i" for n
      using i by (auto simp: bit_simps bit_1_iff)
    then show ?thesis by (metis bit_eqI bit_0_eq bot_apply bot_bool_def)
  qed
  have x: "?c XOR push_bit i 1 = (if bit ?c i then ?c AND NOT (push_bit i 1) else ?c OR push_bit i 1)"
    by (rule bit_word_eqI) (auto simp: bit_simps)
  show ?thesis using assms by (simp add: keyboard_handler_def Let_def b [simplified] x [simplified])
qed


lemma handler_release:
  assumes "sc AND RELEASED_MASK \<noteq> 0"
    and "find_control (control_map (layout_map s)) (sc AND NOT RELEASED_MASK) 0 5 = Some i"
  shows "keyboard_handler sc s = set_controls (controls (layout_map s) AND NOT (push_bit i 1)) s"
  using assms by (simp add: keyboard_handler_def Let_def)

text \<open>A key that is no control key, pressed; and the character it stands for in the current state.\<close>

definition plain_key :: "keyboard \<Rightarrow> u8 \<Rightarrow> bool" where
  "plain_key s sc \<longleftrightarrow> sc AND RELEASED_MASK = 0 \<and> (\<forall>k < 8. control_map (layout_map s) ! k \<noteq> sc)"

definition key_char :: "keyboard \<Rightarrow> u8 \<Rightarrow> u8" where
  "key_char s sc = (if shifted (controls (layout_map s)) then shift_scancodes (layout_map s)
     else scancodes (layout_map s)) ! unat sc"

lemma handler_plain: "plain_key s sc \<Longrightarrow> keyboard_handler sc s = buffer_put (key_char s sc) s"
  by (simp add: plain_key_def key_char_def handler_key)

lemma plain_key_put [simp]:
  "plain_key (buffer_put c s) = plain_key s"
  "key_char (buffer_put c s) = key_char s"
  by (simp_all add: plain_key_def key_char_def fun_eq_iff)

lemma handle_plain_keys:
  "\<forall>sc \<in> set scs. plain_key s sc \<Longrightarrow>
    fold keyboard_handler scs s = fold buffer_put (map (key_char s) scs) s"
  by (induction scs arbitrary: s) (simp_all add: handler_plain)

fun getchars :: "nat \<Rightarrow> keyboard \<Rightarrow> u8 list" where
  "getchars 0 s = []"
| "getchars (Suc n) s = (case keyboard_getchar s of (c, s') \<Rightarrow> c # getchars n s')"

lemma getchars_ring: "getchars n s = ring.gets n s"
  by (induction n arbitrary: s) (simp_all add: ring.gets.simps split: prod.split)

definition fresh_keyboard :: "u32 \<Rightarrow> u32 \<Rightarrow> keyboard" where
  "fresh_keyboard a b = \<lparr>us_map = us, gb_map = gb, current_layout = GB,
     keyboard_buffer_start = a, keyboard_buffer_end = b, keyboard_buffer = (\<lambda>_. 0)\<rparr>"

lemma fresh_simps [simp]:
  "ring_ok (fresh_keyboard 0 0)"
  "ring_contents (fresh_keyboard 0 0) = []"
  "layout_map (fresh_keyboard a b) = gb"
  by (simp_all add: fresh_keyboard_def ring_ok_def ring_contents_def ring_count_def layout_map_def)

section \<open>Properties\<close>

text \<open>
  Property C11. Keys are read in the order they are typed: after up to 255 presses of keys that are
  no control keys, into an empty buffer, as many calls of \<open>keyboard_getchar\<close> return exactly the
  characters of those keys, each from the shifted table when shift or caps lock is on and control
  is off, else from the plain table.
\<close>

theorem typed_keys_read_back:
  assumes "ring_ok s" and "ring_contents s = []" and "length scs \<le> 255"
    and "\<forall>sc \<in> set scs. plain_key s sc"
  shows "getchars (length scs) (fold keyboard_handler scs s) = map (key_char s) scs"
  using ring.fifo [of s "map (key_char s) scs"] assms
  by (simp add: getchars_ring handle_plain_keys)

theorem typed_keys_read_back_witness:
  "getchars (length [16, 28 :: u8]) (fold keyboard_handler [16, 28] (fresh_keyboard 0 0)) = map (key_char (fresh_keyboard 0 0)) [16, 28]"
  by (rule typed_keys_read_back) (simp_all add: plain_key_def all_less_list upt_conv_Cons gb_def control_keys_def RELEASED_MASK_def)

text \<open>
  Pressing the key of control \<open>i\<close> inverts exactly bit \<open>i\<close> of the status byte;
  releasing one of the first five clears exactly that bit; neither puts anything in the buffer.
\<close>

theorem control_key_effects:
  assumes "i < 8" and "sc AND RELEASED_MASK = 0" and "control_map (layout_map s) ! i = sc"
    and "\<forall>k < i. control_map (layout_map s) ! k \<noteq> sc"
  shows "controls (layout_map (keyboard_handler sc s)) = controls (layout_map s) XOR push_bit i 1
    \<and> ring_contents (keyboard_handler sc s) = ring_contents s
    \<and> (i < 5 \<longrightarrow> controls (layout_map (keyboard_handler (sc OR RELEASED_MASK) s))
          = controls (layout_map s) AND NOT (push_bit i 1)
        \<and> ring_contents (keyboard_handler (sc OR RELEASED_MASK) s) = ring_contents s)"
proof -
  have find: "find_control (control_map (layout_map s)) sc 0 n = Some i" if "i < n" for n
  proof -
    have "find_control (control_map (layout_map s)) sc 0 n \<noteq> None"
      using that assms(3) by (auto simp: find_control_None)
    then obtain j where j: "find_control (control_map (layout_map s)) sc 0 n = Some j" by blast
    from find_control_Some [OF j] assms(3,4) have "j = i" by (metis linorder_neqE_nat zero_le)
    with j show ?thesis by simp
  qed
  have "(sc OR RELEASED_MASK) AND RELEASED_MASK = RELEASED_MASK"
    by (rule bit_eqI) (auto simp: bit_simps)
  then have r: "(sc OR RELEASED_MASK) AND RELEASED_MASK \<noteq> 0" by (simp add: RELEASED_MASK_def)
  have n: "(sc OR RELEASED_MASK) AND NOT RELEASED_MASK = sc"
  proof (rule bit_word_eqI)
    fix n :: nat
    assume "n < LENGTH(8)"
    moreover
    have "bit (sc AND RELEASED_MASK) n \<longleftrightarrow> False" by (simp add: assms(2))
    ultimately show "bit ((sc OR RELEASED_MASK) AND NOT RELEASED_MASK) n = bit sc n"
      by (auto simp: bit_simps)
  qed
  show ?thesis
    using handler_control [OF assms(2) find [OF assms(1)]] handler_release [OF r, of s i] n find [of 5]
    by simp
qed

theorem control_key_effects_witness:
  "controls (layout_map (keyboard_handler 42 (fresh_keyboard 0 0))) = 8"
  using control_key_effects [of 3 42 "fresh_keyboard 0 0"]
  by (simp add: all_less_list upt_conv_Cons gb_def control_keys_def RELEASED_MASK_def)

text \<open>
  Holding shift is undone by the keyboard's own auto-repeat: a second press code for
  left shift before its release switches the shift bit off again, so the next key is read from the
  plain table although shift is still held.
\<close>

theorem shift_repeat_unshifts:
  assumes "control_map (layout_map s) = control_keys" and "controls (layout_map s) = 0"
    and "plain_key s sc" and "ring_ok s" and "length (ring_contents s) < 255"
  shows "ring_contents (keyboard_handler sc (keyboard_handler 42 s))
           = ring_contents s @ [shift_scancodes (layout_map s) ! unat sc]
    \<and> ring_contents (keyboard_handler sc (keyboard_handler 42 (keyboard_handler 42 s)))
           = ring_contents s @ [scancodes (layout_map s) ! unat sc]"
proof -
  have f: "find_control control_keys 42 0 8 = Some 3"
    by (simp add: find_control.simps control_keys_def)
  have r: "(42 :: u8) AND RELEASED_MASK = 0" by (simp add: RELEASED_MASK_def)
  have one: "keyboard_handler 42 s = set_controls 8 s"
    using handler_control [OF r, of s 3] f assms(1,2) by simp
  have two: "keyboard_handler 42 (set_controls 8 s) = set_controls 0 (set_controls 8 s)"
    using handler_control [OF r, of "set_controls 8 s" 3] f assms(1) by simp
  have p: "plain_key (set_controls c t) sc = plain_key t sc" for c t
    by (simp add: plain_key_def)
  have sh: "shifted 8" "\<not> shifted 0"
    by (simp_all add: shifted_def LSHIFT_def RSHIFT_def CAPSLOCK_def CONTROL_def)
  show ?thesis
    using assms(3,4,5)
    by (simp add: one two handler_plain p buffer_put_contents key_char_def sh)
qed

theorem shift_repeat_unshifts_witness:
  "ring_contents (keyboard_handler 16 (keyboard_handler 42 (keyboard_handler 42 (fresh_keyboard 0 0)))) = [113]"
  using shift_repeat_unshifts [of "fresh_keyboard 0 0" 16]
  by (simp add: plain_key_def all_less_list upt_conv_Cons gb_def control_keys_def RELEASED_MASK_def gb_keys_def pad128_def ascii_def)

text \<open>
  What happens at a full buffer depends on where the reader is: with its index not 0 a
  further key is dropped and the 255 unread characters stay; with its index 0 the guard compares
  the end with \<open>0xFFFFFFFF\<close>, the key is stored and the buffer is empty afterwards, so all 255 unread
  characters and the new one are lost.
\<close>

theorem full_buffer_behaviour:
  assumes "ring_ok s" and "length (ring_contents s) = 255" and "plain_key s sc"
  shows "ring_contents (keyboard_handler sc s) =
    (if keyboard_buffer_start s = 0 then [] else ring_contents s)"
proof -
  have full: "ring_count s = 255" using assms(2) by (simp add: ring_contents_def)
  show ?thesis
  proof (cases "keyboard_buffer_start s = 0")
    case True
    then have e: "unat (keyboard_buffer_end s) = 255" using full ring_full_iff [OF assms(1)] by simp
    have "keyboard_buffer_end s \<noteq> keyboard_buffer_start s - 1"
      using put_guard [OF assms(1)] True by simp
    then have "ring_count (buffer_put c s) = 0" for c
      using True e by (simp add: buffer_put_def ring_count_def unat_next)
    then show ?thesis using assms(3) True by (simp add: handler_plain ring_contents_def)
  next
    case False
    then have "\<not> (keyboard_buffer_end s \<noteq> keyboard_buffer_start s - 1)"
      using put_guard [OF assms(1)] full by (simp add: unat_eq_zero)
    then have "buffer_put c s = s" for c by (simp add: buffer_put_def)
    then show ?thesis using assms(3) False by (simp add: handler_plain)
  qed
qed

theorem full_buffer_behaviour_witness:
  "ring_contents (keyboard_handler 16 (fresh_keyboard 0 255)) = []"
  using full_buffer_behaviour [of "fresh_keyboard 0 255" 16]
  by (simp add: plain_key_def all_less_list upt_conv_Cons gb_def control_keys_def RELEASED_MASK_def
      fresh_keyboard_def ring_ok_def ring_contents_def ring_count_def layout_map_def)


section \<open>Reading a line\<close>

text \<open>The values the successive calls of \<open>keyboard_getchar\<close> return, and the line typed in them.\<close>

fun polled :: "u8 list list \<Rightarrow> keyboard \<Rightarrow> u8 list" where
  "polled [] s = []"
| "polled (p # ps) s = (case poll p s of (c, s') \<Rightarrow> c # polled ps s')"

definition typed_line :: "u8 list \<Rightarrow> u8 list" where
  "typed_line cs = filter (\<lambda>c. c \<noteq> 0) (takeWhile (\<lambda>c. c \<noteq> 10) cs)"

lemma typed_line_simps [simp]:
  "typed_line [] = []"
  "typed_line (c # cs) = (if c = 10 then [] else if c = 0 then typed_line cs else c # typed_line cs)"
  by (simp_all add: typed_line_def)

lemma scanf_read_line:
  "(10 \<in> set (c # polled polls s) \<longrightarrow> (\<exists>s' rest. scanf_read m s t_v c out polls =
      Some (store_bytes m t_v (typed_line (c # polled polls s)), s', out @ typed_line (c # polled polls s), rest)))
   \<and> (10 \<notin> set (c # polled polls s) \<longrightarrow> scanf_read m s t_v c out polls = None)"
proof (induction polls arbitrary: m s t_v c out)
  case Nil
  then show ?case by (simp add: Let_def)
next
  case (Cons p ps)
  obtain c' s' where p: "poll p s = (c', s')" by fastforce
  have step: "scanf_read m s t_v c out (p # ps) =
      (if c = 10 then Some (m, s, out, p # ps)
       else if c \<noteq> 0 then scanf_read (m(t_v := c)) s' (t_v + 1) c' (out @ [c]) ps
       else scanf_read m s' t_v c' out ps)"
    by (subst scanf_read.simps) (simp add: p Let_def del: scanf_read.simps)
  let ?cs = "polled (p # ps) s"
  have cs: "?cs = c' # polled ps s'" by (simp add: p)
  consider "c = 10" | "c = 0" | "c \<noteq> 10" "c \<noteq> 0" by blast
  then show ?case
  proof cases
    case 1
    then show ?thesis by (simp add: step)
  next
    case 2
    then have "scanf_read m s t_v c out (p # ps) = scanf_read m s' t_v c' out ps"
      and "typed_line (c # ?cs) = typed_line ?cs" and "10 \<in> set (c # ?cs) \<longleftrightarrow> 10 \<in> set ?cs"
      using step by (simp_all del: polled.simps scanf_read.simps)
    with Cons.IH [of c' s' m t_v out] show ?thesis unfolding cs by metis
  next
    case 3
    then have "scanf_read m s t_v c out (p # ps) = scanf_read (m(t_v := c)) s' (t_v + 1) c' (out @ [c]) ps"
      and "typed_line (c # ?cs) = c # typed_line ?cs" and "10 \<in> set (c # ?cs) \<longleftrightarrow> 10 \<in> set ?cs"
      by (simp_all add: step del: polled.simps scanf_read.simps)
    moreover have "store_bytes m t_v (c # xs) = store_bytes (m(t_v := c)) (t_v + 1) xs"
      and "out @ c # xs = (out @ [c]) @ xs" for xs
      by simp_all
    ultimately show ?thesis
      using Cons.IH [of c' s' "m(t_v := c)" "t_v + 1" "out @ [c]"] unfolding cs by metis
  qed
qed

lemma scanf_wait_line:
  "(10 \<in> set (polled polls s) \<longrightarrow> (\<exists>s' rest. scanf_wait m s v out polls =
      Some (store_bytes m v (typed_line (polled polls s)), s', out @ typed_line (polled polls s), rest)))
   \<and> (10 \<notin> set (polled polls s) \<longrightarrow> scanf_wait m s v out polls = None)"
proof (induction polls arbitrary: s)
  case (Cons p ps)
  obtain c' s' where p: "poll p s = (c', s')" by fastforce
  show ?case
  proof (cases "c' = 0")
    case True
    with Cons.IH [of s'] show ?thesis by (simp add: p)
  next
    case False
    with scanf_read_line [of c' ps s' m v out] show ?thesis
      by (simp add: p del: scanf_read.simps typed_line_simps)
  qed
qed simp

lemma demo_polled: "polled [[], [30, 28], []] (fresh_keyboard 0 0) = [0, 97, 10]"
proof -
  have k: "plain_key (fresh_keyboard 0 0) 30" "plain_key (fresh_keyboard 0 0) 28"
    by (simp_all add: plain_key_def all_less_list upt_conv_Cons gb_def control_keys_def RELEASED_MASK_def)
  have c: "key_char (fresh_keyboard 0 0) 30 = 97" "key_char (fresh_keyboard 0 0) 28 = 10"
    by (simp_all add: key_char_def gb_def gb_keys_def pad128_def ascii_def shifted_def)
  have g: "keyboard_getchar (fresh_keyboard 0 0) = (0, fresh_keyboard 0 0)"
    by (rule getchar_empty) simp_all
  show "polled [[], [30, 28], []] (fresh_keyboard 0 0) = [0, 97, 10]"
    by (simp add: poll_def handler_plain k c g) (simp add: buffer_put_def keyboard_getchar_def fresh_keyboard_def)
qed

text \<open>
  Property C22. For every timing of the keyboard interrupts between its polls, \<open>scanf\<close> returns exactly
  when a newline is polled; it then has stored at \<open>v\<close> the characters polled before the first
  newline (the NULs of empty polls left out), echoed the same characters after the prompt, and
  written nothing else.
\<close>

theorem scanf_reads_line:
  "(10 \<in> set (polled polls s) \<longrightarrow> (\<exists>s' rest. scanf tip m s v polls =
      Some (store_bytes m v (typed_line (polled polls s)), s', tip @ typed_line (polled polls s), rest)))
   \<and> (10 \<notin> set (polled polls s) \<longrightarrow> scanf tip m s v polls = None)"
  using scanf_wait_line [of polls s m v tip] by (simp add: scanf_def)

theorem scanf_reads_line_witness:
  "\<exists>s' rest. scanf [62] (\<lambda>_. 0) (fresh_keyboard 0 0) 100 [[], [30, 28], []] =
      Some (store_bytes (\<lambda>_. 0) 100 [97], s', [62, 97], rest)"
  using scanf_reads_line [of "[[], [30, 28], []]" "fresh_keyboard 0 0" "[62]" "\<lambda>_. 0" 100]
  unfolding demo_polled by simp

text \<open>
  \<open>scanf\<close> has no bound and writes no terminator: whatever the length of the line, every
  character is stored, also past the 256 bytes of the shell's buffer, and the byte after the last
  one keeps its old value.
\<close>

theorem scanf_unbounded_unterminated:
  assumes "scanf tip m s v polls = Some (m', s', out, rest)"
    and "length (typed_line (polled polls s)) < 2 ^ 32" and "i < length (typed_line (polled polls s))"
  shows "m' (v + of_nat i) = typed_line (polled polls s) ! i
    \<and> m' (v + of_nat (length (typed_line (polled polls s)))) = m (v + of_nat (length (typed_line (polled polls s))))"
proof -
  let ?l = "typed_line (polled polls s)"
  have m': "m' = store_bytes m v ?l"
    using scanf_wait_line [of polls s m v tip] assms(1) by (auto simp: scanf_def)
  have "\<not> in_range v (length ?l) (v + of_nat (length ?l))"
    using assms(2) by (simp add: in_range_def unat_of_nat_small)
  with assms(2,3) show ?thesis by (simp add: m' store_bytes_in store_bytes_other)
qed

theorem scanf_unbounded_unterminated_witness:
  "\<exists>m' s' out rest. scanf [62] (\<lambda>_. 7) (fresh_keyboard 0 0) 100 [[], [30, 28], []] = Some (m', s', out, rest)
    \<and> m' 100 = 97 \<and> m' 101 = 7"
proof -
  obtain m' s' out rest where r: "scanf [62] (\<lambda>_. 7) (fresh_keyboard 0 0) 100 [[], [30, 28], []] = Some (m', s', out, rest)"
    using scanf_wait_line [of "[[], [30, 28], []]" "fresh_keyboard 0 0" "\<lambda>_. 7" 100 "[62]"]
    unfolding demo_polled by (auto simp: scanf_def)
  with scanf_unbounded_unterminated [OF r, of 0] show ?thesis
    unfolding demo_polled by auto
qed

end
