(* ===== verification/Sorted_Array.thy ===== *)
theory Sorted_Array
  imports Common_C
begin

text \<open>
  \<open>src/src/sorted_array.c\<close>: the array of pointers the kernel heap keeps its holes in. The words of
  the array are in memory, at \<open>array\<close> and after; the record is the struct \<open>sorted_array_t\<close>. A
  comparison function reads memory, since the heap's compares what the pointers point to.
  \<open>create_sorted_array\<close> and \<open>free_sorted_array\<close> call the allocator and are with it.
\<close>

section \<open>The struct and the operations\<close>

type_synonym cmp_fun_t = "memory \<Rightarrow> u32 \<Rightarrow> u32 \<Rightarrow> int"

record sorted_array_t =
  array :: u32
  arr_size :: u32
  cur :: u32
  cmp_fun :: cmp_fun_t

text \<open>The comment in the source calls it a descending comparison: it returns 1 or 0.\<close>

definition cmp :: cmp_fun_t where
  "cmp m a b = (if a < b then 1 else 0)"

definition slot :: "sorted_array_t \<Rightarrow> u32 \<Rightarrow> u32" where
  "slot a i = array a + 4 * i"

definition place_sorted_array :: "memory \<Rightarrow> u32 \<Rightarrow> u32 \<Rightarrow> cmp_fun_t \<Rightarrow> memory \<times> sorted_array_t" where
  "place_sorted_array m addr maxsize f =
     (fst (memset m addr 0 (maxsize * 4)),
      \<lparr>array = addr, arr_size = maxsize, cur = 0, cmp_fun = f\<rparr>)"

text \<open>The first loop of \<open>insert_sorted_array\<close>: where the item goes.\<close>

function insert_scan :: "memory \<Rightarrow> sorted_array_t \<Rightarrow> u32 \<Rightarrow> u32 \<Rightarrow> u32" where
  "insert_scan m a item iter =
     (if iter < cur a \<and> cmp_fun a m (load32 m (slot a iter)) item < 0
      then insert_scan m a item (iter + 1) else iter)"
  by pat_completeness auto
termination
proof (relation "measure (\<lambda>(m, a, item, iter). unat (cur a) - unat iter)")
  fix m :: memory and a :: sorted_array_t and item iter :: u32
  assume "iter < cur a \<and> cmp_fun a m (load32 m (slot a iter)) item < 0"
  then have "unat iter < unat (cur a)" by (simp add: word_less_nat_alt)
  moreover from this have "unat (iter + 1) = unat iter + 1"
    using unat_u32_lt [of "cur a"] by (simp add: unat_word_ariths)
  ultimately show "((m, a, item, iter + 1), m, a, item, iter)
      \<in> measure (\<lambda>(m, a, item, iter). unat (cur a) - unat iter)"
    by simp
qed simp

text \<open>
  The second loop, \<open>while (iter <= a->cur)\<close>, moves every entry up to and including the one at
  \<open>cur\<close>; with \<open>cur\<close> the largest value its guard would never fail.
\<close>

function insert_shift :: "memory \<Rightarrow> sorted_array_t \<Rightarrow> u32 \<Rightarrow> u32 \<Rightarrow> fault + memory" where
  "insert_shift m a iter temp =
     (if cur a = - 1 then Inl Hang
      else if iter \<le> cur a then
        (let iter = iter + 1;
             temp_2 = load32 m (slot a iter);
             m = store32 m (slot a iter) temp
         in insert_shift m a iter temp_2)
      else Inr m)"
  by pat_completeness auto
termination
proof (relation "measure (\<lambda>(m, a, iter, temp). unat (cur a) + 1 - unat iter)")
  fix m m' :: memory and a :: sorted_array_t and iter temp iter' temp_2 :: u32
  assume "cur a \<noteq> - 1" "iter \<le> cur a" "iter' = iter + 1"
  then have "unat iter \<le> unat (cur a)" and "unat (cur a) \<noteq> unat (- 1 :: u32)"
    by (simp_all add: word_le_nat_alt word_unat_eq_iff)
  moreover from this have "unat (iter + 1) = unat iter + 1"
    using unat_u32_lt [of "cur a"]
    by (simp add: unat_word_ariths unsigned_minus_1_eq_mask mask_eq_exp_minus_1)
  ultimately show "((m', a, iter', temp_2), m, a, iter, temp)
      \<in> measure (\<lambda>(m, a, iter, temp). unat (cur a) + 1 - unat iter)"
    using \<open>iter' = iter + 1\<close> by simp
qed simp

declare insert_scan.simps [simp del] insert_shift.simps [simp del]

definition insert_sorted_array :: "u32 \<Rightarrow> memory \<Rightarrow> sorted_array_t \<Rightarrow> fault + (memory \<times> sorted_array_t)" where
  "insert_sorted_array item m a =
     (let iter = insert_scan m a item 0 in
      if iter = cur a
      then Inr (store32 m (slot a (cur a)) item, a\<lparr>cur := cur a + 1\<rparr>)
      else
        let temp = load32 m (slot a iter); m = store32 m (slot a iter) item in
        ebind (insert_shift m a iter temp) (\<lambda>m. Inr (m, a\<lparr>cur := cur a + 1\<rparr>)))"

definition find_sorted_array :: "u32 \<Rightarrow> memory \<Rightarrow> sorted_array_t \<Rightarrow> fault + u32" where
  "find_sorted_array index m a =
     (if array a = 0 \<or> arr_size a \<le> index
      then kpanic (''error in find item in sorted array'' @ [CHR 0x0A])
      else Inr (load32 m (slot a index)))"

function remove_shift :: "memory \<Rightarrow> sorted_array_t \<Rightarrow> u32 \<Rightarrow> memory" where
  "remove_shift m a iter =
     (if iter < arr_size a
      then remove_shift (store32 m (slot a (iter - 1)) (load32 m (slot a iter))) a (iter + 1) else m)"
  by pat_completeness auto
termination
proof (relation "measure (\<lambda>(m, a, iter). unat (arr_size a) - unat iter)")
  fix m :: memory and a :: sorted_array_t and iter :: u32
  assume "iter < arr_size a"
  then have "unat iter < unat (arr_size a)" by (simp add: word_less_nat_alt)
  moreover from this have "unat (iter + 1) = unat iter + 1"
    using unat_u32_lt [of "arr_size a"] by (simp add: unat_word_ariths)
  ultimately show "((store32 m (slot a (iter - 1)) (load32 m (slot a iter)), a, iter + 1), m, a, iter)
      \<in> measure (\<lambda>(m, a, iter). unat (arr_size a) - unat iter)"
    by simp
qed simp

declare remove_shift.simps [simp del]

definition remove_sorted_array :: "u32 \<Rightarrow> memory \<Rightarrow> sorted_array_t \<Rightarrow> fault + (memory \<times> sorted_array_t)" where
  "remove_sorted_array index m a =
     (if array a = 0 then kpanic (''error in remove item in sorted array'' @ [CHR 0x0A])
      else if arr_size a \<le> index then Inr (m, a)
      else Inr (remove_shift m a (index + 1), a\<lparr>arr_size := arr_size a - 1\<rparr>))"

section \<open>The array as a list\<close>

text \<open>The first \<open>n\<close> words of the array.\<close>

definition slots :: "memory \<Rightarrow> sorted_array_t \<Rightarrow> nat \<Rightarrow> u32 list" where
  "slots m a n = raw.words m (array a) n"

lemma length_slots [simp]: "length (slots m a n) = n"
  by (simp add: slots_def)

lemma slots_record [simp]:
  "slots m (a\<lparr>cur := c\<rparr>) n = slots m a n"
  "slots m (a\<lparr>arr_size := c\<rparr>) n = slots m a n"
  by (simp_all add: slots_def)

lemma slots_nth: "unat i < n \<Longrightarrow> load32 m (slot a i) = slots m a n ! unat i"
  by (simp add: slots_def slot_def)

lemma slots_store:
  assumes "unat i < n" and "n \<le> 2 ^ 30"
  shows "slots (store32 m (slot a i) v) a n = (slots m a n)[unat i := v]"
  using raw.words_update [of "unat i" n m "array a" v] assms by (simp add: slots_def slot_def)

lemma slots_prefix: "k \<le> n \<Longrightarrow> slots m a k = take k (slots m a n)"
  by (rule nth_equalityI) (simp_all add: slots_def)


text \<open>A write to one of the first \<open>n\<close> words stays inside the array's bytes.\<close>

lemma in_slot_in_array:
  assumes "in_range (slot a i) 4 x" and "unat i < n" and "n \<le> 2 ^ 30"
  shows "in_range (array a) (4 * n) x"
proof -
  have i: "unat (4 * i) = 4 * unat i"
    using assms(2,3) by (simp add: unat_word_ariths)
  have "x - array a = (x - slot a i) + 4 * i" by (simp add: slot_def)
  then have "unat (x - array a) \<le> unat (x - slot a i) + 4 * unat i"
    using unat_word_ariths(1) [of "x - slot a i" "4 * i"] i by (metis mod_less_eq_dividend)
  with assms show ?thesis by (simp add: in_range_def)
qed

lemma store_slot_outside:
  "\<not> in_range (array a) (4 * n) x \<Longrightarrow> unat i < n \<Longrightarrow> n \<le> 2 ^ 30 \<Longrightarrow> store32 m (slot a i) v x = m x"
  using in_slot_in_array store32_other by blast

section \<open>Inserting\<close>

lemma insert_scan_takeWhile:
  assumes "unat iter \<le> unat (cur a)" and "unat (cur a) \<le> 2 ^ 30"
  shows "unat (insert_scan m a item iter) =
    unat iter + length (takeWhile (\<lambda>x. cmp_fun a m x item < 0) (drop (unat iter) (slots m a (unat (cur a)))))"
  using assms
proof (induction m a item iter rule: insert_scan.induct)
  case (1 m a item iter)
  let ?L = "slots m a (unat (cur a))" and ?i = "unat iter"
  show ?case
  proof (cases "iter < cur a")
    case True
    then have i: "?i < unat (cur a)" by (simp add: word_less_nat_alt)
    then have next_i: "unat (iter + 1) = ?i + 1"
      using unat_u32_lt [of "cur a"] by (simp add: unat_word_ariths)
    have d: "drop ?i ?L = ?L ! ?i # drop (Suc ?i) ?L"
      using i by (intro Cons_nth_drop_Suc [symmetric]) simp
    have v: "load32 m (slot a iter) = ?L ! ?i" using i by (rule slots_nth)
    show ?thesis
    proof (cases "cmp_fun a m (?L ! ?i) item < 0")
      case neg: True
      then have "insert_scan m a item iter = insert_scan m a item (iter + 1)"
        using True by (subst insert_scan.simps) (simp add: v)
      moreover have "unat (insert_scan m a item (iter + 1)) = ?i + 1 +
          length (takeWhile (\<lambda>x. cmp_fun a m x item < 0) (drop (?i + 1) ?L))"
        using "1.IH" True neg i "1.prems"(2) by (simp add: v next_i)
      ultimately show ?thesis using neg by (simp add: d)
    next
      case False
      with True show ?thesis by (subst insert_scan.simps) (simp add: v d)
    qed
  next
    case False
    then have "unat (cur a) \<le> ?i" by (simp add: word_less_nat_alt)
    with False show ?thesis by (subst insert_scan.simps) simp
  qed
qed

lemma insert_shift_slots:
  assumes "unat iter \<le> unat (cur a) + 1" and "unat (cur a) + 1 < n" and "n \<le> 2 ^ 30"
  shows "\<exists>m'. insert_shift m a iter temp = Inr m'
    \<and> slots m' a n = take (unat iter + 1) (slots m a n)
        @ take (unat (cur a) + 1 - unat iter) (temp # drop (unat iter + 1) (slots m a n))
        @ drop (unat (cur a) + 2) (slots m a n)
    \<and> (\<forall>x. \<not> in_range (array a) (4 * n) x \<longrightarrow> m' x = m x)"
  using assms
proof (induction m a iter temp rule: insert_shift.induct)
  case (1 m a iter temp)
  let ?xs = "slots m a n" and ?i = "unat iter" and ?c = "unat (cur a)"
  have nm: "cur a \<noteq> - 1"
    using "1.prems"(2,3) by (auto simp: unsigned_minus_1_eq_mask mask_eq_exp_minus_1)
  show ?case
  proof (cases "iter \<le> cur a")
    case True
    then have ic: "?i \<le> ?c" by (simp add: word_le_nat_alt)
    then have ni: "unat (iter + 1) = ?i + 1"
      using "1.prems"(2,3) by (simp add: unat_word_ariths)
    let ?t2 = "load32 m (slot a (iter + 1))" and ?m1 = "store32 m (slot a (iter + 1)) temp"
    have bd: "unat (iter + 1) < n" using ni ic "1.prems"(2) by simp
    have t2: "?t2 = ?xs ! (?i + 1)" using slots_nth [OF bd] ni by simp
    have xs1: "slots ?m1 a n = ?xs[?i + 1 := temp]"
      using slots_store [OF bd "1.prems"(3)] ni by simp
    have eq: "insert_shift m a iter temp = insert_shift ?m1 a (iter + 1) ?t2"
      using True nm by (subst insert_shift.simps) (simp add: Let_def)
    obtain m' where m': "insert_shift ?m1 a (iter + 1) ?t2 = Inr m'"
      and s: "slots m' a n = take (?i + 2) (?xs[?i + 1 := temp])
        @ take (?c - ?i) (?xs ! (?i + 1) # drop (?i + 2) (?xs[?i + 1 := temp]))
        @ drop (?c + 2) (?xs[?i + 1 := temp])"
      and fr: "\<forall>x. \<not> in_range (array a) (4 * n) x \<longrightarrow> m' x = ?m1 x"
      using "1.IH" [OF nm True refl refl refl] ni ic "1.prems" by (auto simp: t2 xs1)
    have l: "?i + 1 < length ?xs" using bd ni by simp
    have a1: "take (?i + 2) (?xs[?i + 1 := temp]) = take (?i + 1) ?xs @ [temp]"
      using l take_Suc_conv_app_nth [of "?i + 1" "?xs[?i + 1 := temp]"] by (simp add: numeral_2_eq_2)
    have a2: "?xs ! (?i + 1) # drop (?i + 2) (?xs[?i + 1 := temp]) = drop (?i + 1) ?xs"
      using l Cons_nth_drop_Suc [of "?i + 1" ?xs] by (simp add: numeral_2_eq_2)
    have a3: "take (?c + 1 - ?i) (temp # ys) = temp # take (?c - ?i) ys" for ys
      using ic by (simp add: Suc_diff_le)
    have "slots m' a n = take (?i + 1) ?xs @ take (?c + 1 - ?i) (temp # drop (?i + 1) ?xs) @ drop (?c + 2) ?xs"
      using ic by (simp only: s a1 a2 a3) simp
    moreover have "\<forall>x. \<not> in_range (array a) (4 * n) x \<longrightarrow> m' x = m x"
      using fr store_slot_outside bd "1.prems"(3) by metis
    ultimately show ?thesis using eq m' by auto
  next
    case False
    then have "?i = ?c + 1" using "1.prems"(1) by (simp add: word_le_nat_alt)
    moreover have "insert_shift m a iter temp = Inr m"
      using False nm by (subst insert_shift.simps) simp
    ultimately show ?thesis by simp
  qed
qed


text \<open>The position of the first entry that does not compare below the item.\<close>

definition insert_pos :: "memory \<Rightarrow> sorted_array_t \<Rightarrow> u32 \<Rightarrow> nat" where
  "insert_pos m a item = length (takeWhile (\<lambda>x. cmp_fun a m x item < 0) (slots m a (unat (cur a))))"

lemma insert_pos_le: "insert_pos m a item \<le> unat (cur a)"
  using length_takeWhile_le [of "\<lambda>x. cmp_fun a m x item < 0" "slots m a (unat (cur a))"]
  by (simp add: insert_pos_def)

lemma insert_at_end:
  assumes "insert_pos m a item = unat (cur a)" and "unat (cur a) \<le> 2 ^ 30"
  shows "insert_sorted_array item m a = Inr (store32 m (slot a (cur a)) item, a\<lparr>cur := cur a + 1\<rparr>)"
proof -
  have "unat (insert_scan m a item 0) = insert_pos m a item"
    using assms(2) by (subst insert_scan_takeWhile) (simp_all add: insert_pos_def)
  then have "insert_scan m a item 0 = cur a" using assms(1) by (simp add: word_unat_eq_iff)
  then show ?thesis by (simp add: insert_sorted_array_def Let_def)
qed

lemma insert_in_middle:
  assumes "insert_pos m a item < unat (cur a)" and "unat (cur a) + 1 < n" and "n \<le> 2 ^ 30"
  shows "\<exists>m'. insert_sorted_array item m a = Inr (m', a\<lparr>cur := cur a + 1\<rparr>)
    \<and> slots m' a n = take (insert_pos m a item) (slots m a n)
        @ item # take (unat (cur a) + 1 - insert_pos m a item) (drop (insert_pos m a item) (slots m a n))
        @ drop (unat (cur a) + 2) (slots m a n)
    \<and> (\<forall>x. \<not> in_range (array a) (4 * n) x \<longrightarrow> m' x = m x)"
proof -
  let ?k = "insert_pos m a item" and ?i = "insert_scan m a item 0" and ?c = "unat (cur a)" and ?xs = "slots m a n"
  have i: "unat ?i = ?k"
    using assms(2,3) by (subst insert_scan_takeWhile) (simp_all add: insert_pos_def)
  have kn: "unat ?i < n" using i assms(1,2) by simp
  let ?m1 = "store32 m (slot a ?i) item" and ?t = "load32 m (slot a ?i)"
  have xs1: "slots ?m1 a n = ?xs[?k := item]" using slots_store [OF kn assms(3)] i by simp
  have tv: "?t = ?xs ! ?k" using slots_nth [OF kn] i by simp
  obtain m' where m': "insert_shift ?m1 a ?i ?t = Inr m'"
    and s: "slots m' a n = take (?k + 1) (?xs[?k := item]) @ take (?c + 1 - ?k) (?xs ! ?k # drop (?k + 1) (?xs[?k := item]))
        @ drop (?c + 2) (?xs[?k := item])"
    and fr: "\<forall>x. \<not> in_range (array a) (4 * n) x \<longrightarrow> m' x = ?m1 x"
    using insert_shift_slots [of ?i a n ?m1 ?t] assms i by (auto simp: xs1 tv)
  have l: "?k < length ?xs" using kn i by simp
  have a1: "take (?k + 1) (?xs[?k := item]) = take ?k ?xs @ [item]"
    using l take_Suc_conv_app_nth [of ?k "?xs[?k := item]"] by simp
  have a2: "?xs ! ?k # drop (?k + 1) (?xs[?k := item]) = drop ?k ?xs"
    using l Cons_nth_drop_Suc [of ?k ?xs] by simp
  have "slots m' a n = take ?k ?xs @ item # take (?c + 1 - ?k) (drop ?k ?xs) @ drop (?c + 2) ?xs"
    using assms(1) by (simp only: s a1 a2) simp
  moreover have "insert_sorted_array item m a = Inr (m', a\<lparr>cur := cur a + 1\<rparr>)"
  proof -
    have "?i \<noteq> cur a" using i assms(1) by auto
    then show ?thesis by (simp add: insert_sorted_array_def Let_def m')
  qed
  moreover have "\<forall>x. \<not> in_range (array a) (4 * n) x \<longrightarrow> m' x = m x"
    using fr store_slot_outside kn assms(3) by metis
  ultimately show ?thesis by blast
qed

section \<open>Removing\<close>

lemma remove_shift_slots:
  assumes "1 \<le> unat iter" and "unat iter \<le> unat (arr_size a)" and "unat (arr_size a) \<le> n" and "n \<le> 2 ^ 30"
  shows "slots (remove_shift m a iter) a n = take (unat iter - 1) (slots m a n)
      @ take (unat (arr_size a) - unat iter) (drop (unat iter) (slots m a n))
      @ drop (unat (arr_size a) - 1) (slots m a n)
    \<and> (\<forall>x. \<not> in_range (array a) (4 * n) x \<longrightarrow> remove_shift m a iter x = m x)"
  using assms
proof (induction m a iter rule: remove_shift.induct)
  case (1 m a iter)
  let ?xs = "slots m a n" and ?i = "unat iter" and ?s = "unat (arr_size a)"
  show ?case
  proof (cases "iter < arr_size a")
    case True
    then have lt: "?i < ?s" by (simp add: word_less_nat_alt)
    then have ni: "unat (iter + 1) = ?i + 1"
      using unat_u32_lt [of "arr_size a"] by (simp add: unat_word_ariths)
    have "iter \<noteq> 0" using "1.prems"(1) by auto
    then have pi: "unat (iter - 1) = ?i - 1" by (rule unat_minus_one)
    let ?m1 = "store32 m (slot a (iter - 1)) (load32 m (slot a iter))"
    have bd: "unat (iter - 1) < n" "unat iter < n" using pi lt "1.prems"(3) by simp_all
    have xs1: "slots ?m1 a n = ?xs[?i - 1 := ?xs ! ?i]"
      using slots_store [OF bd(1) "1.prems"(4)] slots_nth [OF bd(2)] pi by simp
    have eq: "remove_shift m a iter = remove_shift ?m1 a (iter + 1)"
      using True by (subst remove_shift.simps) simp
    have IH: "slots (remove_shift ?m1 a (iter + 1)) a n = take ?i (?xs[?i - 1 := ?xs ! ?i])
          @ take (?s - (?i + 1)) (drop (?i + 1) (?xs[?i - 1 := ?xs ! ?i])) @ drop (?s - 1) (?xs[?i - 1 := ?xs ! ?i])"
      "\<forall>x. \<not> in_range (array a) (4 * n) x \<longrightarrow> remove_shift ?m1 a (iter + 1) x = ?m1 x"
      using "1.IH" [OF True] lt "1.prems" by (simp_all add: ni xs1)
    have l: "?i < length ?xs" using bd by simp
    have a1: "take ?i (?xs[?i - 1 := ?xs ! ?i]) = take (?i - 1) ?xs @ [?xs ! ?i]"
      using l "1.prems"(1) take_Suc_conv_app_nth [of "?i - 1" "?xs[?i - 1 := ?xs ! ?i]"] by simp
    have sd: "?s - ?i = Suc (?s - (?i + 1))" using lt by simp
    have a2: "take (?s - ?i) (drop ?i ?xs) = ?xs ! ?i # take (?s - (?i + 1)) (drop (?i + 1) ?xs)"
      unfolding sd using l Cons_nth_drop_Suc [of ?i ?xs, symmetric] by simp
    have "slots (remove_shift m a iter) a n =
        take (?i - 1) ?xs @ take (?s - ?i) (drop ?i ?xs) @ drop (?s - 1) ?xs"
      using lt "1.prems"(1) by (simp only: eq IH(1) a1 a2) simp
    moreover have "\<forall>x. \<not> in_range (array a) (4 * n) x \<longrightarrow> remove_shift m a iter x = m x"
      using IH(2) store_slot_outside [OF _ bd(1) "1.prems"(4)] by (simp add: eq)
    ultimately show ?thesis by blast
  next
    case False
    then have "?i = ?s" using "1.prems"(2) by (simp add: word_less_nat_alt)
    moreover have "remove_shift m a iter = m" using False by (subst remove_shift.simps) simp
    ultimately show ?thesis by simp
  qed
qed

lemma remove_slots:
  assumes "array a \<noteq> 0" and "unat index < unat (arr_size a)" and "unat (arr_size a) \<le> n" and "n \<le> 2 ^ 30"
  shows "\<exists>m'. remove_sorted_array index m a = Inr (m', a\<lparr>arr_size := arr_size a - 1\<rparr>)
    \<and> slots m' a n = take (unat index) (slots m a n)
        @ take (unat (arr_size a) - (unat index + 1)) (drop (unat index + 1) (slots m a n))
        @ drop (unat (arr_size a) - 1) (slots m a n)
    \<and> (\<forall>x. \<not> in_range (array a) (4 * n) x \<longrightarrow> m' x = m x)"
proof -
  have u: "unat (index + 1) = unat index + 1"
    using assms(2) unat_u32_lt [of "arr_size a"] by (simp add: unat_word_ariths)
  have "\<not> arr_size a \<le> index" using assms(2) by (simp add: word_le_nat_alt)
  then show ?thesis
    using remove_shift_slots [of "index + 1" a n m] assms u by (simp add: remove_sorted_array_def)
qed

section \<open>What the operations promise\<close>

lemma takeWhile_insort_key:
  "take (length (takeWhile (\<lambda>y. key y < key x) ys)) ys @ x # drop (length (takeWhile (\<lambda>y. key y < key x) ys)) ys
     = insort_key key x ys"
  for key :: "'a \<Rightarrow> 'b::linorder"
  by (induction ys) auto

text \<open>The live entries after an insertion, wherever the position is.\<close>

lemma insert_live:
  assumes "unat (cur a) + 2 \<le> n" and "n \<le> 2 ^ 30"
  obtains m' where "insert_sorted_array item m a = Inr (m', a\<lparr>cur := cur a + 1\<rparr>)"
    and "slots m' a (unat (cur a) + 1) =
      take (insert_pos m a item) (slots m a (unat (cur a))) @ item # drop (insert_pos m a item) (slots m a (unat (cur a)))"
    and "insert_pos m a item < unat (cur a) \<Longrightarrow> load32 m' (slot a (cur a + 1)) = load32 m (slot a (cur a))"
    and "\<And>x. \<not> in_range (array a) (4 * n) x \<Longrightarrow> m' x = m x"
proof -
  let ?k = "insert_pos m a item" and ?c = "unat (cur a)"
  have kc: "?k \<le> ?c" by (rule insert_pos_le)
  have live: "slots m a ?c = take ?c (slots m a n)" using assms(1) by (intro slots_prefix) simp
  show ?thesis
  proof (cases "?k = ?c")
    case True
    let ?m = "store32 m (slot a (cur a)) item"
    have c: "?c < n" using assms(1) by simp
    have "insert_sorted_array item m a = Inr (?m, a\<lparr>cur := cur a + 1\<rparr>)"
      using True assms by (intro insert_at_end) simp_all
    moreover have "slots ?m a (?c + 1) = slots m a ?c @ [item]"
    proof -
      have "slots ?m a n = (slots m a n)[?c := item]" using c assms(2) by (rule slots_store)
      then have "slots ?m a (?c + 1) = take (?c + 1) ((slots m a n)[?c := item])"
        using c slots_prefix [of "?c + 1" n ?m a] by simp
      also have "\<dots> = take ?c (slots m a n) @ [item]"
        using c take_Suc_conv_app_nth [of ?c "(slots m a n)[?c := item]"] by simp
      finally show ?thesis by (simp only: live)
    qed
    moreover have "?m x = m x" if "\<not> in_range (array a) (4 * n) x" for x
      using that c assms(2) by (rule store_slot_outside)
    ultimately show ?thesis using that True by simp
  next
    case False
    then have k: "?k < ?c" using kc by simp
    obtain m' where m': "insert_sorted_array item m a = Inr (m', a\<lparr>cur := cur a + 1\<rparr>)"
      and s: "slots m' a n = take ?k (slots m a n) @ item # take (?c + 1 - ?k) (drop ?k (slots m a n))
        @ drop (?c + 2) (slots m a n)"
      and fr: "\<forall>x. \<not> in_range (array a) (4 * n) x \<longrightarrow> m' x = m x"
      using insert_in_middle [OF k, of n] assms by auto
    have "slots m' a (?c + 1) = take (?c + 1) (slots m' a n)" using assms(1) by (intro slots_prefix) simp
    also have "\<dots> = take ?k (slots m a n) @ item # take (?c - ?k) (drop ?k (slots m a n))"
      using k assms(1) by (simp add: s Suc_diff_le)
    finally have sl: "slots m' a (?c + 1) = take ?k (slots m a ?c) @ item # drop ?k (slots m a ?c)"
      using k by (simp add: live drop_take)
    have c1: "unat (cur a + 1) = ?c + 1" using assms by (simp add: unat_word_ariths)
    have "load32 m' (slot a (cur a + 1)) = slots m' a n ! (?c + 1)"
      using slots_nth [of "cur a + 1" n m' a] c1 assms(1) by simp
    also have "\<dots> = slots m a n ! ?c"
      using k assms(1) by (simp add: s nth_append nth_Cons' Suc_diff_le)
    also have "\<dots> = load32 m (slot a (cur a))"
      using slots_nth [of "cur a" n m a] assms(1) by simp
    finally show ?thesis using that m' sl fr by blast
  qed
qed

text \<open>
  A comparison that is never negative, as the two the kernel passes: the scan stops at once, so
  every item goes in front of the others.
\<close>

locale nonnegative_cmp =
  fixes cf :: cmp_fun_t
  assumes cf_nonneg: "0 \<le> cf m x y"
begin

lemma insert_pos_0: "cmp_fun a = cf \<Longrightarrow> insert_pos m a item = 0"
  using cf_nonneg by (simp add: insert_pos_def takeWhile_eq_Nil_iff linorder_not_less)

lemma insert_front:
  assumes "cmp_fun a = cf" and "unat (cur a) + 2 \<le> n" and "n \<le> 2 ^ 30"
  shows "\<exists>m'. insert_sorted_array item m a = Inr (m', a\<lparr>cur := cur a + 1\<rparr>)
    \<and> slots m' a (unat (cur a) + 1) = item # slots m a (unat (cur a))
    \<and> (cur a \<noteq> 0 \<longrightarrow> load32 m' (slot a (cur a + 1)) = load32 m (slot a (cur a)))
    \<and> (\<forall>x. \<not> in_range (array a) (4 * n) x \<longrightarrow> m' x = m x)"
proof -
  have k: "insert_pos m a item = 0" using assms(1) by (rule insert_pos_0)
  show ?thesis
    by (rule insert_live [OF assms(2,3), of item m])
      (simp add: k, metis gr0I unat_eq_zero)
qed

end

interpretation pointer_cmp: nonnegative_cmp cmp
  by unfold_locales (simp add: cmp_def)


lemma remove_live:
  assumes "array a \<noteq> 0" and "unat i < unat (cur a)" and "unat (cur a) < unat (arr_size a)" and "unat (arr_size a) \<le> 2 ^ 30"
  shows "\<exists>m'. remove_sorted_array i m a = Inr (m', a\<lparr>arr_size := arr_size a - 1\<rparr>)
    \<and> slots m' a (unat (arr_size a) - 1)
        = take (unat i) (slots m a (unat (arr_size a))) @ drop (unat i + 1) (slots m a (unat (arr_size a)))
    \<and> slots m' a (unat (cur a))
        = take (unat i) (slots m a (unat (cur a))) @ drop (unat i + 1) (slots m a (unat (cur a))) @ [load32 m (slot a (cur a))]
    \<and> (\<forall>x. \<not> in_range (array a) (4 * unat (arr_size a)) x \<longrightarrow> m' x = m x)"
proof -
  let ?i = "unat i" and ?c = "unat (cur a)" and ?n = "unat (arr_size a)"
  let ?xs = "slots m a ?n"
  have lt: "?i < ?n" using assms(2,3) by simp
  obtain m' where m': "remove_sorted_array i m a = Inr (m', a\<lparr>arr_size := arr_size a - 1\<rparr>)"
    and s: "slots m' a ?n = take ?i ?xs @ take (?n - (?i + 1)) (drop (?i + 1) ?xs) @ drop (?n - 1) ?xs"
    and fr: "\<forall>x. \<not> in_range (array a) (4 * ?n) x \<longrightarrow> m' x = m x"
    using remove_slots [OF assms(1) lt order_refl assms(4)] by blast
  have s': "slots m' a ?n = take ?i ?xs @ drop (?i + 1) ?xs @ drop (?n - 1) ?xs"
    using s by simp
  have "slots m' a (?n - 1) = take (?n - 1) (slots m' a ?n)" by (rule slots_prefix) simp
  then have 1: "slots m' a (?n - 1) = take ?i ?xs @ drop (?i + 1) ?xs"
    using lt by (simp add: s')
  have "slots m' a ?c = take ?c (slots m' a (?n - 1))" using assms(3) by (intro slots_prefix) simp
  also have "\<dots> = take ?i ?xs @ take (?c - ?i) (drop (?i + 1) ?xs)" unfolding 1 using assms(2) lt by simp
  also have "take (?c - ?i) (drop (?i + 1) ?xs) = drop (?i + 1) (take (?c + 1) ?xs)"
    using assms(2) by (simp add: drop_take)
  also have "take (?c + 1) ?xs = take ?c ?xs @ [?xs ! ?c]"
    using assms(3) by (simp add: take_Suc_conv_app_nth)
  also have "?xs ! ?c = load32 m (slot a (cur a))" using slots_nth [OF assms(3), of m] by simp
  finally have 2: "slots m' a ?c = take ?i (slots m a ?c) @ drop (?i + 1) (slots m a ?c) @ [load32 m (slot a (cur a))]"
    using assms(2,3) slots_prefix [of ?c ?n m a] by simp
  from m' 1 2 fr show ?thesis by blast
qed

section \<open>Properties\<close>

text \<open>
  With a comparison that tells smaller from not smaller, \<open>insert_sorted_array\<close> is
  insertion into a list ordered by the key, so the array stays sorted; bytes outside the first
  \<open>cur + 2\<close> words stay as they were.
\<close>

theorem insert_sorted_array_insort:
  fixes key :: "u32 \<Rightarrow> int"
  assumes "\<And>x y. cmp_fun a m x y < 0 \<longleftrightarrow> key x < key y"
    and "n = unat (cur a) + 2" and "n \<le> 2 ^ 30"
  shows "\<exists>m'. insert_sorted_array item m a = Inr (m', a\<lparr>cur := cur a + 1\<rparr>)
    \<and> slots m' a (unat (cur a) + 1) = insort_key key item (slots m a (unat (cur a)))
    \<and> (\<forall>x. \<not> in_range (array a) (4 * n) x \<longrightarrow> m' x = m x)"
proof -
  have "insert_pos m a item = length (takeWhile (\<lambda>x. key x < key item) (slots m a (unat (cur a))))"
    by (simp add: insert_pos_def assms(1))
  then show ?thesis
    using insert_live [of a n item m] assms(2,3) takeWhile_insort_key [where key = key] by (metis order_refl)
qed

definition small_array :: "cmp_fun_t \<Rightarrow> sorted_array_t" where
  "small_array f = \<lparr>array = 0x1000, arr_size = 4, cur = 2, cmp_fun = f\<rparr>"

definition small_memory :: memory where
  "small_memory = store32 (store32 (\<lambda>_. 0) 0x1000 3) 0x1004 5"

lemma small_slots: "slots small_memory (small_array f) 2 = [3, 5]"
  by (simp add: slots_def small_array_def raw.words_def upt_rec) code_simp

theorem insert_sorted_array_insort_witness:
  "\<exists>m'. insert_sorted_array 4 small_memory (small_array (\<lambda>m a b. if a < b then - 1 else 1))
        = Inr (m', small_array (\<lambda>m a b. if a < b then - 1 else 1)\<lparr>cur := 3\<rparr>)
    \<and> slots m' (small_array (\<lambda>m a b. if a < b then - 1 else 1)) 3 = [3, 4, 5]"
proof -
  let ?a = "small_array (\<lambda>m a b. if a < b then - 1 else 1)"
  have "cmp_fun ?a m x y < 0 \<longleftrightarrow> uint x < uint y" for m x y
    by (simp add: small_array_def word_less_def)
  moreover have c: "cur ?a = 2" by (simp add: small_array_def)
  ultimately show ?thesis
    using insert_sorted_array_insort [of ?a small_memory uint 4 4] by (auto simp: small_slots)
qed

text \<open>
  Property C35. The comparison \<open>cmp\<close> of this file gives 0 or 1, never a negative number, so
  \<open>insert_sorted_array\<close> with it does not sort: it always puts the item in front. Shifting the others
  it also writes the word after the new last entry, which is past the end of the array when the
  item fills it.
\<close>

theorem cmp_never_sorts:
  assumes "cmp_fun a = cmp" and "0 < unat (cur a)" and "unat (cur a) + 2 \<le> 2 ^ 30"
  shows "\<exists>m'. insert_sorted_array item m a = Inr (m', a\<lparr>cur := cur a + 1\<rparr>)
    \<and> slots m' a (unat (cur a) + 1) = item # slots m a (unat (cur a))
    \<and> load32 m' (slot a (cur a + 1)) = load32 m (slot a (cur a))"
proof -
  have "cur a \<noteq> 0" using assms(2) by auto
  then show ?thesis
    using pointer_cmp.insert_front [OF assms(1) order_refl assms(3), of item m] by blast
qed

theorem cmp_never_sorts_witness:
  "\<exists>m'. insert_sorted_array 9 small_memory (small_array cmp) = Inr (m', small_array cmp\<lparr>cur := 3\<rparr>)
    \<and> slots m' (small_array cmp) 3 = [9, 3, 5]
    \<and> load32 m' 0x100C = 0"
proof -
  have "load32 small_memory 0x1008 = 0" by code_simp
  then show ?thesis
    using cmp_never_sorts [of "small_array cmp" 9 small_memory] small_slots [of cmp]
    by (simp add: small_array_def slot_def)
qed

text \<open>
  \<open>remove_sorted_array\<close> with an index of the array closes the gap and lowers the
  capacity by one, but leaves the number of entries: the first \<open>cur\<close> words then end with the word
  that was one past the entries, which counts as an entry from then on.
\<close>

theorem remove_sorted_array_shrinks:
  assumes "array a \<noteq> 0" and "unat i < unat (cur a)" and "unat (cur a) < unat (arr_size a)" and "unat (arr_size a) \<le> 2 ^ 30"
  shows "\<exists>m'. remove_sorted_array i m a = Inr (m', a\<lparr>arr_size := arr_size a - 1\<rparr>)
    \<and> slots m' a (unat (arr_size a) - 1)
        = take (unat i) (slots m a (unat (arr_size a))) @ drop (unat i + 1) (slots m a (unat (arr_size a)))
    \<and> slots m' a (unat (cur a))
        = take (unat i) (slots m a (unat (cur a))) @ drop (unat i + 1) (slots m a (unat (cur a))) @ [load32 m (slot a (cur a))]
    \<and> (\<forall>x. \<not> in_range (array a) (4 * unat (arr_size a)) x \<longrightarrow> m' x = m x)"
  using assms by (rule remove_live)

theorem remove_sorted_array_shrinks_witness:
  "\<exists>m'. remove_sorted_array 0 small_memory (small_array cmp) = Inr (m', small_array cmp\<lparr>arr_size := 3\<rparr>)
    \<and> slots m' (small_array cmp) 2 = [5, 0]"
proof -
  have "load32 small_memory 0x1008 = 0" by code_simp
  then show ?thesis
    using remove_sorted_array_shrinks [of "small_array cmp" 0 small_memory] small_slots [of cmp]
    by (auto simp: small_array_def slot_def)
qed

text \<open>
  \<open>find_sorted_array\<close> reads the word at the index and nothing panics below the capacity,
  which does not look at the number of entries: an index between the two yields whatever word is there.
\<close>

theorem find_sorted_array_bounds:
  "find_sorted_array i m a =
    (if array a \<noteq> 0 \<and> unat i < unat (arr_size a) then Inr (slots m a (unat (arr_size a)) ! unat i)
     else kpanic (''error in find item in sorted array'' @ [CHR 0x0A]))"
  using slots_nth [of i "unat (arr_size a)" m a]
  by (auto simp: find_sorted_array_def word_le_nat_alt)

end
