(* ===== verification/Memory_State.thy ===== *)
theory Memory_State
  imports Sorted_Array Printf
begin

text \<open>
  The state the memory management of the kernel shares: the globals of \<open>src/src/page.c\<close>,
  \<open>src/src/kernel_malloc.c\<close> and \<open>src/src/kheap.c\<close>, and the heap's struct of \<open>src/src/kheap.h\<close>.

  \<open>mem\<close> is the kernel's address space: every page directory holds the kernel's own page tables, so
  the addresses the kernel uses mean the same under each. \<open>phys\<close> is the physical memory that
  \<open>copy_page_phy\<close> works on with paging switched off. Pages that are not mapped are not modelled:
  every address can be read and written. \<open>console\<close> is what \<open>printf\<close> was given to print, \<open>cr3\<close>
  and \<open>cr0\<close> are the processor's registers for the page directory and for paging, and \<open>if_flag\<close> tells
  whether interrupts are enabled.

  The record can be extended (\<open>'a kmem\<close>), as the state of the tasks does.
\<close>

section \<open>The state\<close>

record heap_t =
  index :: sorted_array_t
  start_address :: u32
  end_address :: u32
  max_address :: u32
  supervisor :: u8
  readonly :: u8

record kernel_memory =
  mem :: memory
  phys :: memory
  placement_address :: u32
  kheap :: "heap_t option"
  frames :: u32
  frames_bitmap_size :: u32
  vm_page_dir :: u32
  cur_vm_page_dir :: u32
  cr3 :: u32
  cr0 :: u32
  if_flag :: bool
  console :: "u8 list"

type_synonym 'a kmem = "'a kernel_memory_scheme"

text \<open>What a call of \<open>printf\<close> prints; the formatter is the one \<open>vprintf\<close> is proved to follow.\<close>

definition kprintf :: "string \<Rightarrow> arg list \<Rightarrow> 'a kmem \<Rightarrow> 'a kmem" where
  "kprintf fmt args s =
     s\<lparr>console := console s @ (case format (ascii fmt) args of Some xs \<Rightarrow> xs | None \<Rightarrow> [])\<rparr>"

definition poke :: "u32 \<Rightarrow> u32 \<Rightarrow> 'a kmem \<Rightarrow> 'a kmem" where
  "poke addr v s = s\<lparr>mem := store32 (mem s) addr v\<rparr>"

definition poke8 :: "u32 \<Rightarrow> u8 \<Rightarrow> 'a kmem \<Rightarrow> 'a kmem" where
  "poke8 addr v s = s\<lparr>mem := store8 (mem s) addr v\<rparr>"

definition peek :: "'a kmem \<Rightarrow> u32 \<Rightarrow> u32" where
  "peek s addr = load32 (mem s) addr"

lemma poke_frame [simp]:
  "phys (poke a v s) = phys s" "placement_address (poke a v s) = placement_address s"
  "kheap (poke a v s) = kheap s" "frames (poke a v s) = frames s"
  "frames_bitmap_size (poke a v s) = frames_bitmap_size s" "vm_page_dir (poke a v s) = vm_page_dir s"
  "cur_vm_page_dir (poke a v s) = cur_vm_page_dir s" "cr0 (poke a v s) = cr0 s" "if_flag (poke a v s) = if_flag s" "cr3 (poke a v s) = cr3 s"
  "console (poke a v s) = console s" "mem (poke a v s) = store32 (mem s) a v"
  "kernel_memory.more (poke a v s) = kernel_memory.more s"
  by (simp_all add: poke_def)

lemma poke8_frame [simp]:
  "phys (poke8 a b s) = phys s" "placement_address (poke8 a b s) = placement_address s"
  "kheap (poke8 a b s) = kheap s" "frames (poke8 a b s) = frames s"
  "frames_bitmap_size (poke8 a b s) = frames_bitmap_size s" "vm_page_dir (poke8 a b s) = vm_page_dir s"
  "cur_vm_page_dir (poke8 a b s) = cur_vm_page_dir s" "cr0 (poke8 a b s) = cr0 s" "if_flag (poke8 a b s) = if_flag s" "cr3 (poke8 a b s) = cr3 s"
  "console (poke8 a b s) = console s" "mem (poke8 a b s) = store8 (mem s) a b"
  "kernel_memory.more (poke8 a b s) = kernel_memory.more s"
  by (simp_all add: poke8_def)

lemma kprintf_frame [simp]:
  "phys (kprintf f as s) = phys s" "placement_address (kprintf f as s) = placement_address s"
  "kheap (kprintf f as s) = kheap s" "frames (kprintf f as s) = frames s"
  "frames_bitmap_size (kprintf f as s) = frames_bitmap_size s" "vm_page_dir (kprintf f as s) = vm_page_dir s"
  "cur_vm_page_dir (kprintf f as s) = cur_vm_page_dir s" "cr0 (kprintf f as s) = cr0 s" "if_flag (kprintf f as s) = if_flag s" "cr3 (kprintf f as s) = cr3 s"
  "mem (kprintf f as s) = mem s" "kernel_memory.more (kprintf f as s) = kernel_memory.more s"
  by (simp_all add: kprintf_def)

interpretation kernel: word_store peek "\<lambda>s a v. poke a v s"
  by unfold_locales (simp_all add: peek_def load32_store32_same load32_store32_apart)

section \<open>Bit fields\<close>

text \<open>
  A field of \<open>n\<close> bits from bit \<open>lo\<close> of a 32-bit word, as the compiler lays out the bit fields of
  \<open>page_struct\<close>.
\<close>

definition get_field :: "nat \<Rightarrow> nat \<Rightarrow> u32 \<Rightarrow> u32" where
  "get_field lo n w = take_bit n (drop_bit lo w)"

definition put_field :: "nat \<Rightarrow> nat \<Rightarrow> u32 \<Rightarrow> u32 \<Rightarrow> u32" where
  "put_field lo n v w = (w AND NOT (push_bit lo (mask n))) OR push_bit lo (take_bit n v)"

lemma get_put_same: "lo + n \<le> 32 \<Longrightarrow> get_field lo n (put_field lo n v w) = take_bit n v"
  by (rule bit_word_eqI) (auto simp: get_field_def put_field_def bit_simps)

lemma get_put_other:
  "lo + n \<le> lo' \<or> lo' + n' \<le> lo \<Longrightarrow> get_field lo n (put_field lo' n' v w) = get_field lo n w"
  by (rule bit_word_eqI) (auto simp: get_field_def put_field_def bit_simps dest: bit_imp_le_length)

lemma take_bit_small: "unat v < 2 ^ n \<Longrightarrow> take_bit n v = v" for v :: u32
  by (simp add: word_unat_eq_iff unat_take_bit_word)

lemma unat_get_field: "unat (get_field lo n w) = unat w div 2 ^ lo mod 2 ^ n"
  by (simp add: get_field_def unat_take_bit_word unat_drop_bit_div)

lemma unat_get_field_less: "unat (get_field lo n w) < 2 ^ n"
  by (simp add: unat_get_field)


section \<open>Fields at offsets from a base\<close>

text \<open>
  \<open>off b i\<close> is the address \<open>i\<close> bytes after \<open>b\<close>. Reads and writes at offsets are compared by
  arithmetic on the offsets; the rules are in \<open>off_simps\<close>.
\<close>

named_theorems off_simps

definition off :: "u32 \<Rightarrow> nat \<Rightarrow> u32" where
  "off b i = b + of_nat i"

lemma off_off: "off (off b i) j = off b (i + j)"
  by (simp add: off_def)

lemma off_apart:
  assumes "i + n \<le> j" and "j + k \<le> 2 ^ 32" and "0 < n" and "0 < k"
  shows "apart (off b i) n (off b j) k"
proof (rule apart_diff)
  show "off b j - off b i = of_nat (j - i)"
    using assms by (simp add: off_def of_nat_diff)
  show "k \<le> 2 ^ 32 - (j - i)" "j - i < 2 ^ 32" "n \<le> j - i" "0 < j - i" using assms by simp_all
qed

lemma in_range_1: "in_range a (Suc 0) x \<longleftrightarrow> x = a"
  by (simp add: in_range_def unat_eq_zero)

lemma off_load32 [off_simps]:
  "load32 (store32 m (off b i) v) (off b i) = v"
  "i + 4 \<le> j \<Longrightarrow> j + 4 \<le> 2 ^ 32 \<Longrightarrow> load32 (store32 m (off b i) v) (off b j) = load32 m (off b j)"
  "j + 4 \<le> i \<Longrightarrow> i + 4 \<le> 2 ^ 32 \<Longrightarrow> load32 (store32 m (off b i) v) (off b j) = load32 m (off b j)"
  "i + 1 \<le> j \<Longrightarrow> j + 4 \<le> 2 ^ 32 \<Longrightarrow> load32 (store8 m (off b i) c) (off b j) = load32 m (off b j)"
  "j + 4 \<le> i \<Longrightarrow> i + 1 \<le> 2 ^ 32 \<Longrightarrow> load32 (store8 m (off b i) c) (off b j) = load32 m (off b j)"
  using off_apart [of i 4 j 4 b] off_apart [of j 4 i 4 b] off_apart [of i 1 j 4 b] off_apart [of j 4 i 1 b]
    apart_in_range [of "off b j" 4 "off b i" 1 "off b i"]
  by (simp_all add: load32_store32_same load32_store32_apart load32_store8_apart apart_sym in_range_1)

lemma off_load8 [off_simps]:
  "load8 (store8 m (off b i) c) (off b i) = c"
  "i + 1 \<le> j \<Longrightarrow> j + 1 \<le> 2 ^ 32 \<Longrightarrow> load8 (store8 m (off b i) c) (off b j) = load8 m (off b j)"
  "j + 1 \<le> i \<Longrightarrow> i + 1 \<le> 2 ^ 32 \<Longrightarrow> load8 (store8 m (off b i) c) (off b j) = load8 m (off b j)"
  "i + 4 \<le> j \<Longrightarrow> j + 1 \<le> 2 ^ 32 \<Longrightarrow> load8 (store32 m (off b i) v) (off b j) = load8 m (off b j)"
  "j + 1 \<le> i \<Longrightarrow> i + 4 \<le> 2 ^ 32 \<Longrightarrow> load8 (store32 m (off b i) v) (off b j) = load8 m (off b j)"
  using off_apart [of i 1 j 1 b] off_apart [of j 1 i 1 b] off_apart [of i 4 j 1 b] off_apart [of j 1 i 4 b]
    apart_in_range [of "off b i" 1 "off b j" 1 "off b j"] apart_in_range [of "off b i" 4 "off b j" 1 "off b j"]
  by (auto simp: load8_store8 load8_store32_apart apart_sym in_range_1)

lemma in_range_off:
  assumes "in_range (off b i) k x" and "i + k \<le> n" and "n \<le> 2 ^ 32" and "0 < k"
  shows "in_range b n x"
proof -
  have u: "unat (of_nat i :: u32) = i" using assms by (intro unat_of_nat_small) simp
  have "x - b = (x - off b i) + of_nat i" by (simp add: off_def)
  then have "unat (x - b) \<le> unat (x - off b i) + i"
    using u by (metis unat_word_ariths(1) mod_less_eq_dividend)
  with assms show ?thesis by (simp add: in_range_def)
qed

lemma off_outside [off_simps]:
  "\<not> in_range b n x \<Longrightarrow> i + 4 \<le> n \<Longrightarrow> n \<le> 2 ^ 32 \<Longrightarrow> store32 m (off b i) v x = m x"
  "\<not> in_range b n x \<Longrightarrow> i + 1 \<le> n \<Longrightarrow> n \<le> 2 ^ 32 \<Longrightarrow> store8 m (off b i) c x = m x"
proof -
  assume a: "\<not> in_range b n x" and n: "n \<le> 2 ^ 32"
  show "store32 m (off b i) v x = m x" if "i + 4 \<le> n"
    using in_range_off [of b i 4 x n] a n that store32_other by auto
  show "store8 m (off b i) c x = m x" if "i + 1 \<le> n"
    using in_range_off [of b i 1 x n] a n that by (auto simp: store8_def in_range_1)
qed

end

