(* ===== verification/Frames.thy ===== *)
theory Frames
  imports Memory_State
begin

text \<open>
  The physical frames: the bitmap of \<open>src/src/page.c\<close>, its operations, and the two functions that
  give a frame to a page-table entry and take it back. A page-table entry is a word of memory,
  \<open>page_struct\<close>'s bit fields from bit 0 up.
\<close>

section \<open>The bitmap\<close>

definition INDEX_FROM_BITMAP :: "u32 \<Rightarrow> u32" where
  "INDEX_FROM_BITMAP x = x div 8"

definition OFFSET_FROM_BITMAP :: "u32 \<Rightarrow> u32" where
  "OFFSET_FROM_BITMAP x = x mod 8"

definition frame_mask :: "u32 \<Rightarrow> u8" where
  "frame_mask offset = drop_bit (unat offset) 0x80"

definition set_frame :: "u32 \<Rightarrow> 'a kmem \<Rightarrow> 'a kmem" where
  "set_frame frame_addr s =
     (let frame_index = frame_addr div 0x1000;
          idx = INDEX_FROM_BITMAP frame_index;
          offset = OFFSET_FROM_BITMAP frame_index
      in poke8 (frames s + idx) (load8 (mem s) (frames s + idx) OR frame_mask offset) s)"

definition clear_frame :: "u32 \<Rightarrow> 'a kmem \<Rightarrow> 'a kmem" where
  "clear_frame frame_addr s =
     (let frame_index = frame_addr div 0x1000;
          idx = INDEX_FROM_BITMAP frame_index;
          offset = OFFSET_FROM_BITMAP frame_index
      in poke8 (frames s + idx) (load8 (mem s) (frames s + idx) AND NOT (frame_mask offset)) s)"

definition isIn_frame :: "u32 \<Rightarrow> 'a kmem \<Rightarrow> u32" where
  "isIn_frame frame_addr s =
     (let frame_index = frame_addr div 0x1000;
          idx = INDEX_FROM_BITMAP frame_index;
          offset = OFFSET_FROM_BITMAP frame_index
      in ucast (load8 (mem s) (frames s + idx) AND frame_mask offset))"

text \<open>
  \<open>first_frame\<close>: the inner loop looks for a clear bit of a byte that is not full, most significant
  bit first, by comparing 32-bit words.
\<close>

definition free_bit :: "u8 \<Rightarrow> nat option" where
  "free_bit b = List.find (\<lambda>j. NOT (drop_bit j 0x80) OR ucast b \<noteq> (0xFFFFFFFF :: u32)) [0..<8]"

function first_frame_from :: "'a kmem \<Rightarrow> u32 \<Rightarrow> u32" where
  "first_frame_from s i =
     (if i < frames_bitmap_size s then
        if load8 (mem s) (frames s + i) = 0xFF then first_frame_from s (i + 1)
        else (case free_bit (load8 (mem s) (frames s + i)) of
                Some j \<Rightarrow> i * 8 + of_nat j
              | None \<Rightarrow> first_frame_from s (i + 1))
      else - 1)"
  by pat_completeness auto
termination
proof (relation "measure (\<lambda>(s, i). unat (frames_bitmap_size s) - unat i)")
  fix s :: "'a kmem" and i :: u32
  assume "i < frames_bitmap_size s"
  then have "unat i < unat (frames_bitmap_size s)" by (simp add: word_less_nat_alt)
  moreover from this have "unat (i + 1) = unat i + 1"
    using unat_u32_lt [of "frames_bitmap_size s"] by (simp add: unat_word_ariths)
  ultimately show "((s, i + 1), s, i) \<in> measure (\<lambda>(s, i). unat (frames_bitmap_size s) - unat i)"
    and "((s, i + 1), s, i) \<in> measure (\<lambda>(s, i). unat (frames_bitmap_size s) - unat i)"
    by simp_all
qed simp

declare first_frame_from.simps [simp del]

definition first_frame :: "'a kmem \<Rightarrow> u32" where
  "first_frame s = first_frame_from s 0"

text \<open>One character for each byte of the bitmap.\<close>

definition print_pages_status :: "'a kmem \<Rightarrow> 'a kmem" where
  "print_pages_status s =
     fold (\<lambda>i s. kprintf (if load8 (mem s) (frames s + of_nat i) = 0 then ''-'' else ''*'') [] s)
       [0..<unat (frames_bitmap_size s)] s"

section \<open>Page-table entries\<close>

abbreviation valid_of :: "u32 \<Rightarrow> u32" where "valid_of \<equiv> get_field 0 1"
abbreviation rw_of :: "u32 \<Rightarrow> u32" where "rw_of \<equiv> get_field 1 1"
abbreviation user_of :: "u32 \<Rightarrow> u32" where "user_of \<equiv> get_field 2 1"
abbreviation accessed_of :: "u32 \<Rightarrow> u32" where "accessed_of \<equiv> get_field 3 1"
abbreviation dirty_of :: "u32 \<Rightarrow> u32" where "dirty_of \<equiv> get_field 4 1"
abbreviation frame_of :: "u32 \<Rightarrow> u32" where "frame_of \<equiv> get_field 12 20"

definition set_valid :: "u32 \<Rightarrow> u32 \<Rightarrow> 'a kmem \<Rightarrow> 'a kmem" where
  "set_valid page v s = poke page (put_field 0 1 v (peek s page)) s"

definition set_rw :: "u32 \<Rightarrow> u32 \<Rightarrow> 'a kmem \<Rightarrow> 'a kmem" where
  "set_rw page v s = poke page (put_field 1 1 v (peek s page)) s"

definition set_user :: "u32 \<Rightarrow> u32 \<Rightarrow> 'a kmem \<Rightarrow> 'a kmem" where
  "set_user page v s = poke page (put_field 2 1 v (peek s page)) s"

definition set_accessed :: "u32 \<Rightarrow> u32 \<Rightarrow> 'a kmem \<Rightarrow> 'a kmem" where
  "set_accessed page v s = poke page (put_field 3 1 v (peek s page)) s"

definition set_dirty :: "u32 \<Rightarrow> u32 \<Rightarrow> 'a kmem \<Rightarrow> 'a kmem" where
  "set_dirty page v s = poke page (put_field 4 1 v (peek s page)) s"

definition set_page_frame :: "u32 \<Rightarrow> u32 \<Rightarrow> 'a kmem \<Rightarrow> 'a kmem" where
  "set_page_frame page v s = poke page (put_field 12 20 v (peek s page)) s"

definition alloc_frame :: "u32 \<Rightarrow> int \<Rightarrow> int \<Rightarrow> 'a kmem \<Rightarrow> 'a kmem" where
  "alloc_frame page is_kernel is_writable s =
     (if frame_of (peek s page) \<noteq> 0 then s
      else
        let frame_index = first_frame s;
            s = (if frame_index = - 1 then kprintf (''%s'' @ [CHR 0x0A]) [AStr (ascii ''[warning]No free frame...'')] s else s);
            s = set_frame (frame_index * 0x1000) s;
            s = set_valid page 1 s;
            s = set_rw page (if is_writable \<noteq> 0 then 1 else 0) s;
            s = set_user page (if is_kernel \<noteq> 0 then 0 else 1) s
        in set_page_frame page frame_index s)"

definition free_frame :: "u32 \<Rightarrow> 'a kmem \<Rightarrow> 'a kmem" where
  "free_frame page s =
     (if frame_of (peek s page) = 0 then s
      else set_page_frame page 0 (clear_frame (frame_of (peek s page)) s))"


section \<open>The bitmap as a set of frame numbers\<close>

definition used :: "'a kmem \<Rightarrow> nat \<Rightarrow> bool" where
  "used s k \<longleftrightarrow> bit (load8 (mem s) (frames s + of_nat (k div 8))) (7 - k mod 8)"

text \<open>The number of frames the bitmap has a bit for, and the largest bitmap the field \<open>frame\<close> can address.\<close>

definition frame_count :: "'a kmem \<Rightarrow> nat" where
  "frame_count s = 8 * unat (frames_bitmap_size s)"

definition bitmap_ok :: "'a kmem \<Rightarrow> bool" where
  "bitmap_ok s \<longleftrightarrow> frames_bitmap_size s \<le> 0x20000"

lemma bitmap_ok_count: "bitmap_ok s \<Longrightarrow> frame_count s \<le> 2 ^ 20"
  by (simp add: bitmap_ok_def frame_count_def word_le_nat_alt)

lemma frame_addr_index: "k < 2 ^ 20 \<Longrightarrow> (of_nat k * 0x1000 :: u32) div 0x1000 = of_nat k"
  by (rule word_unat_eq_iff [THEN iffD2]) (simp add: unat_div unat_word_ariths unat_of_nat_small)

lemma index_of_nat: "k < 2 ^ 32 \<Longrightarrow> INDEX_FROM_BITMAP (of_nat k) = of_nat (k div 8)"
  by (rule word_unat_eq_iff [THEN iffD2]) (simp add: INDEX_FROM_BITMAP_def unat_div unat_of_nat_small)

lemma offset_of_nat: "k < 2 ^ 32 \<Longrightarrow> unat (OFFSET_FROM_BITMAP (of_nat k)) = k mod 8"
  by (simp add: OFFSET_FROM_BITMAP_def unat_mod unat_of_nat_small)

lemma numeral_80: "(0x80 :: 'a::len word) = push_bit 7 1"
  by (simp add: push_bit_eq_mult)

lemma word_bits_iff: "x = y \<longleftrightarrow> (\<forall>n < LENGTH('a). bit x n = bit y n)" for x y :: "'a::len word"
  by (auto intro: bit_word_eqI)

lemma bit_80: "bit (0x80 :: 'a::len word) n \<longleftrightarrow> n = 7 \<and> 7 < LENGTH('a)"
  unfolding numeral_80 bit_push_bit_iff possible_bit_word by (auto simp only: bit_1_iff diff_is_0_eq)

lemma bit_frame_mask: "unat d < 8 \<Longrightarrow> bit (frame_mask d) n \<longleftrightarrow> n = 7 - unat d"
  unfolding frame_mask_def bit_drop_bit_eq comp_def bit_80 by auto

lemma used_byte:
  assumes "k < 2 ^ 20" and "j < 2 ^ 20"
  shows "frames s + of_nat (k div 8) = frames s + (of_nat (j div 8) :: u32) \<longleftrightarrow> k div 8 = j div 8"
proof -
  have "unat (of_nat i :: u32) = i" if "i < 2 ^ 20" for i
    using that by (intro unat_of_nat_small) simp
  from this [of "k div 8"] this [of "j div 8"]
  have "unat (of_nat (k div 8) :: u32) = k div 8" "unat (of_nat (j div 8) :: u32) = j div 8"
    using assms by linarith+
  then show ?thesis by (metis add_left_cancel)
qed

lemma same_bit:
  fixes k j :: nat
  assumes "k div 8 = j div 8"
  shows "7 - k mod 8 = 7 - j mod 8 \<longleftrightarrow> k = j"
proof
  assume "7 - k mod 8 = 7 - j mod 8"
  moreover have "k mod 8 < 8" "j mod 8 < 8" by simp_all
  ultimately have "k mod 8 = j mod 8" by linarith
  with assms show "k = j" by (metis div_mult_mod_eq)
qed simp

lemma used_set_frame:
  assumes "k < 2 ^ 20" and "j < 2 ^ 20"
  shows "used (set_frame (of_nat k * 0x1000) s) j \<longleftrightarrow> j = k \<or> used s j"
proof -
  have "bit (frame_mask (OFFSET_FROM_BITMAP (of_nat k))) (7 - j mod 8) \<longleftrightarrow> 7 - j mod 8 = 7 - k mod 8"
    using assms(1) by (subst bit_frame_mask) (simp_all add: offset_of_nat)
  then show ?thesis
    using assms same_bit [of j k] used_byte [OF assms, of s]
    by (auto simp: used_def set_frame_def Let_def frame_addr_index index_of_nat mem_simps bit_or_iff)
qed

lemma used_clear_frame:
  assumes "k < 2 ^ 20" and "j < 2 ^ 20"
  shows "used (clear_frame (of_nat k * 0x1000) s) j \<longleftrightarrow> j \<noteq> k \<and> used s j"
proof -
  have "bit (frame_mask (OFFSET_FROM_BITMAP (of_nat k))) (7 - j mod 8) \<longleftrightarrow> 7 - j mod 8 = 7 - k mod 8"
    using assms(1) by (subst bit_frame_mask) (simp_all add: offset_of_nat)
  then show ?thesis
    using assms same_bit [of j k] used_byte [OF assms, of s]
    by (auto simp: used_def clear_frame_def Let_def frame_addr_index index_of_nat mem_simps bit_and_iff bit_not_iff)
qed

lemma isIn_frame_used: "k < 2 ^ 20 \<Longrightarrow> isIn_frame (of_nat k * 0x1000) s \<noteq> 0 \<longleftrightarrow> used s k"
proof -
  assume k: "k < 2 ^ 20"
  have b: "bit (frame_mask (OFFSET_FROM_BITMAP (of_nat k))) n \<longleftrightarrow> n = 7 - k mod 8" for n
    using k by (subst bit_frame_mask) (simp_all add: offset_of_nat)
  have "ucast c = (0 :: u32) \<longleftrightarrow> c = 0" for c :: u8
  proof -
    have "n < 8 \<and> n < 32" if "bit c n" for n using bit_imp_le_length [OF that] by simp
    then show ?thesis by (auto simp: word_bits_iff bit_unsigned_iff)
  qed
  then have z: "ucast c = (0 :: u32) \<longleftrightarrow> (\<forall>n. \<not> bit c n)" for c :: u8
    by (auto intro: bit_word_eqI)
  have "isIn_frame (of_nat k * 0x1000) s =
      ucast (load8 (mem s) (frames s + of_nat (k div 8)) AND frame_mask (OFFSET_FROM_BITMAP (of_nat k)))"
    using k by (simp only: isIn_frame_def Let_def frame_addr_index index_of_nat) (simp add: index_of_nat)
  then show ?thesis by (simp only: z bit_and_iff b used_def) blast
qed

lemma free_bit_test: "j < 8 \<Longrightarrow> NOT (drop_bit j 0x80) OR ucast b \<noteq> (0xFFFFFFFF :: u32) \<longleftrightarrow> \<not> bit b (7 - j)" for b :: u8
proof -
  assume j: "j < 8"
  have m: "(0xFFFFFFFF :: u32) = - 1" by simp
  have d: "bit (drop_bit j (0x80 :: u32)) n \<longleftrightarrow> n = 7 - j" for n
    unfolding bit_drop_bit_eq comp_def bit_80 using j by auto
  have "NOT (drop_bit j 0x80) OR ucast b = (- 1 :: u32) \<longleftrightarrow> bit b (7 - j)"
    using j by (auto simp: word_bits_iff bit_or_iff bit_not_iff d bit_unsigned_iff) 
  then show ?thesis unfolding m by blast
qed

lemma free_bit_Some:
  assumes "free_bit b = Some j"
  shows "j < 8" and "\<not> bit b (7 - j)" and "\<And>i. i < j \<Longrightarrow> bit b (7 - i)"
  using assms free_bit_test unfolding free_bit_def find_Some_iff by fastforce+

lemma free_bit_None: "free_bit b = None \<longleftrightarrow> b = 0xFF"
proof -
  have "free_bit b = None \<longleftrightarrow> (\<forall>j < 8. bit b (7 - j))"
    using free_bit_test [of _ b] by (auto simp: free_bit_def find_None_iff)
  also have "\<dots> \<longleftrightarrow> (\<forall>n < 8. bit b n)"
    by (auto simp: numeral_eq_Suc All_less_Suc)
  also have "\<dots> \<longleftrightarrow> b = - 1" by (auto simp: word_bits_iff)
  also have "(- 1 :: u8) = 0xFF" by simp
  finally show ?thesis .
qed

lemma used_in_byte: "j < 8 \<Longrightarrow> used s (8 * i + j) \<longleftrightarrow> bit (load8 (mem s) (frames s + of_nat i)) (7 - j)"
  by (simp add: used_def)

lemma byte_full_used:
  assumes "load8 (mem s) (frames s + i) = 0xFF" and "8 * unat i \<le> k" and "k < 8 * unat i + 8"
  shows "used s k"
proof -
  obtain j where j: "k = 8 * unat i + j" "j < 8" using assms(2,3) by (metis add_less_cancel_left le_iff_add)
  have "(0xFF :: u8) = - 1" by simp
  then have "bit (0xFF :: u8) (7 - j)" by (simp only: bit_minus_1_iff possible_bit_word) simp
  with j assms(1) show ?thesis by (simp only: used_in_byte) (simp only: assms(1) of_nat_unat ucast_id)
qed

lemma first_frame_from_spec:
  assumes "bitmap_ok s" and "unat i \<le> unat (frames_bitmap_size s)"
  shows "(\<exists>k. first_frame_from s i = of_nat k \<and> 8 * unat i \<le> k \<and> k < frame_count s \<and> \<not> used s k
            \<and> (\<forall>j. 8 * unat i \<le> j \<and> j < k \<longrightarrow> used s j))
    \<or> (first_frame_from s i = - 1 \<and> (\<forall>j. 8 * unat i \<le> j \<and> j < frame_count s \<longrightarrow> used s j))"
  using assms
proof (induction s i rule: first_frame_from.induct)
  case (1 s i)
  let ?b = "load8 (mem s) (frames s + i)"
  have "unat (frames_bitmap_size s) \<le> 0x20000" using "1.prems"(1) by (simp add: bitmap_ok_def word_le_nat_alt)
  show ?case
  proof (cases "i < frames_bitmap_size s")
    case False
    then have "frame_count s \<le> 8 * unat i" by (simp add: frame_count_def word_less_nat_alt)
    moreover have "first_frame_from s i = - 1" using False by (subst first_frame_from.simps) simp
    ultimately show ?thesis by auto
  next
    case True
    then have i: "unat i < unat (frames_bitmap_size s)" by (simp add: word_less_nat_alt)
    then have ni: "unat (i + 1) = unat i + 1"
      using unat_u32_lt [of "frames_bitmap_size s"] by (simp add: unat_word_ariths)
    show ?thesis
    proof (cases "free_bit ?b")
      case None
      then have full: "?b = 0xFF" by (simp add: free_bit_None)
      then have eq: "first_frame_from s i = first_frame_from s (i + 1)"
        using True by (subst first_frame_from.simps) simp
      have skip: "used s j" if "8 * unat i \<le> j" "\<not> 8 * unat (i + 1) \<le> j" for j
        using that byte_full_used [OF full] ni by auto
      have le: "8 * unat i \<le> k" if "8 * unat (i + 1) \<le> k" for k using that ni by simp
      have "unat (i + 1) \<le> unat (frames_bitmap_size s)" using i ni by simp
      from "1.IH"(1) [OF True full "1.prems"(1) this] show ?thesis
        unfolding eq using skip le by blast
    next
      case (Some j)
      note fb = free_bit_Some [OF Some]
      have "?b \<noteq> 0xFF" using Some free_bit_None [of ?b] by auto
      then have eq: "first_frame_from s i = i * 8 + of_nat j"
        using True Some by (subst first_frame_from.simps) simp
      have "i * 8 + of_nat j = (of_nat (8 * unat i + j) :: u32)" by (simp add: mult.commute)
      moreover have "\<not> used s (8 * unat i + j)" using fb by (simp add: used_in_byte)
      moreover have "8 * unat i + j < frame_count s" using i fb(1) by (simp add: frame_count_def)
      moreover have "used s l" if "8 * unat i \<le> l" and "l < 8 * unat i + j" for l
      proof -
        obtain d where d: "l = 8 * unat i + d" using \<open>8 * unat i \<le> l\<close> le_Suc_ex by blast
        with \<open>l < 8 * unat i + j\<close> have "d < j" by simp
        then show ?thesis using d used_in_byte [of d s "unat i"] fb by simp
      qed
      ultimately show ?thesis unfolding eq by (metis le_add1)
    qed
  qed
qed

lemma first_frame_cases:
  assumes "bitmap_ok s"
  obtains (free) k where "first_frame s = of_nat k" "k < frame_count s" "\<not> used s k" "\<And>j. j < k \<Longrightarrow> used s j"
  | (full) "first_frame s = - 1" "\<And>j. j < frame_count s \<Longrightarrow> used s j"
  using first_frame_from_spec [OF assms, of 0] unfolding first_frame_def by auto


text \<open>The same search on the set of used frame numbers.\<close>

definition lowest_free :: "'a kmem \<Rightarrow> nat option" where
  "lowest_free s = List.find (\<lambda>k. \<not> used s k) [0..<frame_count s]"

lemma lowest_free_Some:
  "lowest_free s = Some k \<longleftrightarrow> k < frame_count s \<and> \<not> used s k \<and> (\<forall>j < k. used s j)"
  by (auto simp: lowest_free_def find_Some_iff)

lemma lowest_free_None: "lowest_free s = None \<longleftrightarrow> (\<forall>k < frame_count s. used s k)"
  by (auto simp: lowest_free_def find_None_iff)

section \<open>Page-table entries and the bitmap side by side\<close>

text \<open>The entry at \<open>page\<close> shares no byte with the bitmap.\<close>

definition off_bitmap :: "'a kmem \<Rightarrow> u32 \<Rightarrow> bool" where
  "off_bitmap s page \<longleftrightarrow> (\<forall>i < unat (frames_bitmap_size s). \<not> in_range page 4 (frames s + of_nat i))"

text \<open>What the operations on a page-table entry leave alone, apart from the memory.\<close>

definition same_registers :: "'a kmem \<Rightarrow> 'a kmem \<Rightarrow> bool" where
  "same_registers s t \<longleftrightarrow> phys t = phys s \<and> placement_address t = placement_address s \<and> kheap t = kheap s
     \<and> frames t = frames s \<and> frames_bitmap_size t = frames_bitmap_size s \<and> vm_page_dir t = vm_page_dir s
     \<and> cur_vm_page_dir t = cur_vm_page_dir s \<and> cr3 t = cr3 s \<and> cr0 t = cr0 s
     \<and> if_flag t = if_flag s \<and> kernel_memory.more t = kernel_memory.more s"

lemma same_registers_refl [simp]: "same_registers s s"
  by (simp add: same_registers_def)

lemma same_registers_trans: "same_registers s t \<Longrightarrow> same_registers t u \<Longrightarrow> same_registers s u"
  by (simp add: same_registers_def)

lemma same_registersD:
  assumes "same_registers s t"
  shows "phys t = phys s" "placement_address t = placement_address s" "kheap t = kheap s"
    "frames t = frames s" "frames_bitmap_size t = frames_bitmap_size s" "vm_page_dir t = vm_page_dir s"
    "cur_vm_page_dir t = cur_vm_page_dir s" "cr3 t = cr3 s" "cr0 t = cr0 s" "if_flag t = if_flag s"
    "kernel_memory.more t = kernel_memory.more s"
  using assms by (auto simp: same_registers_def)

lemma used_cong:
  assumes "\<And>i. i < unat (frames_bitmap_size s) \<Longrightarrow> mem t (frames s + of_nat i) = mem s (frames s + of_nat i)"
    and "frames t = frames s" and "k < frame_count s"
  shows "used t k \<longleftrightarrow> used s k"
proof -
  have "k div 8 < unat (frames_bitmap_size s)" using assms(3) by (simp add: frame_count_def div_less_iff_less_mult)
  then show ?thesis using assms(1,2) by (simp add: used_def load8_def)
qed

lemma used_poke:
  "off_bitmap s page \<Longrightarrow> k < frame_count s \<Longrightarrow> used (poke page v s) k \<longleftrightarrow> used s k"
  by (rule used_cong) (simp_all add: off_bitmap_def store32_other)

text \<open>The word an entry holds after an allocation, and the whole effect of one.\<close>

definition entry_word :: "u32 \<Rightarrow> int \<Rightarrow> int \<Rightarrow> u32 \<Rightarrow> u32" where
  "entry_word w is_kernel is_writable f =
     put_field 12 20 f (put_field 2 1 (if is_kernel \<noteq> 0 then 0 else 1)
       (put_field 1 1 (if is_writable \<noteq> 0 then 1 else 0) (put_field 0 1 1 w)))"

lemma entry_word_fields:
  "frame_of (entry_word w k r f) = take_bit 20 f"
  "valid_of (entry_word w k r f) = 1"
  "rw_of (entry_word w k r f) = (if r \<noteq> 0 then 1 else 0)"
  "user_of (entry_word w k r f) = (if k \<noteq> 0 then 0 else 1)"
  "accessed_of (entry_word w k r f) = accessed_of w"
  "dirty_of (entry_word w k r f) = dirty_of w"
  by (simp_all add: entry_word_def get_put_same get_put_other)

lemma poke_poke: "poke a v (poke a w s) = poke a v s"
  by (rule kernel_memory.equality) (auto simp: poke_def store32_def fun_eq_iff)

lemma peek_poke_same: "peek (poke a v s) a = v"
  by (simp add: kernel.rd_wr_same)

lemma entry_writes:
  "set_page_frame page f (set_user page (if k \<noteq> 0 then 0 else 1) (set_rw page (if r \<noteq> 0 then 1 else 0) (set_valid page 1 s)))
     = poke page (entry_word (peek s page) k r f) s" for k r :: int
  by (simp add: set_page_frame_def set_user_def set_rw_def set_valid_def poke_poke peek_poke_same entry_word_def
      del: poke_frame)

lemma peek_off_bitmap:
  assumes "off_bitmap s page" and "k < frame_count s" and "frame_count s \<le> 2 ^ 20"
  shows "peek (set_frame (of_nat k * 0x1000) s) page = peek s page"
    and "peek (clear_frame (of_nat k * 0x1000) s) page = peek s page"
proof -
  have i: "k div 8 < unat (frames_bitmap_size s)" using assms(2) by (simp add: frame_count_def div_less_iff_less_mult)
  have k: "k < 2 ^ 20" using assms(2,3) by simp
  from i assms(1) have "\<not> in_range page 4 (frames s + of_nat (k div 8))" by (simp add: off_bitmap_def)
  then show "peek (set_frame (of_nat k * 0x1000) s) page = peek s page"
    and "peek (clear_frame (of_nat k * 0x1000) s) page = peek s page"
    using k by (simp_all add: peek_def set_frame_def clear_frame_def Let_def frame_addr_index index_of_nat load32_store8_apart)
qed

lemma set_frame_frame [simp]:
  "frames (set_frame f s) = frames s" "frames_bitmap_size (set_frame f s) = frames_bitmap_size s"
  "frames (clear_frame f s) = frames s" "frames_bitmap_size (clear_frame f s) = frames_bitmap_size s"
  by (simp_all add: set_frame_def clear_frame_def Let_def)

lemma alloc_frame_free:
  assumes "bitmap_ok s" and "off_bitmap s page" and "frame_of (peek s page) = 0" and "lowest_free s = Some k"
  shows "alloc_frame page i w s =
      poke page (entry_word (peek s page) i w (of_nat k)) (set_frame (of_nat k * 0x1000) s)"
proof -
  have k: "k < frame_count s" "\<not> used s k" "\<And>j. j < k \<Longrightarrow> used s j"
    using assms(4) by (auto simp: lowest_free_Some)
  have c: "frame_count s \<le> 2 ^ 20" by (rule bitmap_ok_count [OF assms(1)])
  from assms(1) show ?thesis
  proof (cases rule: first_frame_cases)
    case (free l)
    then have "l = k" using k by (metis nat_neq_iff)
    have "unat (of_nat k :: u32) = k" using k(1) c by (intro unat_of_nat_small) simp
    then have "(of_nat k :: u32) \<noteq> - 1" using k(1) c by (auto simp: unsigned_minus_1_eq_mask mask_eq_exp_minus_1)
    then show ?thesis
      using assms(3) free(1) \<open>l = k\<close> peek_off_bitmap(1) [OF assms(2) k(1) c]
      by (simp add: alloc_frame_def Let_def entry_writes del: poke_frame)
  next
    case full
    with k show ?thesis by blast
  qed
qed


section \<open>A pool of frames\<close>

text \<open>
  What the code that fills page tables relies on: an allocation for an empty entry takes the lowest
  frame that is not taken, stores its number in the entry, and changes no other entry.
\<close>

locale frame_pool =
  fixes taken :: "'s \<Rightarrow> nat set"
    and count :: "'s \<Rightarrow> nat"
    and alloc :: "'p \<Rightarrow> 's \<Rightarrow> 's"
    and entry :: "'s \<Rightarrow> 'p \<Rightarrow> nat"
    and ok :: "'s \<Rightarrow> 'p \<Rightarrow> bool"
    and separate :: "'p \<Rightarrow> 'p \<Rightarrow> bool"
  assumes taken_count: "taken s \<subseteq> {..<count s}"
    and alloc_lowest: "ok s p \<Longrightarrow> entry s p = 0 \<Longrightarrow> {..<count s} - taken s \<noteq> {} \<Longrightarrow>
      \<exists>k. k \<in> {..<count s} - taken s \<and> {..<k} \<subseteq> taken s \<and> entry (alloc p s) p = k
        \<and> taken (alloc p s) = insert k (taken s)"
    and alloc_other: "ok s p \<Longrightarrow> entry s p = 0 \<Longrightarrow> {..<count s} - taken s \<noteq> {} \<Longrightarrow> ok s q \<Longrightarrow> separate p q \<Longrightarrow>
      entry (alloc p s) q = entry s q"
    and separate_sym: "separate p q \<Longrightarrow> separate q p"
    and alloc_keeps: "ok s p \<Longrightarrow> count (alloc p s) = count s"
      "ok s p \<Longrightarrow> ok s q \<Longrightarrow> ok (alloc p s) q"
begin

text \<open>Allocating for a list of empty entries gives each a frame of its own that was free before.\<close>

lemma allocs_distinct:
  assumes "\<forall>p \<in> set ps. ok s p \<and> entry s p = 0" and "sorted_wrt separate ps"
    and "card (taken s) + length ps \<le> count s"
  shows "let t = fold alloc ps s in
    distinct (List.map (entry t) ps) \<and> entry t ` set ps \<inter> taken s = {}
    \<and> taken t = taken s \<union> entry t ` set ps \<and> count t = count s
    \<and> (\<forall>q. ok s q \<and> (\<forall>p \<in> set ps. separate p q) \<longrightarrow> entry t q = entry s q)"
  using assms
proof (induction ps arbitrary: s)
  case (Cons p ps)
  have p: "ok s p" "entry s p = 0" using Cons.prems(1) by simp_all
  have "card (taken s) < card {..<count s}" using Cons.prems(3) by simp
  then have ne: "{..<count s} - taken s \<noteq> {}"
    by (metis Diff_eq_empty_iff finite_lessThan card_mono finite_subset linorder_not_less taken_count)
  obtain k where k: "k \<in> {..<count s} - taken s" "entry (alloc p s) p = k" "taken (alloc p s) = insert k (taken s)"
    using alloc_lowest [OF p ne] by blast
  let ?s = "alloc p s" and ?t = "fold alloc ps (alloc p s)"
  have fin: "finite (taken s)" using finite_subset [OF taken_count] by blast
  have rest: "\<forall>q \<in> set ps. ok ?s q \<and> entry ?s q = 0"
    using Cons.prems(1,2) alloc_other [OF p ne] alloc_keeps(2) [OF p(1)] by auto
  have IH: "distinct (List.map (entry ?t) ps)" "entry ?t ` set ps \<inter> taken ?s = {}"
    "taken ?t = taken ?s \<union> entry ?t ` set ps" "count ?t = count ?s"
    "\<And>q. ok ?s q \<Longrightarrow> (\<forall>p \<in> set ps. separate p q) \<Longrightarrow> entry ?t q = entry ?s q"
    using Cons.IH [of ?s] rest Cons.prems(2,3) k fin alloc_keeps(1) [OF p(1)] by (simp_all add: Let_def)
  have "\<forall>q \<in> set ps. separate q p" using Cons.prems(2) separate_sym by simp
  then have "entry ?t p = k" using IH(5) alloc_keeps(2) [OF p(1) p(1)] k(2) by simp
  then show ?case using IH k alloc_keeps [OF p(1)] alloc_other [OF p ne] by (auto simp: Let_def)
qed simp

end

definition frame_set :: "'a kmem \<Rightarrow> nat set" where
  "frame_set s = {k. k < frame_count s \<and> used s k}"

definition entry_frame :: "'a kmem \<Rightarrow> u32 \<Rightarrow> nat" where
  "entry_frame s page = unat (frame_of (peek s page))"

definition entry_ok :: "'a kmem \<Rightarrow> u32 \<Rightarrow> bool" where
  "entry_ok s page \<longleftrightarrow> bitmap_ok s \<and> off_bitmap s page"

definition entries_apart :: "u32 \<Rightarrow> u32 \<Rightarrow> bool" where
  "entries_apart p q \<longleftrightarrow> apart p 4 q 4"

lemma entry_frame_0: "entry_frame s page = 0 \<longleftrightarrow> frame_of (peek s page) = 0"
  by (simp add: entry_frame_def unat_eq_zero)

lemma frame_set_full: "lowest_free s = None \<longleftrightarrow> {..<frame_count s} - frame_set s = {}"
  by (auto simp: lowest_free_None frame_set_def)

lemma alloc_frame_used:
  assumes "entry_ok s page" and "entry_frame s page = 0" and "lowest_free s = Some k"
  shows "frame_set (alloc_frame page i w s) = insert k (frame_set s)"
    and "peek (alloc_frame page i w s) page = entry_word (peek s page) i w (of_nat k)"
    and "entry_frame (alloc_frame page i w s) page = k"
    and "entry_ok s q \<Longrightarrow> entries_apart page q \<Longrightarrow> peek (alloc_frame page i w s) q = peek s q"
proof -
  have ok: "bitmap_ok s" "off_bitmap s page" using assms(1) by (simp_all add: entry_ok_def)
  have fc: "frame_count s \<le> 2 ^ 20" by (rule bitmap_ok_count [OF ok(1)])
  have k: "k < frame_count s" using assms(3) by (simp add: lowest_free_Some)
  then have k20: "k < 2 ^ 20" using fc by simp
  let ?t = "set_frame (of_nat k * 0x1000) s"
  have eq: "alloc_frame page i w s = poke page (entry_word (peek s page) i w (of_nat k)) ?t"
    using ok assms(2,3) by (intro alloc_frame_free) (simp_all add: entry_frame_0)
  have off: "off_bitmap ?t page" using ok(2) by (simp add: off_bitmap_def)
  have cnt: "frame_count ?t = frame_count s" by (simp add: frame_count_def)
  have "used (alloc_frame page i w s) j \<longleftrightarrow> j = k \<or> used s j" if "j < frame_count s" for j
    using used_poke [OF off, of j] that cnt used_set_frame [OF k20, of j s] fc by (simp add: eq)
  moreover have "frame_count (alloc_frame page i w s) = frame_count s" by (simp add: eq frame_count_def)
  ultimately show "frame_set (alloc_frame page i w s) = insert k (frame_set s)"
    using k by (auto simp: frame_set_def)
  show "peek (alloc_frame page i w s) page = entry_word (peek s page) i w (of_nat k)"
    by (simp add: eq peek_poke_same)
  then show "entry_frame (alloc_frame page i w s) page = k"
    using k20 by (simp add: entry_frame_def entry_word_fields unat_take_bit_word unat_of_nat_small)
  show "peek (alloc_frame page i w s) q = peek s q" if "entry_ok s q" "entries_apart page q"
    using that kernel.rd_wr_apart [of page q _ ?t] peek_off_bitmap(1) [of s q k] k fc
    by (simp add: eq entry_ok_def entries_apart_def del: poke_frame)
qed

lemma set_frame_registers: "same_registers s (set_frame f s)" "same_registers s (clear_frame f s)"
  by (simp_all add: same_registers_def set_frame_def clear_frame_def Let_def)

lemma same_registers_poke: "same_registers s (poke a v s)"
  by (simp add: same_registers_def)

lemma same_registers_kprintf: "same_registers s (kprintf f as s)"
  by (simp add: same_registers_def)

lemma same_registers_if: "same_registers s t \<Longrightarrow> same_registers s (if b then t else s)"
  by simp

lemma alloc_frame_registers: "same_registers s (alloc_frame page i w s)"
proof (cases "frame_of (peek s page) = 0")
  case True
  let ?w = "if first_frame s = - 1 then kprintf (''%s'' @ [CHR 0x0A]) [AStr (ascii ''[warning]No free frame...'')] s else s"
  let ?t = "set_frame (first_frame s * 0x1000) ?w"
  have eq: "alloc_frame page i w s = poke page (entry_word (peek ?t page) i w (first_frame s)) ?t"
    using True by (simp add: alloc_frame_def Let_def entry_writes del: poke_frame)
  have "same_registers s ?w" by (simp add: same_registers_kprintf)
  then show ?thesis
    unfolding eq by (intro same_registers_trans [OF _ same_registers_trans [OF set_frame_registers(1) same_registers_poke]])
qed (simp add: alloc_frame_def)

lemma free_frame_registers: "same_registers s (free_frame page s)"
  by (auto simp: free_frame_def set_page_frame_def intro: same_registers_trans same_registers_poke set_frame_registers)

lemmas alloc_frame_simps [simp] = same_registersD [OF alloc_frame_registers]
lemmas free_frame_simps [simp] = same_registersD [OF free_frame_registers]

lemma alloc_frame_ok [simp]:
  "frame_count (alloc_frame p i w s) = frame_count s"
  "entry_ok (alloc_frame p i w s) q \<longleftrightarrow> entry_ok s q"
  by (simp_all add: frame_count_def entry_ok_def bitmap_ok_def off_bitmap_def)

interpretation pool: frame_pool frame_set frame_count "\<lambda>page. alloc_frame page i w" entry_frame entry_ok entries_apart
  for i w :: int
proof (unfold_locales, goal_cases)
  case (1 s)
  then show ?case by (auto simp: frame_set_def)
next
  case (2 s p)
  then obtain k where "lowest_free s = Some k" using frame_set_full [of s] by (cases "lowest_free s") auto
  then show ?case
    using alloc_frame_used [OF 2(1,2)] by (intro exI [of _ k]) (auto simp: frame_set_def lowest_free_Some)
next
  case (3 s p q)
  then obtain k where "lowest_free s = Some k" using frame_set_full [of s] by (cases "lowest_free s") auto
  then show ?case using alloc_frame_used(4) [OF 3(1,2) _ 3(4,5)] by (simp add: entry_frame_def)
next
  case (4 p q)
  then show ?case by (simp add: entries_apart_def apart_sym)
next
  case (5 s p)
  show ?case by simp
next
  case (6 s p q)
  then show ?case by simp
qed


section \<open>Properties\<close>

lemma bitmap_set_laws:
  fixes s :: "'a kmem"
  assumes "bitmap_ok s" and "k < frame_count s"
  shows "frame_set (set_frame (of_nat k * 0x1000) s) = insert k (frame_set s)"
    and "frame_set (clear_frame (of_nat k * 0x1000) s) = frame_set s - {k}"
    and "isIn_frame (of_nat k * 0x1000) s \<noteq> 0 \<longleftrightarrow> k \<in> frame_set s"
    and "first_frame s = (case lowest_free s of Some l \<Rightarrow> of_nat l | None \<Rightarrow> - 1)"
proof -
  have fc: "frame_count s \<le> 2 ^ 20" by (rule bitmap_ok_count [OF assms(1)])
  then have k: "k < 2 ^ 20" using assms(2) by simp
  have cnt: "frame_count (set_frame (of_nat k * 0x1000) s) = frame_count s"
    "frame_count (clear_frame (of_nat k * 0x1000) s) = frame_count s" by (simp_all add: frame_count_def)
  show "frame_set (set_frame (of_nat k * 0x1000) s) = insert k (frame_set s)"
    "frame_set (clear_frame (of_nat k * 0x1000) s) = frame_set s - {k}"
    using used_set_frame [OF k, of _ s] used_clear_frame [OF k, of _ s] fc assms(2) cnt
    by (auto simp: frame_set_def)
  show "isIn_frame (of_nat k * 0x1000) s \<noteq> 0 \<longleftrightarrow> k \<in> frame_set s"
    using isIn_frame_used [OF k, of s] assms(2) by (simp add: frame_set_def)
  show "first_frame s = (case lowest_free s of Some l \<Rightarrow> of_nat l | None \<Rightarrow> - 1)"
    using assms(1)
  proof (cases rule: first_frame_cases)
    case (free l)
    then have "lowest_free s = Some l" by (simp add: lowest_free_Some)
    with free show ?thesis by simp
  next
    case full
    then have "lowest_free s = None" by (simp add: lowest_free_None)
    with full show ?thesis by simp
  qed
qed

text \<open>
  Property C27. \<open>set_frame\<close>, \<open>clear_frame\<close> and \<open>isIn_frame\<close>, called with the address of a frame, add its
  number to the set the bitmap stands for, remove it, and test for it; \<open>first_frame\<close> is the least
  number not in the set, and -1 when all are.
\<close>

theorem bitmap_is_a_set:
  fixes s :: "'a kmem"
  assumes "bitmap_ok s" and "k < frame_count s"
  shows "frame_set (set_frame (of_nat k * 0x1000) s) = insert k (frame_set s)
    \<and> frame_set (clear_frame (of_nat k * 0x1000) s) = frame_set s - {k}
    \<and> (isIn_frame (of_nat k * 0x1000) s \<noteq> 0 \<longleftrightarrow> k \<in> frame_set s)
    \<and> first_frame s = (case lowest_free s of Some l \<Rightarrow> of_nat l | None \<Rightarrow> - 1)"
  using bitmap_set_laws [OF assms] by blast

definition small_kernel :: "memory \<Rightarrow> kernel_memory" where
  "small_kernel m = \<lparr>mem = m, phys = (\<lambda>_. 0), placement_address = 0x8000, kheap = None, frames = 0x2000,
     frames_bitmap_size = 2, vm_page_dir = 0, cur_vm_page_dir = 0, cr3 = 0, cr0 = 0, if_flag = False, console = []\<rparr>"

lemma small_kernel_ok:
  "bitmap_ok (small_kernel m)" "frame_count (small_kernel m) = 16"
  "entry_ok (small_kernel m) 0x1000" "entry_ok (small_kernel m) 0x1004"
proof -
  show ok: "bitmap_ok (small_kernel m)" "frame_count (small_kernel m) = 16"
    by (simp_all add: small_kernel_def bitmap_ok_def frame_count_def)
  have two: "(\<forall>i < 2. P i) \<longleftrightarrow> P 0 \<and> P 1" for P :: "nat \<Rightarrow> bool" by (auto simp: less_2_cases_iff)
  show "entry_ok (small_kernel m) 0x1000" "entry_ok (small_kernel m) 0x1004"
    using ok by (simp_all add: entry_ok_def off_bitmap_def two small_kernel_def in_range_def)
qed

theorem bitmap_is_a_set_witness:
  "frame_set (set_frame (of_nat 3 * 0x1000) (small_kernel (\<lambda>_. 0))) = insert 3 (frame_set (small_kernel (\<lambda>_. 0)))"
  using bitmap_is_a_set [of "small_kernel (\<lambda>_. 0)" 3] small_kernel_ok by simp

text \<open>
  Property C17. \<open>alloc_frame\<close> for an entry that holds a frame changes nothing. For an empty one it takes
  the lowest free frame, marks exactly that frame, and sets the entry's frame and flags, keeping its
  accessed and dirty bits; no other entry outside the bitmap changes.
\<close>

theorem alloc_frame_takes_lowest:
  fixes s :: "'a kmem" and i w :: int
  assumes "entry_ok s page"
  shows "(entry_frame s page \<noteq> 0 \<longrightarrow> alloc_frame page i w s = s) \<and>
    (entry_frame s page = 0 \<and> lowest_free s = Some k \<longrightarrow>
      (let t = alloc_frame page i w s; e = peek t page in
        frame_set t = insert k (frame_set s) \<and> unat (frame_of e) = k \<and> valid_of e = 1
        \<and> rw_of e = (if w \<noteq> 0 then 1 else 0) \<and> user_of e = (if i \<noteq> 0 then 0 else 1)
        \<and> accessed_of e = accessed_of (peek s page) \<and> dirty_of e = dirty_of (peek s page)
        \<and> (\<forall>q. entry_ok s q \<and> entries_apart page q \<longrightarrow> peek t q = peek s q)))"
proof (intro conjI impI)
  show "entry_frame s page \<noteq> 0 \<Longrightarrow> alloc_frame page i w s = s"
    by (simp add: alloc_frame_def entry_frame_0)
next
  assume "entry_frame s page = 0 \<and> lowest_free s = Some k"
  then have e: "entry_frame s page = 0" and k: "lowest_free s = Some k" by simp_all
  note f = alloc_frame_used [OF assms e k]
  have "unat (frame_of (peek (alloc_frame page i w s) page)) = k" using f(3) by (simp add: entry_frame_def)
  then show "let t = alloc_frame page i w s; e = peek t page in
        frame_set t = insert k (frame_set s) \<and> unat (frame_of e) = k \<and> valid_of e = 1
        \<and> rw_of e = (if w \<noteq> 0 then 1 else 0) \<and> user_of e = (if i \<noteq> 0 then 0 else 1)
        \<and> accessed_of e = accessed_of (peek s page) \<and> dirty_of e = dirty_of (peek s page)
        \<and> (\<forall>q. entry_ok s q \<and> entries_apart page q \<longrightarrow> peek t q = peek s q)"
    using f by (simp add: Let_def entry_word_fields [unfolded One_nat_def])
qed

theorem alloc_frame_takes_lowest_witness:
  "unat (frame_of (peek (alloc_frame 0x1000 0 1 (small_kernel ((\<lambda>_. 0)(0x2000 := 0xE0)))) 0x1000)) = 3"
proof -
  have e: "entry_frame (small_kernel ((\<lambda>_. 0)(0x2000 := 0xE0))) 0x1000 = 0"
    by (simp add: entry_frame_0) code_simp
  have l: "lowest_free (small_kernel ((\<lambda>_. 0)(0x2000 := 0xE0))) = Some 3"
    by code_simp
  show ?thesis
    using alloc_frame_takes_lowest [OF small_kernel_ok(3), of "(\<lambda>_. 0)(0x2000 := 0xE0)" 0 1 3] e l by (simp add: Let_def)
qed

text \<open>
  Property C18. Filling the empty entries of a page table one after the other, with enough frames left,
  gives them frames that were free and that differ from each other: no frame is mapped twice.
\<close>

theorem frames_never_shared:
  fixes s :: "'a kmem" and i w :: int
  assumes "\<forall>p \<in> set pages. entry_ok s p \<and> entry_frame s p = 0" and "sorted_wrt entries_apart pages"
    and "card (frame_set s) + length pages \<le> frame_count s"
  shows "let t = fold (\<lambda>p. alloc_frame p i w) pages s in
    distinct (List.map (entry_frame t) pages) \<and> entry_frame t ` set pages \<inter> frame_set s = {}
    \<and> frame_set t = frame_set s \<union> entry_frame t ` set pages"
  using pool.allocs_distinct [OF assms, of i w] by (auto simp: Let_def)

theorem frames_never_shared_witness:
  "let t = fold (\<lambda>p. alloc_frame p 0 1) [0x1000, 0x1004] (small_kernel (\<lambda>_. 0)) in
    distinct (List.map (entry_frame t) [0x1000, 0x1004])"
proof -
  have e: "entry_frame (small_kernel (\<lambda>_. 0)) 0x1000 = 0" "entry_frame (small_kernel (\<lambda>_. 0)) 0x1004 = 0"
    by (simp add: entry_frame_0, code_simp)+
  have "frame_set (small_kernel (\<lambda>_. 0)) = {}"
    by (auto simp: frame_set_def used_def small_kernel_def load8_def)
  then show ?thesis
    using frames_never_shared [of "[0x1000, 0x1004]" "small_kernel (\<lambda>_. 0)" 0 1] e small_kernel_ok
    by (simp add: Let_def entries_apart_def apart_def)
qed

text \<open>
  With every frame in use \<open>alloc_frame\<close> prints its warning and goes on: it sets a bit in the
  byte 0x1FFFF after the start of the bitmap, which is past its end, and marks the entry valid with
  frame 0xFFFFF, which is beyond the memory of the machine.
\<close>

theorem alloc_frame_exhausted:
  fixes s :: "'a kmem" and i w :: int
  assumes "frames_bitmap_size s < 0x1FFFF" and "lowest_free s = None" and "entry_frame s page = 0"
    and "\<not> in_range page 4 (frames s + 0x1FFFF)"
  shows "let t = alloc_frame page i w s in
    console t = console s @ ascii ''[warning]No free frame...'' @ [10]
    \<and> load8 (mem t) (frames s + 0x1FFFF) = load8 (mem s) (frames s + 0x1FFFF) OR 1
    \<and> frame_of (peek t page) = 0xFFFFF \<and> valid_of (peek t page) = 1"
proof -
  have ok: "bitmap_ok s" using assms(1) by (simp add: bitmap_ok_def word_less_nat_alt word_le_nat_alt)
  have ff: "first_frame s = - 1"
    using ok assms(2) by (cases rule: first_frame_cases) (auto simp: lowest_free_None)
  let ?s = "kprintf (''%s'' @ [CHR 0x0A]) [AStr (ascii ''[warning]No free frame...'')] s"
  let ?u = "set_frame (- 0x1000) ?s"
  have u: "?u = poke8 (frames s + 0x1FFFF) (load8 (mem s) (frames s + 0x1FFFF) OR 1) ?s"
  proof -
    have "(- 0x1000 :: u32) div 0x1000 = 0xFFFFF" "INDEX_FROM_BITMAP 0xFFFFF = 0x1FFFF"
      "frame_mask (OFFSET_FROM_BITMAP 0xFFFFF) = 1" by code_simp+
    then show ?thesis by (simp only: set_frame_def Let_def) simp
  qed
  have a: "alloc_frame page i w s = poke page (entry_word (peek ?u page) i w (- 1)) ?u"
    using assms(3) ff by (simp add: alloc_frame_def Let_def entry_writes entry_frame_0 del: poke_frame)
  have "console ?s = console s @ ascii ''[warning]No free frame...'' @ [10]"
    by (simp add: kprintf_def ascii_def)
  then show ?thesis
    using assms(4) unfolding a u Let_def
    by (simp add: peek_poke_same entry_word_fields [unfolded One_nat_def] mem_simps load8_store32_apart mask_eq_exp_minus_1)
qed

theorem alloc_frame_exhausted_witness:
  "console (alloc_frame 0x1000 0 1 (small_kernel ((\<lambda>_. 0)(0x2000 := 0xFF, 0x2001 := 0xFF))))
    = ascii ''[warning]No free frame...'' @ [10]"
proof -
  let ?s = "small_kernel ((\<lambda>_. 0)(0x2000 := 0xFF, 0x2001 := 0xFF))"
  have 1: "lowest_free ?s = None" by code_simp
  have 2: "entry_frame ?s 0x1000 = 0" by (simp add: entry_frame_0) code_simp
  have 3: "frames_bitmap_size ?s < 0x1FFFF" "\<not> in_range 0x1000 4 (frames ?s + 0x1FFFF)" "console ?s = []"
    by (simp_all add: small_kernel_def in_range_def)
  show ?thesis
    using alloc_frame_exhausted [OF 3(1) 1 2 3(2), of 0 1] 3(3) by (simp add: Let_def)
qed

text \<open>
  \<open>free_frame\<close> passes the frame's number where \<open>clear_frame\<close> expects its address, so with at
  most 4096 frames, as \<open>init_paging\<close> sets up, freeing any frame gives back frame 0 instead: the freed
  frame stays marked for ever, and the next empty entry gets frame 0, and counts as empty still.
\<close>

theorem free_frame_releases_frame_0:
  fixes s :: "'a kmem" and i w :: int
  assumes "entry_ok s page" and "entry_frame s page = k" and "0 < k" and "k < 4096" and "0 < frame_count s"
    and "entry_ok s q" and "entries_apart page q" and "entry_frame s q = 0"
  shows "let t = free_frame page s; u = alloc_frame q i w t in
    entry_frame t page = 0 \<and> frame_set t = frame_set s - {0}
    \<and> entry_frame u q = 0 \<and> frame_set u = insert 0 (frame_set s)"
proof -
  have ok: "bitmap_ok s" "off_bitmap s page" "bitmap_ok s" "off_bitmap s q"
    using assms(1,6) by (simp_all add: entry_ok_def)
  have fc: "frame_count s \<le> 2 ^ 20" by (rule bitmap_ok_count [OF ok(1)])
  let ?f = "frame_of (peek s page)"
  have f: "unat ?f = k" using assms(2) by (simp add: entry_frame_def)
  then have "?f \<noteq> 0" using assms(3) by auto
  have div0: "?f div 0x1000 = of_nat 0 * 0x1000 div 0x1000"
    by (rule word_unat_eq_iff [THEN iffD2]) (simp add: unat_div f assms(4))
  have c: "clear_frame ?f s = clear_frame (of_nat 0 * 0x1000) s"
    unfolding clear_frame_def div0 ..
  let ?c = "clear_frame (of_nat 0 * 0x1000) s"
  have t: "free_frame page s = poke page (put_field 12 20 0 (peek s page)) ?c"
    using \<open>?f \<noteq> 0\<close> peek_off_bitmap(2) [OF ok(2) assms(5) fc]
    by (simp only: free_frame_def c set_page_frame_def) simp
  let ?t = "free_frame page s"
  have off: "off_bitmap ?c page" using ok(2) by (simp add: off_bitmap_def)
  have cnt: "frame_count ?c = frame_count s" "frame_count ?t = frame_count s" by (simp_all add: frame_count_def)
  have set_c: "frame_set ?c = frame_set s - {0}" by (rule bitmap_set_laws(2) [OF ok(1) assms(5)])
  have set_t: "frame_set ?t = frame_set s - {0}"
    using used_poke [OF off] cnt set_c unfolding t frame_set_def by (auto simp: frame_count_def)
  have e: "entry_frame ?t page = 0" by (simp add: t entry_frame_def peek_poke_same get_put_same)
  have "peek ?t q = peek s q"
    using kernel.rd_wr_apart [of page q _ ?c] peek_off_bitmap(2) [OF ok(4) assms(5) fc] assms(7)
    by (simp add: t entries_apart_def del: poke_frame)
  then have eq: "entry_frame ?t q = 0" using assms(8) by (simp add: entry_frame_def)
  have okt: "entry_ok ?t q" using assms(6) by (simp add: entry_ok_def bitmap_ok_def off_bitmap_def)
  have "0 \<notin> frame_set ?t" using set_t by simp
  then have "lowest_free ?t = Some 0" using assms(5) cnt by (simp add: lowest_free_Some frame_set_def)
  from alloc_frame_used(1,3) [OF okt eq this, of i w] set_t e show ?thesis
    by (simp add: Let_def)
qed

theorem free_frame_releases_frame_0_witness:
  "let t = free_frame 0x1000 (small_kernel ((\<lambda>_. 0)(0x2000 := 0xE0, 0x1001 := 0x20))) in
    frame_set t = frame_set (small_kernel ((\<lambda>_. 0)(0x2000 := 0xE0, 0x1001 := 0x20))) - {0}"
proof -
  let ?s = "small_kernel ((\<lambda>_. 0)(0x2000 := 0xE0, 0x1001 := 0x20))"
  have 1: "entry_frame ?s 0x1000 = 2" "entry_frame ?s 0x1004 = 0" by code_simp+
  show ?thesis
    using free_frame_releases_frame_0 [OF small_kernel_ok(3) 1(1) _ _ _ small_kernel_ok(4) _ 1(2), of 0 1] small_kernel_ok(2)
    by (simp add: Let_def entries_apart_def apart_def)
qed

end
