(* ===== verification/Page_Tables.thy ===== *)
theory Page_Tables
  imports Frames
begin

text \<open>
  \<open>get_page\<close> of \<open>src/src/page.c\<close>: the two-level page tables. A \<open>page_dir_struct\<close> at \<open>dir\<close> is 1024
  pointers to tables, 1024 physical table addresses from \<open>dir + 0x1000\<close>, and its own physical address
  at \<open>dir + 0x2000\<close>; a table is 1024 entries of four bytes. The allocator that provides a missing table
  calls \<open>get_page\<close> itself, so here it is an argument: \<open>malloc_ap\<close> gives the address of the block and its
  physical address.
\<close>

section \<open>The directory\<close>

definition table_slot :: "u32 \<Rightarrow> u32 \<Rightarrow> u32" where
  "table_slot dir i = dir + 4 * i"

definition phy_slot :: "u32 \<Rightarrow> u32 \<Rightarrow> u32" where
  "phy_slot dir i = dir + 0x1000 + 4 * i"

definition dir_phy_slot :: "u32 \<Rightarrow> u32" where
  "dir_phy_slot dir = dir + 0x2000"

definition page_slot :: "u32 \<Rightarrow> u32 \<Rightarrow> u32" where
  "page_slot table i = table + 4 * i"

definition fill :: "u32 \<Rightarrow> u32 \<Rightarrow> u32 \<Rightarrow> 'a kmem \<Rightarrow> 'a kmem" where
  "fill addr v n s = s\<lparr>mem := fst (memset (mem s) addr v n)\<rparr>"

type_synonym 'a ap_allocator = "u32 \<Rightarrow> 'a kmem \<Rightarrow> fault + (u32 \<times> u32 \<times> 'a kmem)"

definition get_page :: "'a ap_allocator \<Rightarrow> u32 \<Rightarrow> int \<Rightarrow> u32 \<Rightarrow> 'a kmem \<Rightarrow> fault + (u32 \<times> 'a kmem)" where
  "get_page malloc_ap addr create dir s =
     (let addr = addr div 0x1000;
          i = addr div 1024
      in if peek s (table_slot dir i) \<noteq> 0 then
           Inr (page_slot (peek s (table_slot dir i)) (addr mod 1024), s)
         else if create \<noteq> 0 then
           ebind (malloc_ap 0x1000 s) (\<lambda>(table, temp_address_phy, s).
             let s = poke (table_slot dir i) table s;
                 s = fill (peek s (table_slot dir i)) 0 0x1000 s;
                 s = poke (phy_slot dir i) (temp_address_phy OR 0x7) s
             in Inr (page_slot (peek s (table_slot dir i)) (addr mod 1024), s))
         else Inr (0, s))"


section \<open>What a new table looks like\<close>

lemma fill_frame [simp]:
  "phys (fill a v n s) = phys s" "placement_address (fill a v n s) = placement_address s"
  "kheap (fill a v n s) = kheap s" "frames (fill a v n s) = frames s"
  "frames_bitmap_size (fill a v n s) = frames_bitmap_size s" "vm_page_dir (fill a v n s) = vm_page_dir s"
  "cur_vm_page_dir (fill a v n s) = cur_vm_page_dir s" "cr3 (fill a v n s) = cr3 s"
  "cr0 (fill a v n s) = cr0 s" "if_flag (fill a v n s) = if_flag s"
  "console (fill a v n s) = console s" "kernel_memory.more (fill a v n s) = kernel_memory.more s"
  by (simp_all add: fill_def)

lemma fill_mem:
  assumes "unat n < 2 ^ 31"
  shows "mem (fill a 0 n s) x = (if in_range a (unat n) x then 0 else mem s x)"
proof -
  have "uint n < 2 ^ 31" using nat_less_eq_zless [of "uint n" "2 ^ 31"] assms by simp
  then have "nat (sint n) = unat n" by (simp add: sint_u32 word_less_alt)
  then show ?thesis using assms by (simp add: fill_def memset_def memset_loop_in memset_loop_other)
qed

lemma slots_off:
  "unat i < 1024 \<Longrightarrow> table_slot dir i = off dir (4 * unat i)"
  "unat i < 1024 \<Longrightarrow> phy_slot dir i = off dir (0x1000 + 4 * unat i)"
  "unat i < 1024 \<Longrightarrow> page_slot dir i = off dir (4 * unat i)"
  by (simp_all add: table_slot_def phy_slot_def page_slot_def off_def add.assoc)

lemma dir_index_less: "unat (addr div 0x1000 div 1024 :: u32) < 1024"
  using unat_u32_lt [of addr] by (simp add: unat_div)

lemma page_index_less: "unat (x mod 1024 :: u32) < 1024"
  by (simp add: unat_mod)

text \<open>The state after \<open>get_page\<close> has made the table \<open>T\<close> with physical address \<open>P\<close>.\<close>

definition with_table :: "u32 \<Rightarrow> u32 \<Rightarrow> u32 \<Rightarrow> u32 \<Rightarrow> 'a kmem \<Rightarrow> 'a kmem" where
  "with_table dir i T P u = poke (phy_slot dir i) (P OR 0x7) (fill T 0 0x1000 (poke (table_slot dir i) T u))"

lemma peek_fill_out:
  assumes "apart a 4 T 0x1000"
  shows "peek (fill T 0 0x1000 s) a = peek s a"
  unfolding peek_def using assms apart_in_range [of T "0x1000" a 4]
  by (intro load32_cong) (auto simp: fill_mem apart_sym)

lemma apart_sub:
  assumes "apart a n b k" and "i + m \<le> n" and "n \<le> 2 ^ 32" and "k \<le> 2 ^ 32" and "0 < k" and "0 < m"
  shows "apart (off a i) m b k"
proof -
  have k: "k \<le> unat (a - b)" and n: "n \<le> unat (b - a)" using assms(1) by (simp_all add: apart_def)
  have "b \<noteq> a" using n assms(2,6) by auto
  then have s: "unat (a - b) + unat (b - a) = 2 ^ 32"
    using unat_neg [of "b - a"] unat_u32_lt [of "b - a"] by simp
  have u: "unat (of_nat i :: u32) = i" using assms by (intro unat_of_nat_small) simp
  have "unat ((b - a) - of_nat i) = unat (b - a) - i"
    using u n assms(2) by (subst unat_sub) (simp_all add: word_le_nat_alt)
  moreover have "unat ((a - b) + of_nat i) = unat (a - b) + i"
    using u n s assms(2,6) by (subst unat_word_ariths) simp
  ultimately show ?thesis using k n assms(2)
    by (simp add: apart_def off_def algebra_simps)
qed

lemma with_table_peek:
  assumes "apart dir 0x2004 T 0x1000" and "unat i < 1024"
  shows "peek (with_table dir i T P u) (table_slot dir i) = T"
    and "peek (with_table dir i T P u) (phy_slot dir i) = P OR 0x7"
    and "j < 1024 \<Longrightarrow> peek (with_table dir i T P u) (off T (4 * j)) = 0"
    and "\<not> in_range T 0x1000 x \<Longrightarrow> \<not> in_range (table_slot dir i) 4 x \<Longrightarrow> \<not> in_range (phy_slot dir i) 4 x \<Longrightarrow>
      mem (with_table dir i T P u) x = mem u x"
proof -
  have s: "table_slot dir i = off dir (4 * unat i)" "phy_slot dir i = off dir (0x1000 + 4 * unat i)"
    using assms(2) by (simp_all add: slots_off)
  have a: "apart (off dir (4 * unat i)) 4 T 0x1000" "apart (off dir (0x1000 + 4 * unat i)) 4 T 0x1000"
    using apart_sub [OF assms(1), of "4 * unat i" 4] apart_sub [OF assms(1), of "0x1000 + 4 * unat i" 4] assms(2)
    by simp_all
  have ab: "apart (off dir (0x1000 + 4 * unat i)) 4 (off dir (4 * unat i)) 4"
    using off_apart [of "4 * unat i" 4 "0x1000 + 4 * unat i" 4 dir] assms(2) by (simp add: apart_sym)
  show "peek (with_table dir i T P u) (table_slot dir i) = T"
    by (simp add: with_table_def s kernel.rd_wr_apart [OF ab] peek_fill_out [OF a(1)] kernel.rd_wr_same del: poke_frame)
  show "peek (with_table dir i T P u) (phy_slot dir i) = P OR 0x7"
    by (simp add: with_table_def kernel.rd_wr_same del: poke_frame)
  show "peek (with_table dir i T P u) (off T (4 * j)) = 0" if "j < 1024"
  proof -
    have sub: "apart (off T (4 * j)) 4 (off dir (0x1000 + 4 * unat i)) 4"
      using apart_sub [of T "0x1000" "off dir (0x1000 + 4 * unat i)" 4 "4 * j" 4] a(2) that by (simp add: apart_sym)
    have z: "mem (fill T 0 0x1000 v) x = 0" if "in_range (off T (4 * j)) 4 x" for x and v :: "'a kmem"
      using in_range_off [OF that, of "0x1000"] \<open>j < 1024\<close> by (simp add: fill_mem)
    have "peek (fill T 0 0x1000 v) (off T (4 * j)) = 0" for v :: "'a kmem"
    proof -
      have "load32 (mem (fill T 0 0x1000 v)) (off T (4 * j)) = load32 (\<lambda>_. 0) (off T (4 * j))"
        by (rule load32_cong) (rule z)
      then show ?thesis by (simp add: peek_def load32_def)
    qed
    then show ?thesis
      using sub by (simp add: with_table_def s kernel.rd_wr_apart apart_sym del: poke_frame)
  qed
  show "\<not> in_range T 0x1000 x \<Longrightarrow> \<not> in_range (table_slot dir i) 4 x \<Longrightarrow> \<not> in_range (phy_slot dir i) 4 x \<Longrightarrow>
      mem (with_table dir i T P u) x = mem u x"
    by (simp add: with_table_def store32_other fill_mem)
qed

lemma get_page_makes:
  assumes "peek s (table_slot dir (addr div 0x1000 div 1024)) = 0" and "c \<noteq> 0"
    and "mal 0x1000 s = Inr (T, P, u)" and "apart dir 0x2004 T 0x1000"
  shows "get_page mal addr c dir s =
    Inr (page_slot T (addr div 0x1000 mod 1024), with_table dir (addr div 0x1000 div 1024) T P u)"
proof -
  let ?i = "addr div 0x1000 div 1024"
  note i = dir_index_less [of addr]
  have s: "table_slot dir ?i = off dir (4 * unat ?i)" using i by (simp add: slots_off)
  have a: "apart (table_slot dir ?i) 4 T 0x1000"
    using apart_sub [OF assms(4), of "4 * unat ?i" 4] i by (simp add: s)
  have p: "peek (poke (table_slot dir ?i) T u) (table_slot dir ?i) = T" by (simp add: kernel.rd_wr_same)
  have "peek (with_table dir ?i T P u) (table_slot dir ?i) = T"
    using assms(4) i by (rule with_table_peek)
  then show ?thesis
    using assms(1-3) p by (simp add: get_page_def Let_def with_table_def del: poke_frame)
qed

lemma get_page_finds:
  "peek s (table_slot dir (addr div 0x1000 div 1024)) \<noteq> 0 \<Longrightarrow>
    get_page mal addr c dir s = Inr (page_slot (peek s (table_slot dir (addr div 0x1000 div 1024))) (addr div 0x1000 mod 1024), s)"
  by (simp add: get_page_def Let_def)

end
