(* ===== verification/Kernel_Heap.thy ===== *)
theory Kernel_Heap
  imports Page_Tables
begin

text \<open>
  \<open>src/src/kheap.c\<close> and \<open>src/src/kernel_malloc.c\<close>: the kernel's heap and the allocation functions in
  front of it. \<open>alloc\<close> calls itself after growing the heap, and growing it calls \<open>get_page\<close>, which
  allocates tables with \<open>_malloc_ap\<close> and so with \<open>alloc\<close> again; the first argument of \<open>alloc\<close> bounds
  the depth of these calls. A larger bound never changes a result (\<open>alloc_more_fuel\<close>).
\<close>

section \<open>Blocks and holes\<close>

text \<open>
  A \<open>header_t\<close> is 12 bytes, with the byte \<open>is_hole\<close> at 0, \<open>magic\<close> at 4 and \<open>size\<close> at 8; a \<open>footer_t\<close>
  is 8 bytes, with \<open>magic\<close> at 0 and the pointer to the header at 4.
\<close>

definition KHEAP_START :: u32 where "KHEAP_START = 0xC0000000"
definition KHEAP_INITIAL_SIZE :: u32 where "KHEAP_INITIAL_SIZE = 0x100000"
definition HEAP_INDEX_SIZE :: u32 where "HEAP_INDEX_SIZE = 0x20000"
definition HEAP_MAGIC :: u32 where "HEAP_MAGIC = 0x123890AB"
definition HEAP_MIN_SIZE :: u32 where "HEAP_MIN_SIZE = 0x70000"

definition sizeof_header :: u32 where "sizeof_header = 12"
definition sizeof_footer :: u32 where "sizeof_footer = 8"

definition header_is_hole :: "'a kmem \<Rightarrow> u32 \<Rightarrow> u8" where "header_is_hole s h = load8 (mem s) h"
definition header_magic :: "'a kmem \<Rightarrow> u32 \<Rightarrow> u32" where "header_magic s h = peek s (h + 4)"
definition header_size :: "'a kmem \<Rightarrow> u32 \<Rightarrow> u32" where "header_size s h = peek s (h + 8)"
definition footer_magic :: "'a kmem \<Rightarrow> u32 \<Rightarrow> u32" where "footer_magic s f = peek s f"
definition footer_header :: "'a kmem \<Rightarrow> u32 \<Rightarrow> u32" where "footer_header s f = peek s (f + 4)"

definition set_is_hole :: "u32 \<Rightarrow> u8 \<Rightarrow> 'a kmem \<Rightarrow> 'a kmem" where "set_is_hole h v = poke8 h v"
definition set_magic :: "u32 \<Rightarrow> u32 \<Rightarrow> 'a kmem \<Rightarrow> 'a kmem" where "set_magic h v = poke (h + 4) v"
definition set_size :: "u32 \<Rightarrow> u32 \<Rightarrow> 'a kmem \<Rightarrow> 'a kmem" where "set_size h v = poke (h + 8) v"
definition set_footer_magic :: "u32 \<Rightarrow> u32 \<Rightarrow> 'a kmem \<Rightarrow> 'a kmem" where "set_footer_magic f v = poke f v"
definition set_footer_header :: "u32 \<Rightarrow> u32 \<Rightarrow> 'a kmem \<Rightarrow> 'a kmem" where "set_footer_header f v = poke (f + 4) v"

text \<open>
  The struct \<open>heap_t\<close> that \<open>kheap\<close> points to. \<open>alloc\<close> and \<open>free\<close> are called with \<open>kheap\<close> only, and
  after \<open>init_paging\<close> has set it.
\<close>

definition heap :: "'a kmem \<Rightarrow> heap_t" where
  "heap s = the (kheap s)"

definition set_heap :: "heap_t \<Rightarrow> 'a kmem \<Rightarrow> 'a kmem" where
  "set_heap h s = s\<lparr>kheap := Some h\<rparr>"

definition header_cmp_less :: cmp_fun_t where
  "header_cmp_less m a b = (if load32 m (a + 8) < load32 m (b + 8) then 1 else 0)"

interpretation header_cmp: nonnegative_cmp header_cmp_less
  by unfold_locales (simp add: header_cmp_less_def)

text \<open>The three calls on the index.\<close>

definition heap_find :: "u32 \<Rightarrow> 'a kmem \<Rightarrow> fault + u32" where
  "heap_find i s = find_sorted_array i (mem s) (index (heap s))"

definition heap_insert :: "u32 \<Rightarrow> 'a kmem \<Rightarrow> fault + 'a kmem" where
  "heap_insert item s =
     ebind (insert_sorted_array item (mem s) (index (heap s)))
       (\<lambda>(m, a). Inr (set_heap ((heap s)\<lparr>index := a\<rparr>) (s\<lparr>mem := m\<rparr>)))"

definition heap_remove :: "u32 \<Rightarrow> 'a kmem \<Rightarrow> fault + 'a kmem" where
  "heap_remove i s =
     ebind (remove_sorted_array i (mem s) (index (heap s)))
       (\<lambda>(m, a). Inr (set_heap ((heap s)\<lparr>index := a\<rparr>) (s\<lparr>mem := m\<rparr>)))"

section \<open>Looking for a hole\<close>

text \<open>
  \<open>x & 0x00000FFF != 0\<close> in the source is \<open>x & (0x00000FFF != 0)\<close>, the lowest bit of \<open>x\<close>.
\<close>

definition low_bit_set :: "u32 \<Rightarrow> bool" where
  "low_bit_set x \<longleftrightarrow> x AND (if (0x00000FFF :: u32) \<noteq> 0 then 1 else 0) \<noteq> 0"

definition hole_fits :: "u32 \<Rightarrow> u8 \<Rightarrow> 'a kmem \<Rightarrow> u32 \<Rightarrow> bool" where
  "hole_fits sz page_align s header =
     (if 0 < page_align then
        let location = header;
            offset = (if low_bit_set (location + sizeof_header)
                      then 0x1000 - (location + sizeof_header) mod 0x1000 else 0);
            hole_size_canused = header_size s header - offset
        in sz \<le> hole_size_canused
      else sz \<le> header_size s header)"

function find_hole_from :: "u32 \<Rightarrow> u8 \<Rightarrow> 'a kmem \<Rightarrow> u32 \<Rightarrow> fault + u32" where
  "find_hole_from sz page_align s iter =
     (if iter < arr_size (index (heap s)) then
        ebind (heap_find iter s) (\<lambda>header.
          if hole_fits sz page_align s header then Inr iter
          else find_hole_from sz page_align s (iter + 1))
      else Inr iter)"
  by pat_completeness auto
termination
proof (relation "measure (\<lambda>(sz, page_align, s, iter). unat (arr_size (index (heap s))) - unat iter)")
  fix sz iter :: u32 and page_align :: u8 and s :: "'a kmem"
  assume "iter < arr_size (index (heap s))"
  then have "unat iter < unat (arr_size (index (heap s)))" by (simp add: word_less_nat_alt)
  moreover from this have "unat (iter + 1) = unat iter + 1"
    using unat_u32_lt [of "arr_size (index (heap s))"] by (simp add: unat_word_ariths)
  ultimately show "((sz, page_align, s, iter + 1), sz, page_align, s, iter)
      \<in> measure (\<lambda>(sz, page_align, s, iter). unat (arr_size (index (heap s))) - unat iter)"
    by simp
qed simp

declare find_hole_from.simps [simp del]

definition find_hole_fit_first :: "u32 \<Rightarrow> u8 \<Rightarrow> 'a kmem \<Rightarrow> fault + u32" where
  "find_hole_fit_first sz page_align s =
     ebind (find_hole_from sz page_align s 0)
       (\<lambda>iter. Inr (if iter = arr_size (index (heap s)) then - 1 else iter))"


section \<open>Growing and shrinking\<close>

partial_function (option) expand_loop ::
  "'a ap_allocator \<Rightarrow> u32 \<Rightarrow> u32 \<Rightarrow> 'a kmem \<Rightarrow> (fault + 'a kmem) option" where
  "expand_loop malloc_ap new_sz i s =
     (if i < new_sz then
        (case get_page malloc_ap (start_address (heap s) + i) 1 (vm_page_dir s) s of
           Inl e \<Rightarrow> Some (Inl e)
         | Inr r \<Rightarrow>
             expand_loop malloc_ap new_sz (i + 0x1000)
               (alloc_frame (fst r) (if supervisor (heap (snd r)) \<noteq> 0 then 1 else 0)
                 (if readonly (heap (snd r)) \<noteq> 0 then 0 else 1) (snd r)))
      else Some (Inr s))"

definition round_size :: "u32 \<Rightarrow> u32" where
  "round_size new_sz = (if low_bit_set new_sz then (new_sz AND 0xFFFFF000) + 0x1000 else new_sz)"

definition expand :: "'a ap_allocator \<Rightarrow> u32 \<Rightarrow> 'a kmem \<Rightarrow> fault + 'a kmem" where
  "expand malloc_ap new_sz s =
     (let new_sz = round_size new_sz;
          old_size = end_address (heap s) - start_address (heap s)
      in case expand_loop malloc_ap new_sz old_size s of
           None \<Rightarrow> Inl Hang
         | Some r \<Rightarrow> ebind r (\<lambda>s. Inr (set_heap ((heap s)\<lparr>end_address := start_address (heap s) + new_sz\<rparr>) s)))"

text \<open>With \<open>make\<close> zero \<open>get_page\<close> allocates nothing, so its allocator does not matter.\<close>

definition find_page :: "u32 \<Rightarrow> u32 \<Rightarrow> 'a kmem \<Rightarrow> fault + (u32 \<times> 'a kmem)" where
  "find_page addr dir s = get_page (\<lambda>_ _. Inl Out_of_fuel) addr 0 dir s"

partial_function (option) contract_loop :: "u32 \<Rightarrow> u32 \<Rightarrow> 'a kmem \<Rightarrow> (fault + 'a kmem) option" where
  "contract_loop new_sz i s =
     (if new_sz < i then
        (case find_page (start_address (heap s) + i) (vm_page_dir s) s of
           Inl e \<Rightarrow> Some (Inl e)
         | Inr r \<Rightarrow> contract_loop new_sz (i - 0x1000) (free_frame (fst r) (snd r)))
      else Some (Inr s))"

definition contract :: "u32 \<Rightarrow> 'a kmem \<Rightarrow> fault + (u32 \<times> 'a kmem)" where
  "contract new_sz s =
     (let new_sz = round_size new_sz;
          new_sz = (if new_sz < HEAP_MIN_SIZE then HEAP_MIN_SIZE else new_sz);
          old_size = end_address (heap s) - start_address (heap s)
      in case contract_loop new_sz (old_size - 0x1000) s of
           None \<Rightarrow> Inl Hang
         | Some r \<Rightarrow> ebind r (\<lambda>s. Inr (new_sz, set_heap ((heap s)\<lparr>end_address := start_address (heap s) + new_sz\<rparr>) s)))"

section \<open>Allocation\<close>

text \<open>The loop of \<open>alloc\<close> that looks for the entry with the highest address.\<close>

function highest_entry :: "'a kmem \<Rightarrow> u32 \<Rightarrow> u32 \<Rightarrow> u32 \<Rightarrow> fault + u32" where
  "highest_entry s iter best idx =
     (if iter < arr_size (index (heap s)) then
        ebind (heap_find iter s) (\<lambda>tmp.
          if best < tmp then highest_entry s (iter + 1) tmp iter
          else highest_entry s (iter + 1) best idx)
      else Inr idx)"
  by pat_completeness auto
termination
proof (relation "measure (\<lambda>(s, iter, best, idx). unat (arr_size (index (heap s))) - unat iter)")
  fix s :: "'a kmem" and iter :: u32
  assume "iter < arr_size (index (heap s))"
  then have "unat iter < unat (arr_size (index (heap s)))" by (simp add: word_less_nat_alt)
  moreover from this have "unat (iter + 1) = unat iter + 1"
    using unat_u32_lt [of "arr_size (index (heap s))"] by (simp add: unat_word_ariths)
  ultimately have lt: "((s, iter + 1, v', i'), s, iter, v, i)
      \<in> measure (\<lambda>(s, iter, best, idx). unat (arr_size (index (heap s))) - unat iter)" for v v' i i' :: u32
    by simp
  fix best idx x :: u32
  show "((s, iter + 1, x, iter), s, iter, best, idx)
      \<in> measure (\<lambda>(s, iter, best, idx). unat (arr_size (index (heap s))) - unat iter)"
    and "((s, iter + 1, best, idx), s, iter, best, idx)
      \<in> measure (\<lambda>(s, iter, best, idx). unat (arr_size (index (heap s))) - unat iter)"
    by (rule lt)+
qed simp

declare highest_entry.simps [simp del]

text \<open>The part of \<open>alloc\<close> that runs when no hole fits, up to its call of itself.\<close>

definition grow_heap :: "'a ap_allocator \<Rightarrow> u32 \<Rightarrow> 'a kmem \<Rightarrow> fault + 'a kmem" where
  "grow_heap malloc_ap new_sz s =
     (let old_len = end_address (heap s) - start_address (heap s);
          old_end_address = end_address (heap s)
      in ebind (expand malloc_ap (old_len + new_sz) s) (\<lambda>s.
        let new_len = end_address (heap s) - start_address (heap s) in
        ebind (highest_entry s 0 0 (- 1)) (\<lambda>idx.
          if idx = - 1 then
            let header = old_end_address;
                s = set_magic header HEAP_MAGIC s;
                s = set_size header (new_len - old_len) s;
                s = set_is_hole header 1 s;
                footer = old_end_address + header_size s header - sizeof_footer;
                s = set_footer_magic footer HEAP_MAGIC s;
                s = set_footer_header footer header s
            in heap_insert header s
          else
            ebind (heap_find idx s) (\<lambda>header.
              let s = set_size header (header_size s header + (new_len - old_len)) s;
                  footer = header + header_size s header - sizeof_footer;
                  s = set_footer_header footer header s;
                  s = set_footer_magic footer HEAP_MAGIC s
              in Inr s))))"

text \<open>The part of \<open>alloc\<close> that takes the block out of the hole number \<open>iter\<close>.\<close>

definition take_hole :: "u32 \<Rightarrow> u32 \<Rightarrow> u8 \<Rightarrow> u32 \<Rightarrow> 'a kmem \<Rightarrow> fault + (u32 \<times> 'a kmem)" where
  "take_hole sz new_sz page_align iter s =
     ebind (heap_find iter s) (\<lambda>origin_hole_header.
       let origin_hole_pos = origin_hole_header;
           origin_hole_size = header_size s origin_hole_header;
           small = origin_hole_size - new_sz < sizeof_header + sizeof_footer;
           sz = (if small then sz + (origin_hole_size - new_sz) else sz);
           new_sz = (if small then origin_hole_size else new_sz)
       in ebind
         (if page_align \<noteq> 0 \<and> (origin_hole_pos + sizeof_header) AND 0xFFF \<noteq> 0 then
            let new_location = origin_hole_pos + 0x1000 - ((origin_hole_pos + sizeof_header) AND 0xFFF);
                hole_header = origin_hole_pos;
                s = set_size hole_header (0x1000 - sizeof_header - ((origin_hole_pos + sizeof_header) AND 0xFFF)) s;
                s = set_magic hole_header HEAP_MAGIC s;
                s = set_is_hole hole_header 1 s;
                hole_footer = new_location - sizeof_footer;
                s = set_footer_magic hole_footer HEAP_MAGIC s;
                s = set_footer_header hole_footer hole_header s
            in Inr (new_location, origin_hole_size - header_size s hole_header, s)
          else ebind (heap_remove iter s) (\<lambda>s. Inr (origin_hole_pos, origin_hole_size, s)))
         (\<lambda>(origin_hole_pos, origin_hole_size, s).
           let block_header = origin_hole_pos;
               s = set_magic block_header HEAP_MAGIC s;
               s = set_is_hole block_header 0 s;
               s = set_size block_header new_sz s;
               block_footer = origin_hole_pos + sz + sizeof_header;
               s = set_footer_magic block_footer HEAP_MAGIC s;
               s = set_footer_header block_footer block_header s
           in ebind
             (if new_sz < origin_hole_size then
                let hole_header = origin_hole_pos + sizeof_header + sizeof_footer + sz;
                    s = set_magic hole_header HEAP_MAGIC s;
                    s = set_is_hole hole_header 1 s;
                    s = set_size hole_header (origin_hole_size - new_sz) s;
                    hole_footer = origin_hole_pos + origin_hole_size - sizeof_footer - new_sz;
                    s = (if hole_footer < end_address (heap s)
                         then set_footer_header hole_footer hole_header (set_footer_magic hole_footer HEAP_MAGIC s)
                         else s)
                in heap_insert hole_header s
              else Inr s)
             (\<lambda>s. Inr (block_header + sizeof_header, s))))"

text \<open>
  \<open>_malloc\<close> over an allocator for the heap. \<open>want\<close> says that the caller passed a place for the
  physical address; without one the second result has no meaning and is 0.
\<close>

definition malloc_over ::
  "(u32 \<Rightarrow> u8 \<Rightarrow> 'a kmem \<Rightarrow> fault + (u32 \<times> 'a kmem)) \<Rightarrow> u32 \<Rightarrow> u8 \<Rightarrow> bool \<Rightarrow> 'a kmem \<Rightarrow>
    fault + (u32 \<times> u32 \<times> 'a kmem)" where
  "malloc_over alloc m_size isAlign want s =
     (if kheap s = None then
        let s = (if isAlign = 1 \<and> placement_address s AND 0xFFF \<noteq> 0
                 then s\<lparr>placement_address := (placement_address s AND 0xFFFFF000) + 0x1000\<rparr> else s);
            phy = (if want then placement_address s else 0);
            s = s\<lparr>placement_address := placement_address s + m_size\<rparr>
        in Inr (placement_address s - m_size, phy, s)
      else
        ebind (alloc m_size isAlign s) (\<lambda>(addr, s).
          if want then
            ebind (find_page addr (cur_vm_page_dir s) s) (\<lambda>(page, s).
              Inr (addr, frame_of (peek s page) * 0x1000 + (addr AND 0xFFF), s))
          else Inr (addr, 0, s)))"

text \<open>One activation of \<open>alloc\<close>, with \<open>self\<close> for the activations it leads to.\<close>

definition alloc_body ::
  "(u32 \<Rightarrow> u8 \<Rightarrow> 'a kmem \<Rightarrow> fault + (u32 \<times> 'a kmem)) \<Rightarrow> u32 \<Rightarrow> u8 \<Rightarrow> 'a kmem \<Rightarrow> fault + (u32 \<times> 'a kmem)" where
  "alloc_body self sz page_align s =
     (let new_sz = sz + sizeof_header + sizeof_footer in
      ebind (find_hole_fit_first new_sz page_align s) (\<lambda>iter.
        if iter = - 1 then
          ebind (grow_heap (\<lambda>m_size. malloc_over self m_size 1 True) new_sz s)
            (\<lambda>s. self sz page_align s)
        else take_hole sz new_sz page_align iter s))"

primrec alloc :: "nat \<Rightarrow> u32 \<Rightarrow> u8 \<Rightarrow> 'a kmem \<Rightarrow> fault + (u32 \<times> 'a kmem)" where
  "alloc 0 sz page_align s = Inl Out_of_fuel"
| "alloc (Suc n) sz page_align s = alloc_body (alloc n) sz page_align s"

definition k_malloc :: "nat \<Rightarrow> u32 \<Rightarrow> u8 \<Rightarrow> bool \<Rightarrow> 'a kmem \<Rightarrow> fault + (u32 \<times> u32 \<times> 'a kmem)" where
  "k_malloc n = malloc_over (alloc n)"

definition malloc_s :: "nat \<Rightarrow> u32 \<Rightarrow> 'a kmem \<Rightarrow> fault + (u32 \<times> 'a kmem)" where
  "malloc_s n m_size s = ebind (k_malloc n m_size 0 False s) (\<lambda>(addr, phy, s). Inr (addr, s))"

definition malloc_a :: "nat \<Rightarrow> u32 \<Rightarrow> 'a kmem \<Rightarrow> fault + (u32 \<times> 'a kmem)" where
  "malloc_a n m_size s = ebind (k_malloc n m_size 1 False s) (\<lambda>(addr, phy, s). Inr (addr, s))"

definition malloc_ap :: "nat \<Rightarrow> u32 \<Rightarrow> 'a kmem \<Rightarrow> fault + (u32 \<times> u32 \<times> 'a kmem)" where
  "malloc_ap n m_size s = k_malloc n m_size 1 True s"

section \<open>Freeing\<close>

function search_index :: "u32 \<Rightarrow> 'a kmem \<Rightarrow> u32 \<Rightarrow> fault + u32" where
  "search_index x s iter =
     (if iter < arr_size (index (heap s)) then
        ebind (heap_find iter s) (\<lambda>y. if y \<noteq> x then search_index x s (iter + 1) else Inr iter)
      else Inr iter)"
  by pat_completeness auto
termination
proof (relation "measure (\<lambda>(x, s, iter). unat (arr_size (index (heap s))) - unat iter)")
  fix x iter :: u32 and s :: "'a kmem"
  assume "iter < arr_size (index (heap s))"
  then have "unat iter < unat (arr_size (index (heap s)))" by (simp add: word_less_nat_alt)
  moreover from this have "unat (iter + 1) = unat iter + 1"
    using unat_u32_lt [of "arr_size (index (heap s))"] by (simp add: unat_word_ariths)
  ultimately show "((x, s, iter + 1), x, s, iter)
      \<in> measure (\<lambda>(x, s, iter). unat (arr_size (index (heap s))) - unat iter)"
    by simp
qed simp

declare search_index.simps [simp del]

text \<open>
  The parts of \<open>free\<close>: merging with the block before, merging with the block after, and giving the end of
  the heap back. The first two also tell whether they merged.
\<close>

definition merge_left :: "u32 \<Rightarrow> u32 \<Rightarrow> 'a kmem \<Rightarrow> bool \<times> u32 \<times> 'a kmem" where
  "merge_left header footer s =
     (let test_footer = header - sizeof_footer in
      if header_is_hole s (footer_header s test_footer) = 1 \<and> footer_magic s test_footer = HEAP_MAGIC then
        let cache_size = header_size s header;
            header = footer_header s test_footer;
            s = set_footer_header footer header s;
            s = set_size header (header_size s header + cache_size) s
        in (True, header, s)
      else (False, header, s))"

definition merge_right :: "u32 \<Rightarrow> u32 \<Rightarrow> 'a kmem \<Rightarrow> bool \<times> u32 \<times> 'a kmem" where
  "merge_right header footer s =
     (let test_header = footer + sizeof_footer in
      if header_is_hole s test_header = 1 \<and> header_magic s test_header = HEAP_MAGIC then
        let cache_size = header_size s test_header;
            footer = test_header + header_size s test_header - sizeof_footer;
            s = set_footer_header footer header s;
            s = set_size header (header_size s header + cache_size) s
        in (True, footer, s)
      else (False, footer, s))"

definition give_back :: "u32 \<Rightarrow> u32 \<Rightarrow> 'a kmem \<Rightarrow> fault + 'a kmem" where
  "give_back header test_header s =
     (let old_len = end_address (heap s) - start_address (heap s) in
      ebind (contract (header - start_address (heap s)) s) (\<lambda>(new_len, s).
        if 0 < header_size s header - (old_len - new_len) then
          let s = set_size header (header_size s header - (old_len - new_len)) s;
              footer = header + header_size s header - sizeof_footer;
              s = set_footer_magic footer HEAP_MAGIC s;
              s = set_footer_header footer header s
          in Inr s
        else
          ebind (search_index test_header s 0) (\<lambda>iter.
            if iter < arr_size (index (heap s)) then heap_remove iter s else Inr s)))"

text \<open>
  \<open>free\<close> starts with \<open>if (p = 0) return;\<close>, an assignment: it never returns there, and from then on
  \<open>p\<close> is 0. The header it then looks at is at 0xFFFFFFF4. With paging on and no page there in the directory that is
  used, the access is a page fault, whose handler (\<open>page_fault\<close> in \<open>page.c\<close>) spins.
\<close>

definition faults :: "u32 \<Rightarrow> 'a kmem \<Rightarrow> bool" where
  "faults a s =
     (let table = peek s (table_slot (cur_vm_page_dir s) (a div 0x1000 div 1024))
      in cr0 s AND 0x80000000 \<noteq> 0 \<and> (table = 0 \<or> valid_of (peek s (page_slot table (a div 0x1000 mod 1024))) = 0))"

definition free :: "u32 \<Rightarrow> 'a kmem \<Rightarrow> fault + 'a kmem" where
  "free p s =
     (let p = 0;
          header = p - sizeof_header
      in if faults header s then Inl Hang else
      let footer = header + header_size s header - sizeof_footer;
          s = set_is_hole header 1 s;
          (left, header, s) = merge_left header footer s;
          test_header = footer + sizeof_footer;
          (right, footer, s) = merge_right header footer s
      in ebind (if right then ebind (search_index test_header s 0) (\<lambda>iter. heap_remove iter s) else Inr s) (\<lambda>s.
         ebind (if footer + sizeof_footer = end_address (heap s) then give_back header test_header s else Inr s) (\<lambda>s.
           if \<not> left \<and> \<not> right then heap_insert header s else Inr s)))"

lemma free_mapped:
  assumes "\<not> faults (0 - sizeof_header) s"
  shows "free p s =
    (let header = 0 - sizeof_header;
         footer = header + header_size s header - sizeof_footer;
         s = set_is_hole header 1 s;
         (left, header, s) = merge_left header footer s;
         test_header = footer + sizeof_footer;
         (right, footer, s) = merge_right header footer s
     in ebind (if right then ebind (search_index test_header s 0) (\<lambda>iter. heap_remove iter s) else Inr s) (\<lambda>s.
        ebind (if footer + sizeof_footer = end_address (heap s) then give_back header test_header s else Inr s) (\<lambda>s.
          if \<not> left \<and> \<not> right then heap_insert header s else Inr s)))"
  by (simp only: free_def Let_def assms if_False)

definition kfree :: "u32 \<Rightarrow> 'a kmem \<Rightarrow> fault + 'a kmem" where
  "kfree addr s = free addr s"

section \<open>Setting up\<close>

definition create_heap :: "u32 \<Rightarrow> u32 \<Rightarrow> u32 \<Rightarrow> u8 \<Rightarrow> u8 \<Rightarrow> 'a kmem \<Rightarrow> fault + (heap_t \<times> 'a kmem)" where
  "create_heap start end_addr max_addr sv ro s =
     (let (m, a) = place_sorted_array (mem s) start HEAP_INDEX_SIZE header_cmp_less;
          s = s\<lparr>mem := m\<rparr>;
          start = start + 4 * HEAP_INDEX_SIZE;
          start = (if low_bit_set start then (start AND 0xFFFFF000) + 0x2000 else start);
          hole = start;
          s = set_size hole (end_addr - start) s;
          s = set_magic hole HEAP_MAGIC s;
          s = set_is_hole hole 1 s
      in ebind (insert_sorted_array hole (mem s) a) (\<lambda>(m, a).
           Inr (\<lparr>index = a, start_address = start, end_address = end_addr, max_address = max_addr,
                  supervisor = sv, readonly = ro\<rparr>, s\<lparr>mem := m\<rparr>)))"

definition create_sorted_array :: "nat \<Rightarrow> u32 \<Rightarrow> cmp_fun_t \<Rightarrow> 'a kmem \<Rightarrow> fault + (sorted_array_t \<times> 'a kmem)" where
  "create_sorted_array n sz f s =
     ebind (malloc_s n (sz * 4) s) (\<lambda>(a, s).
       if a = 0 then kpanic (''error in create_sorted_array'' @ [CHR 0x0A])
       else Inr (\<lparr>array = a, arr_size = sz, cur = 0, cmp_fun = f\<rparr>, fill a 0 sz s))"

definition free_sorted_array :: "sorted_array_t \<Rightarrow> 'a kmem \<Rightarrow> fault + 'a kmem" where
  "free_sorted_array a s = kfree (array a) s"


section \<open>More fuel\<close>

text \<open>\<open>less_defined x y\<close>: \<open>y\<close> is \<open>x\<close>, unless \<open>x\<close> ran out of fuel.\<close>

definition less_defined :: "fault + 'a \<Rightarrow> fault + 'a \<Rightarrow> bool" where
  "less_defined x y \<longleftrightarrow> x = Inl Out_of_fuel \<or> x = y"

lemma less_defined_refl [simp]: "less_defined x x"
  by (simp add: less_defined_def)

lemma less_defined_fuel [simp]: "less_defined (Inl Out_of_fuel) x"
  by (simp add: less_defined_def)

lemma less_defined_trans: "less_defined x y \<Longrightarrow> less_defined y z \<Longrightarrow> less_defined x z"
  by (auto simp: less_defined_def)

lemma less_defined_ebind:
  "less_defined x y \<Longrightarrow> (\<And>v. less_defined (f v) (g v)) \<Longrightarrow> less_defined (ebind x f) (ebind y g)"
  by (cases x; cases y) (auto simp: less_defined_def)

lemma get_page_less_defined:
  "(\<And>n s. less_defined (mal n s) (mal' n s)) \<Longrightarrow> less_defined (get_page mal a c d s) (get_page mal' a c d s)"
  by (auto simp: get_page_def Let_def intro: less_defined_ebind)

lemma expand_loop_Some:
  "expand_loop mal new_sz i s = Some r \<Longrightarrow> (\<forall>n s. less_defined (mal n s) (mal' n s)) \<longrightarrow>
    r = Inl Out_of_fuel \<or> expand_loop mal' new_sz i s = Some r"
proof (induction mal new_sz i s r rule: expand_loop.raw_induct [rotated, consumes 1])
  case (1 rec mal new_sz i s r)
  show ?case
  proof (intro impI)
    assume le: "\<forall>n s. less_defined (mal n s) (mal' n s)"
    let ?g = "get_page mal (start_address (heap s) + i) 1 (vm_page_dir s) s"
    have g: "less_defined ?g (get_page mal' (start_address (heap s) + i) 1 (vm_page_dir s) s)"
      using le by (intro get_page_less_defined) simp
    show "r = Inl Out_of_fuel \<or> expand_loop mal' new_sz i s = Some r"
    proof (cases "i < new_sz")
      case True
      have IH: "r = Inl Out_of_fuel \<or> expand_loop mal' new_sz j t = Some r" if "rec mal new_sz j t = Some r" for j t
        using 1(1) [OF that] le by blast
      show ?thesis
        using True 1(2) g by (subst expand_loop.simps) (auto simp: less_defined_def split: sum.splits dest!: IH)
    next
      case False
      then show ?thesis using 1(2) by (subst expand_loop.simps) simp
    qed
  qed
qed

lemma expand_loop_Some_rev:
  "expand_loop mal' new_sz i s = Some r \<Longrightarrow> (\<forall>n s. less_defined (mal n s) (mal' n s)) \<longrightarrow>
    (\<exists>r'. expand_loop mal new_sz i s = Some r')"
proof (induction mal' new_sz i s r rule: expand_loop.raw_induct [rotated, consumes 1])
  case (1 rec mal' new_sz i s r)
  show ?case
  proof (intro impI)
    assume le: "\<forall>n s. less_defined (mal n s) (mal' n s)"
    let ?g = "get_page mal' (start_address (heap s) + i) 1 (vm_page_dir s) s"
    have g: "less_defined (get_page mal (start_address (heap s) + i) 1 (vm_page_dir s) s) ?g"
      using le by (intro get_page_less_defined) simp
    show "\<exists>r'. expand_loop mal new_sz i s = Some r'"
    proof (cases "i < new_sz")
      case True
      have IH: "\<exists>r'. expand_loop mal new_sz j t = Some r'" if "rec mal' new_sz j t = Some r" for j t
        using 1(1) [OF that] le by blast
      show ?thesis
        using True 1(2) g by (subst expand_loop.simps) (auto simp: less_defined_def split: sum.splits dest!: IH)
    next
      case False
      then show ?thesis by (subst expand_loop.simps) simp
    qed
  qed
qed

lemma expand_less_defined:
  assumes "\<And>n s. less_defined (mal n s) (mal' n s)"
  shows "less_defined (expand mal new_sz s) (expand mal' new_sz s)"
proof -
  let ?a = "round_size new_sz" and ?b = "end_address (heap s) - start_address (heap s)"
  have le: "\<forall>n s. less_defined (mal n s) (mal' n s)" using assms by simp
  show ?thesis
  proof (cases "expand_loop mal ?a ?b s")
    case None
    then have "expand_loop mal' ?a ?b s = None"
      using expand_loop_Some_rev [of mal' ?a ?b s _ mal] le by (metis not_Some_eq)
    with None show ?thesis by (simp add: expand_def Let_def)
  next
    case (Some r)
    with expand_loop_Some [OF Some, of mal'] le show ?thesis
      by (auto simp: expand_def Let_def)
  qed
qed

lemma grow_heap_less_defined:
  "(\<And>n s. less_defined (mal n s) (mal' n s)) \<Longrightarrow> less_defined (grow_heap mal new_sz s) (grow_heap mal' new_sz s)"
  unfolding grow_heap_def Let_def by (intro less_defined_ebind expand_less_defined) simp_all

lemma malloc_over_less_defined:
  "(\<And>sz pa s. less_defined (al sz pa s) (al' sz pa s)) \<Longrightarrow>
    less_defined (malloc_over al m_size pa want s) (malloc_over al' m_size pa want s)"
  by (auto simp: malloc_over_def Let_def intro: less_defined_ebind)

lemma alloc_body_less_defined:
  assumes "\<And>sz pa s. less_defined (al sz pa s) (al' sz pa s)"
  shows "less_defined (alloc_body al sz pa s) (alloc_body al' sz pa s)"
proof -
  have "less_defined (grow_heap (\<lambda>m. malloc_over al m 1 True) k t) (grow_heap (\<lambda>m. malloc_over al' m 1 True) k t)"
    for k t by (intro grow_heap_less_defined malloc_over_less_defined assms)
  then show ?thesis
    unfolding alloc_body_def Let_def
    by (intro less_defined_ebind [OF less_defined_refl]) (simp add: less_defined_ebind assms)
qed

lemma alloc_step_less_defined: "less_defined (alloc n sz pa s) (alloc (Suc n) sz pa s)"
  by (induction n arbitrary: sz pa s) (simp_all add: alloc_body_less_defined)

lemma alloc_less_defined: "n \<le> m \<Longrightarrow> less_defined (alloc n sz pa s) (alloc m sz pa s)"
proof (induction m)
  case (Suc m)
  then show ?case
    using alloc_step_less_defined less_defined_trans by (metis le_Suc_eq less_defined_refl)
qed simp


section \<open>The index gets shorter\<close>

definition capacity :: "'a kmem \<Rightarrow> nat" where
  "capacity s = unat (arr_size (index (heap s)))"

lemma setters_kheap [simp]:
  "kheap (set_is_hole h b s) = kheap s" "kheap (set_magic h v s) = kheap s" "kheap (set_size h v s) = kheap s"
  "kheap (set_footer_magic h v s) = kheap s" "kheap (set_footer_header h v s) = kheap s"
  by (simp_all add: set_is_hole_def set_magic_def set_size_def set_footer_magic_def set_footer_header_def)

lemma kheap_heap: "kheap t = kheap s \<Longrightarrow> heap t = heap s"
  by (simp add: heap_def)

lemma heap_setters [simp]:
  "heap (set_is_hole h b s) = heap s" "heap (set_magic h v s) = heap s" "heap (set_size h v s) = heap s"
  "heap (set_footer_magic h v s) = heap s" "heap (set_footer_header h v s) = heap s"
  "heap (alloc_frame p i w s) = heap s" "heap (free_frame p s) = heap s" "heap (poke a v s) = heap s"
  "heap (s\<lparr>mem := m\<rparr>) = heap s" "heap (set_heap hp s) = hp" "kheap (set_heap hp s) = Some hp"
  "heap (fill a v n s) = heap s" "kheap (fill a v n s) = kheap s"
  by (simp_all add: heap_def set_heap_def fill_def)

lemma capacity_setters [simp]:
  "capacity (set_is_hole h b s) = capacity s" "capacity (set_magic h v s) = capacity s"
  "capacity (set_size h v s) = capacity s" "capacity (set_footer_magic h v s) = capacity s"
  "capacity (set_footer_header h v s) = capacity s" "capacity (alloc_frame p i w s) = capacity s"
  "capacity (free_frame p s) = capacity s" "capacity (poke a v s) = capacity s"
  "capacity (fill a v n s) = capacity s"
  by (simp_all add: capacity_def)

text \<open>\<open>shrinks s t\<close>: \<open>t\<close> still has a heap, and its index is not longer than that of \<open>s\<close>.\<close>

definition shrinks :: "'a kmem \<Rightarrow> 'a kmem \<Rightarrow> bool" where
  "shrinks s t \<longleftrightarrow> kheap t \<noteq> None \<and> capacity t \<le> capacity s"

lemma shrinks_trans: "shrinks s t \<Longrightarrow> shrinks t u \<Longrightarrow> shrinks s u"
  by (simp add: shrinks_def)

lemma shrinks_same: "kheap t = kheap s \<Longrightarrow> kheap s \<noteq> None \<Longrightarrow> shrinks s t"
  using kheap_heap [of t s] by (simp add: shrinks_def capacity_def)

lemma insert_record: "insert_sorted_array item m a = Inr (m', a') \<Longrightarrow> a' = a\<lparr>cur := cur a + 1\<rparr>"
  by (auto simp: insert_sorted_array_def Let_def ebind_Inr_iff split: if_splits)

lemma heap_insert_Inr:
  "heap_insert x s = Inr t \<Longrightarrow> kheap t \<noteq> None \<and> capacity t = capacity s
    \<and> end_address (heap t) = end_address (heap s) \<and> start_address (heap t) = start_address (heap s)"
  by (auto simp: heap_insert_def ebind_Inr_iff capacity_def dest: insert_record)

lemma heap_find_Inr: "heap_find i s = Inr x \<Longrightarrow> unat i < capacity s \<and> array (index (heap s)) \<noteq> 0"
  by (auto simp: heap_find_def find_sorted_array_def kpanic_def capacity_def word_le_nat_alt split: if_splits)

lemma heap_remove_Inr:
  assumes "heap_remove i s = Inr t"
  shows "kheap t \<noteq> None" and "unat i < capacity s \<Longrightarrow> capacity t = capacity s - 1" and "capacity t \<le> capacity s"
    and "start_address (heap t) = start_address (heap s)" and "end_address (heap t) = end_address (heap s)"
proof -
  let ?n = "arr_size (index (heap s))"
  have u: "unat (?n - 1) = unat ?n - 1" if "unat i < unat ?n"
  proof -
    have "?n \<noteq> 0" using that by auto
    then show ?thesis by (rule unat_minus_one)
  qed
  have *: "kheap t \<noteq> None \<and> (if unat i < unat ?n then arr_size (index (heap t)) = ?n - 1 else arr_size (index (heap t)) = ?n)
      \<and> start_address (heap t) = start_address (heap s) \<and> end_address (heap t) = end_address (heap s)"
    using assms by (auto simp: heap_remove_def remove_sorted_array_def kpanic_def ebind_Inr_iff
        word_le_nat_alt split: if_splits)
  then show "kheap t \<noteq> None" and "unat i < capacity s \<Longrightarrow> capacity t = capacity s - 1"
    and "start_address (heap t) = start_address (heap s)" and "end_address (heap t) = end_address (heap s)"
    using u by (simp_all add: capacity_def)
  show "capacity t \<le> capacity s"
    using * u by (cases "unat i < unat ?n") (simp_all add: capacity_def)
qed

lemma find_page_same: "find_page a d s = Inr r \<Longrightarrow> snd r = s"
  by (auto simp: find_page_def get_page_def Let_def split: if_splits)

text \<open>An allocator that only ever shortens the index.\<close>

definition shrinking :: "'a ap_allocator \<Rightarrow> bool" where
  "shrinking mal \<longleftrightarrow> (\<forall>n s a p t. kheap s \<noteq> None \<longrightarrow> mal n s = Inr (a, p, t) \<longrightarrow> shrinks s t)"

lemma get_page_shrinks:
  assumes "shrinking mal" and "kheap s \<noteq> None" and "get_page mal a c d s = Inr (p, t)"
  shows "shrinks s t"
proof (cases "peek s (table_slot d (a div 0x1000 div 1024)) \<noteq> 0 \<or> c = 0")
  case True
  then have "t = s" using assms(3) by (auto simp: get_page_def Let_def split: if_splits)
  then show ?thesis using assms(2) by (simp add: shrinks_same)
next
  case False
  then obtain table phy u where u: "mal 0x1000 s = Inr (table, phy, u)"
    and t: "kheap t = kheap u" using assms(3) by (auto simp: get_page_def Let_def ebind_Inr_iff)
  have "shrinks s u" using assms(1,2) u unfolding shrinking_def by blast
  moreover from this have "shrinks u t" using t by (intro shrinks_same) (simp_all add: shrinks_def)
  ultimately show ?thesis by (rule shrinks_trans)
qed

lemma expand_loop_shrinks:
  "expand_loop mal new_sz i s = Some r \<Longrightarrow> shrinking mal \<longrightarrow> kheap s \<noteq> None \<longrightarrow> (\<forall>t. r = Inr t \<longrightarrow> shrinks s t)"
proof (induction mal new_sz i s r rule: expand_loop.raw_induct [rotated, consumes 1])
  case (1 rec mal new_sz i s r)
  show ?case
  proof (intro impI allI)
    fix t
    assume m: "shrinking mal" and k: "kheap s \<noteq> None" and r: "r = Inr t"
    show "shrinks s t"
    proof (cases "i < new_sz")
      case False
      then have "t = s" using 1(2) r by simp
      then show ?thesis using k by (simp add: shrinks_same)
    next
      case True
      then obtain p u i' w' where g: "get_page mal (start_address (heap s) + i) 1 (vm_page_dir s) s = Inr (p, u)"
        and rec: "rec mal new_sz (i + 0x1000) (alloc_frame p i' w' u) = Some (Inr t)"
        using 1(2) r by (auto split: sum.splits)
      have su: "shrinks s u" using m k g by (rule get_page_shrinks)
      let ?u = "alloc_frame p i' w' u"
      have uu: "shrinks u ?u" using su by (intro shrinks_same) (simp_all add: shrinks_def)
      moreover have "shrinks ?u t" using 1(1) [OF rec] m uu by (simp add: shrinks_def)
      ultimately show ?thesis using su shrinks_trans by blast
    qed
  qed
qed

lemma expand_shrinks:
  assumes "shrinking mal" and "kheap s \<noteq> None" and "expand mal k s = Inr t"
  shows "shrinks s t"
proof -
  obtain u e where "expand_loop mal (round_size k) (end_address (heap s) - start_address (heap s)) s = Some (Inr u)"
    and t: "t = set_heap ((heap u)\<lparr>end_address := e\<rparr>) u"
    using assms(3) by (auto simp: expand_def Let_def ebind_Inr_iff split: option.splits)
  then have "shrinks s u" using expand_loop_shrinks assms(1,2) by blast
  then show ?thesis by (simp add: t shrinks_def capacity_def)
qed

lemma grow_heap_shrinks:
  assumes "shrinking mal" and "kheap s \<noteq> None" and "grow_heap mal k s = Inr t"
  shows "shrinks s t"
proof -
  obtain u idx where u: "expand mal (end_address (heap s) - start_address (heap s) + k) s = Inr u"
    using assms(3) unfolding grow_heap_def Let_def ebind_Inr_iff by blast
  have su: "shrinks s u" by (rule expand_shrinks [OF assms(1,2) u])
  then have "kheap t \<noteq> None \<and> capacity t = capacity u"
    using assms(3) by (auto simp: grow_heap_def Let_def u ebind_Inr_iff shrinks_def dest: heap_insert_Inr split: if_splits)
  with su show ?thesis by (simp add: shrinks_def)
qed


lemma and_FFF: "x AND 0xFFF = take_bit 12 x" for x :: u32
  by (simp add: take_bit_eq_mask mask_eq_exp_minus_1)

lemma align_up: "(x - (x AND 0xFFF) + 0x1000) AND 0xFFF = 0" for x :: u32
proof -
  have e: "x - take_bit 12 x = x AND NOT (mask 12)" by (simp only: and_not_mask_eq)
  have "unat ((x AND NOT (mask 12)) + 0x1000) mod 2 ^ 12 = (unat x div 2 ^ 12 * 2 ^ 12 + 2 ^ 12) mod 2 ^ 32 mod 2 ^ 12"
    by (simp only: unat_word_ariths unat_and_not_mask) simp
  also have "\<dots> = 0" by (subst mod_mod_cancel) simp_all
  finally have "unat (take_bit 12 ((x AND NOT (mask 12)) + 0x1000)) = 0" by (simp only: unat_take_bit_word)
  then show ?thesis by (simp only: and_FFF e unat_eq_zero)
qed

lemma block_aligned: "(x + 0x1000 - ((x + 12) AND 0xFFF) + 12) AND 0xFFF = 0" for x :: u32
  using align_up [of "x + 12"] by (simp add: algebra_simps)

text \<open>How a call of \<open>take_hole\<close> that returns came to its result.\<close>

lemma take_hole_Inr:
  fixes s t :: "'a kmem"
  assumes "take_hole sz nsz pa iter s = Inr (p, t)" and "kheap s \<noteq> None"
  shows "kheap t \<noteq> None" and "0 < capacity s"
    and "pa = 0 \<Longrightarrow> capacity t = capacity s - 1" and "capacity t \<le> capacity s"
    and "pa \<noteq> 0 \<Longrightarrow> p AND 0xFFF = 0"
proof -
  obtain pos where pos: "heap_find iter s = Inr pos"
    using assms(1) unfolding take_hole_def ebind_Inr_iff by blast
  then have i: "unat iter < capacity s" by (simp add: heap_find_Inr)
  then show "0 < capacity s" by simp
  let ?c = "pa \<noteq> 0 \<and> (pos + sizeof_header) AND 0xFFF \<noteq> 0"
  obtain q and u :: "'a kmem" where q: "q = (if ?c then pos + 0x1000 - ((pos + sizeof_header) AND 0xFFF) else pos)"
    and u: "kheap u \<noteq> None \<and> capacity u = (if ?c then capacity s else capacity s - 1)"
    and p: "p = q + sizeof_header" and t: "kheap t \<noteq> None \<and> capacity t = capacity u"
  proof (cases ?c)
    case True
    then show ?thesis
      using assms pos that [of "pos + 0x1000 - ((pos + sizeof_header) AND 0xFFF)" s]
      by (auto simp: take_hole_def Let_def ebind_Inr_iff dest!: heap_insert_Inr split: if_splits)
  next
    case False
    then obtain u where u: "heap_remove iter s = Inr u"
      and rest: "p = pos + sizeof_header" "kheap u \<noteq> None \<longrightarrow> kheap t \<noteq> None \<and> capacity t = capacity u"
      using assms(1) pos by (auto simp: take_hole_def Let_def ebind_Inr_iff dest!: heap_insert_Inr split: if_splits)
    show ?thesis
      using that [of pos u] False rest heap_remove_Inr(1,2) [OF u] i by (simp only: if_False) blast
  qed
  show "kheap t \<noteq> None" using t by blast
  show "pa = 0 \<Longrightarrow> capacity t = capacity s - 1" using t u by simp
  show "capacity t \<le> capacity s" using t u by (simp split: if_splits)
  assume "pa \<noteq> 0"
  then show "p AND 0xFFF = 0"
    using block_aligned [of pos] by (auto simp: p q sizeof_header_def)
qed

lemma find_hole_small: "find_hole_fit_first sz pa s = Inr i \<Longrightarrow> i \<noteq> - 1 \<Longrightarrow> i \<noteq> arr_size (index (heap s))"
  by (auto simp: find_hole_fit_first_def ebind_Inr_iff split: if_splits)

lemma malloc_over_shrinks:
  assumes "\<And>sz pa s p t. kheap s \<noteq> None \<Longrightarrow> al sz pa s = Inr (p, t) \<Longrightarrow> shrinks s t"
  shows "shrinking (\<lambda>m. malloc_over al m pa want)"
  unfolding shrinking_def
proof (intro allI impI)
  fix n s a p t
  assume k: "kheap s \<noteq> None" and m: "malloc_over al n pa want s = Inr (a, p, t)"
  then obtain b u where "al n pa s = Inr (b, u)" "t = u"
    by (auto simp: malloc_over_def ebind_Inr_iff dest: find_page_same split: if_splits)
  then show "shrinks s t" using assms k by blast
qed

lemma alloc_Inr:
  fixes s t :: "'a kmem"
  shows "kheap s \<noteq> None \<Longrightarrow> alloc n sz pa s = Inr (p, t) \<Longrightarrow>
    shrinks s t \<and> 0 < capacity s \<and> (pa = 0 \<longrightarrow> capacity t < capacity s) \<and> (pa \<noteq> 0 \<longrightarrow> p AND 0xFFF = 0)"
proof (induction n arbitrary: sz pa s p t)
  case (Suc n)
  obtain i where i: "find_hole_fit_first (sz + sizeof_header + sizeof_footer) pa s = Inr i"
    using Suc.prems(2) unfolding alloc.simps alloc_body_def Let_def ebind_Inr_iff by blast
  show ?case
  proof (cases "i = - 1")
    case False
    then have "take_hole sz (sz + sizeof_header + sizeof_footer) pa i s = Inr (p, t)"
      using Suc.prems(2) i by (simp add: alloc_body_def Let_def)
    from take_hole_Inr [OF this Suc.prems(1)] show ?thesis by (auto simp: shrinks_def)
  next
    case True
    then obtain u where u: "grow_heap (\<lambda>m. malloc_over (alloc n) m 1 True) (sz + sizeof_header + sizeof_footer) s = Inr u"
      and a: "alloc n sz pa u = Inr (p, t)"
      using Suc.prems(2) i by (auto simp: alloc_body_def Let_def ebind_Inr_iff)
    have "shrinking ((\<lambda>m. malloc_over (alloc n) m 1 True) :: 'a ap_allocator)"
    proof (rule malloc_over_shrinks)
      fix sz pa p and s t :: "'a kmem"
      assume "kheap s \<noteq> None" and "alloc n sz pa s = Inr (p, t)"
      from Suc.IH [OF this] show "shrinks s t" by simp
    qed
    then have su: "shrinks s u" using Suc.prems(1) u by (rule grow_heap_shrinks)
    then have "kheap u \<noteq> None" by (simp add: shrinks_def)
    from Suc.IH [OF this a] su show ?thesis by (auto simp: shrinks_def)
  qed
qed simp


section \<open>Splitting a hole\<close>

text \<open>
  The writes of \<open>take_hole\<close> when a block of \<open>S\<close> usable bytes is cut from the hole of \<open>T\<close> bytes at
  \<open>hp\<close> without alignment, at their offsets from \<open>hp\<close>; \<open>g\<close> is the guard of the last two.
\<close>

definition split_mem :: "memory \<Rightarrow> u32 \<Rightarrow> nat \<Rightarrow> nat \<Rightarrow> bool \<Rightarrow> memory" where
  "split_mem m hp S T g =
     (let m = store32 m (off hp 4) HEAP_MAGIC;
          m = store8 m (off hp 0) 0;
          m = store32 m (off hp 8) (of_nat (S + 20));
          m = store32 m (off hp (S + 12)) HEAP_MAGIC;
          m = store32 m (off hp (S + 16)) hp;
          m = store32 m (off hp (S + 24)) HEAP_MAGIC;
          m = store8 m (off hp (S + 20)) 1;
          m = store32 m (off hp (S + 28)) (of_nat (T - (S + 20)))
      in if g then store32 (store32 m (off hp (T - S - 28)) HEAP_MAGIC) (off hp (T - S - 24)) (off hp (S + 20))
         else m)"

lemma mem_twice: "s\<lparr>mem := m, mem := m'\<rparr> = s\<lparr>mem := m'\<rparr>" "mem (s\<lparr>mem := m\<rparr>) = m"
  by simp_all

lemma setters_on_mem:
  "set_magic h v (s\<lparr>mem := m\<rparr>) = s\<lparr>mem := store32 m (h + 4) v\<rparr>"
  "set_size h v (s\<lparr>mem := m\<rparr>) = s\<lparr>mem := store32 m (h + 8) v\<rparr>"
  "set_footer_magic h v (s\<lparr>mem := m\<rparr>) = s\<lparr>mem := store32 m h v\<rparr>"
  "set_footer_header h v (s\<lparr>mem := m\<rparr>) = s\<lparr>mem := store32 m (h + 4) v\<rparr>"
  "set_is_hole h b (s\<lparr>mem := m\<rparr>) = s\<lparr>mem := store8 m h b\<rparr>"
  by (simp_all add: set_magic_def set_size_def set_footer_magic_def set_footer_header_def set_is_hole_def poke_def poke8_def)

lemma take_hole_split:
  assumes "heap_find iter s = Inr hp" and "heap_remove iter s = Inr u"
    and "unat sz + 20 < 2 ^ 32" and "unat sz + 40 \<le> unat (header_size s hp)"
  shows "take_hole sz (sz + 20) 0 iter s =
    ebind (heap_insert (off hp (unat sz + 20))
        (u\<lparr>mem := split_mem (mem u) hp (unat sz) (unat (header_size s hp))
          (off hp (unat (header_size s hp) - unat sz - 28) < end_address (heap s))\<rparr>))
      (\<lambda>t. Inr (off hp 12, t))"
proof -
  let ?O = "header_size s hp" and ?S = "unat sz"
  have N: "unat (sz + 20) = ?S + 20" using assms(3) by (simp add: unat_word_ariths)
  have D: "unat (?O - (sz + 20)) = unat ?O - (?S + 20)"
    using assms(4) N by (subst unat_sub) (simp_all add: word_le_nat_alt)
  have small: "\<not> ?O - (sz + 20) < sizeof_header + sizeof_footer"
    using D assms(4) by (simp add: sizeof_header_def sizeof_footer_def word_less_nat_alt)
  have big: "sz + 20 < ?O" using N assms(4) by (simp add: word_less_nat_alt)
  have ao: "off hp 0 = hp" "off hp 4 = hp + 4" "off hp 8 = hp + 8" "off hp 12 = hp + 12"
    "off hp (?S + 12) = hp + sz + 12" "off hp (?S + 16) = hp + sz + 12 + 4" "off hp (?S + 20) = hp + 12 + 8 + sz"
    "off hp (?S + 24) = hp + 12 + 8 + sz + 4" "off hp (?S + 28) = hp + 12 + 8 + sz + 8"
    "off hp (unat ?O - ?S - 28) = hp + ?O - 8 - (sz + 20)"
    "off hp (unat ?O - ?S - 24) = hp + ?O - 8 - (sz + 20) + 4"
    "of_nat (?S + 20) = sz + 20" "of_nat (unat ?O - (?S + 20)) = ?O - (sz + 20)"
    using assms(4) by (simp_all add: off_def of_nat_diff)
  have eh: "end_address (heap s) = end_address (heap u)" using heap_remove_Inr(5) [OF assms(2)] by simp
  obtain v m where u: "u = v\<lparr>mem := m\<rparr>"
  proof
    show "u = u\<lparr>mem := mem u\<rparr>" by simp
  qed
  show ?thesis
    unfolding take_hole_def assms(1) ebind_simps Let_def
    apply (simp only: small if_False simp_thms assms(2) ebind_simps prod.case big if_True)
    apply (simp only: sizeof_header_def sizeof_footer_def heap_setters ao eh)
    apply (simp only: u split_mem_def Let_def ao setters_on_mem heap_setters kernel_memory.select_convs kernel_memory.update_convs)
    by (cases "hp + ?O - 8 - (sz + 20) < end_address (heap v)") (simp_all only: if_True if_False mem_twice)
qed

text \<open>Reading back what \<open>split_mem\<close> wrote.\<close>

lemma split_mem_block:
  assumes "S + 40 \<le> T" and "T < 2 ^ 32" and "\<not> g \<or> T - (S + 20) + 8 \<le> S + 20 \<or> S + 40 \<le> T - (S + 20)"
  shows "load8 (split_mem m hp S T g) (off hp 0) = 0"
    and "load32 (split_mem m hp S T g) (off hp 4) = HEAP_MAGIC"
    and "load32 (split_mem m hp S T g) (off hp 8) = of_nat (S + 20)"
    and "load32 (split_mem m hp S T g) (off hp (S + 12)) = HEAP_MAGIC"
    and "load32 (split_mem m hp S T g) (off hp (S + 16)) = hp"
    and "load8 (split_mem m hp S T g) (off hp (S + 20)) = 1"
    and "load32 (split_mem m hp S T g) (off hp (S + 24)) = HEAP_MAGIC"
    and "load32 (split_mem m hp S T g) (off hp (S + 28)) = of_nat (T - (S + 20))"
  using assms unfolding split_mem_def Let_def by (auto simp: off_simps)

lemma split_mem_outside:
  "S + 40 \<le> T \<Longrightarrow> T < 2 ^ 32 \<Longrightarrow> \<not> in_range hp T x \<Longrightarrow> split_mem m hp S T g x = m x"
  unfolding split_mem_def Let_def by (simp add: off_simps)

lemma in_range_offs:
  assumes "i < 2 ^ 32" and "j + k \<le> 2 ^ 32"
  shows "in_range (off b j) k (off b i) \<longleftrightarrow> j \<le> i \<and> i < j + k"
proof (cases "k = 0")
  case False
  then have "unat (of_nat i :: u32) = i" "unat (of_nat j :: u32) = j" using assms by (intro unat_of_nat_small; simp)+
  then have "unat (off b i - off b j) = (if j \<le> i then i - j else i + 2 ^ 32 - j)" by (simp add: off_def unat_sub_if')
  then show ?thesis using assms by (auto simp: in_range_def)
qed (simp add: in_range_def)

lemma store_offs:
  "i < 2 ^ 32 \<Longrightarrow> j + 4 \<le> 2 ^ 32 \<Longrightarrow> i < j \<or> j + 4 \<le> i \<Longrightarrow> store32 m (off b j) v (off b i) = m (off b i)"
  "i < 2 ^ 32 \<Longrightarrow> j + 1 \<le> 2 ^ 32 \<Longrightarrow> i \<noteq> j \<Longrightarrow> store8 m (off b j) c (off b i) = m (off b i)"
  using in_range_offs [of i j 4 b] in_range_offs [of i j 1 b] by (auto simp: store32_other store8_def in_range_1)

text \<open>Between the headers and footers \<open>split_mem\<close> writes nothing.\<close>

lemma split_mem_gap:
  assumes "12 \<le> i \<and> i < S + 12 \<or> S + 32 \<le> i" and "i + S + 28 < T" and "T < 2 ^ 32"
  shows "split_mem m hp S T g (off hp i) = m (off hp i)"
proof -
  obtain d where d: "T - S - 28 = d" "T - S - 24 = d + 4" "i < d" "d + 28 + S = T"
    using assms that [of "T - S - 28"] by linarith
  show ?thesis
    using assms(1,3) d(3,4) unfolding split_mem_def Let_def d(1,2) by (auto simp: store_offs)
qed

section \<open>The index of the heap\<close>

text \<open>The entries of the index, those past \<open>cur\<close> included, and the first that fits.\<close>

definition index_words :: "'a kmem \<Rightarrow> u32 list" where
  "index_words s = slots (mem s) (index (heap s)) (capacity s)"

definition first_fit :: "u32 \<Rightarrow> u8 \<Rightarrow> 'a kmem \<Rightarrow> nat option" where
  "first_fit sz pa s = List.find (\<lambda>k. hole_fits sz pa s (index_words s ! k)) [0..<capacity s]"

lemma first_fit_Some: "first_fit sz pa s = Some k \<longleftrightarrow>
    k < capacity s \<and> hole_fits sz pa s (index_words s ! k) \<and> (\<forall>j < k. \<not> hole_fits sz pa s (index_words s ! j))"
  by (auto simp: first_fit_def find_Some_iff)

lemma heap_find_word:
  "array (index (heap s)) \<noteq> 0 \<Longrightarrow> unat i < capacity s \<Longrightarrow> heap_find i s = Inr (index_words s ! unat i)"
  using slots_nth [of i "capacity s" "mem s" "index (heap s)"]
  by (simp add: heap_find_def find_sorted_array_def index_words_def capacity_def word_le_nat_alt)

lemma find_hole_from_spec:
  assumes "array (index (heap s)) \<noteq> 0" and "unat i \<le> capacity s"
  shows "\<exists>j. find_hole_from sz pa s i = Inr j \<and> unat i \<le> unat j \<and> unat j \<le> capacity s
    \<and> (\<forall>k. unat i \<le> k \<and> k < unat j \<longrightarrow> \<not> hole_fits sz pa s (index_words s ! k))
    \<and> (unat j < capacity s \<longrightarrow> hole_fits sz pa s (index_words s ! unat j))"
  using assms
proof (induction sz pa s i rule: find_hole_from.induct)
  case (1 sz pa s i)
  show ?case
  proof (cases "i < arr_size (index (heap s))")
    case False
    then have "\<not> unat i < capacity s" by (simp add: capacity_def word_less_nat_alt)
    moreover have "find_hole_from sz pa s i = Inr i" using False by (subst find_hole_from.simps) simp
    ultimately show ?thesis using "1.prems" by auto
  next
    case True
    then have lt: "unat i < capacity s" by (simp add: capacity_def word_less_nat_alt)
    then have ni: "unat (i + 1) = unat i + 1"
      using unat_u32_lt [of "arr_size (index (heap s))"] by (simp add: unat_word_ariths capacity_def)
    have f: "heap_find i s = Inr (index_words s ! unat i)" using "1.prems"(1) lt by (rule heap_find_word)
    show ?thesis
    proof (cases "hole_fits sz pa s (index_words s ! unat i)")
      case fits: True
      then have "find_hole_from sz pa s i = Inr i" using True f by (subst find_hole_from.simps) simp
      then show ?thesis using fits lt by auto
    next
      case nofit: False
      then have eq: "find_hole_from sz pa s i = find_hole_from sz pa s (i + 1)"
        using True f by (subst find_hole_from.simps) simp
      obtain j where j: "find_hole_from sz pa s (i + 1) = Inr j" "unat i + 1 \<le> unat j" "unat j \<le> capacity s"
        "\<forall>k. unat i + 1 \<le> k \<and> k < unat j \<longrightarrow> \<not> hole_fits sz pa s (index_words s ! k)"
        "unat j < capacity s \<longrightarrow> hole_fits sz pa s (index_words s ! unat j)"
        using "1.IH" [OF True f nofit "1.prems"(1)] lt ni by auto
      have "\<not> hole_fits sz pa s (index_words s ! k)" if "unat i \<le> k" "k < unat j" for k
        using that j(4) nofit by (cases "k = unat i") auto
      with j show ?thesis unfolding eq by auto
    qed
  qed
qed

lemma find_hole_first_fit:
  assumes "array (index (heap s)) \<noteq> 0"
  shows "find_hole_fit_first sz pa s = Inr (case first_fit sz pa s of Some k \<Rightarrow> of_nat k | None \<Rightarrow> - 1)"
proof -
  obtain j where j: "find_hole_from sz pa s 0 = Inr j" "unat j \<le> capacity s"
    "\<forall>k < unat j. \<not> hole_fits sz pa s (index_words s ! k)"
    "unat j < capacity s \<longrightarrow> hole_fits sz pa s (index_words s ! unat j)"
    using find_hole_from_spec [OF assms, of 0 sz pa] by auto
  have e: "j = arr_size (index (heap s)) \<longleftrightarrow> unat j = capacity s"
    by (simp add: capacity_def word_unat_eq_iff)
  show ?thesis
  proof (cases "unat j = capacity s")
    case True
    then have "first_fit sz pa s = None" using j(3) by (auto simp: first_fit_def find_None_iff)
    then show ?thesis using j(1) True e by (simp add: find_hole_fit_first_def)
  next
    case False
    then have "first_fit sz pa s = Some (unat j)"
      using j(2-4) by (simp add: first_fit_Some)
    then show ?thesis using j(1) False e by (simp add: find_hole_fit_first_def)
  qed
qed

lemma first_fit_lt: "first_fit sz pa s = Some k \<Longrightarrow> k < capacity s \<and> unat (of_nat k :: u32) = k \<and> (of_nat k :: u32) \<noteq> - 1"
proof -
  assume "first_fit sz pa s = Some k"
  then have k: "k < capacity s" by (simp add: first_fit_Some)
  moreover have c: "capacity s < 2 ^ 32" using unat_u32_lt by (simp add: capacity_def)
  ultimately have u: "unat (of_nat k :: u32) = k" by (intro unat_of_nat_small) simp
  have "k < 2 ^ 32 - 1" using k c by linarith
  then have "(of_nat k :: u32) \<noteq> - 1"
    using u by (auto simp: unsigned_minus_1_eq_mask mask_eq_exp_minus_1)
  with k u show ?thesis by simp
qed

text \<open>With a hole that fits, \<open>alloc\<close> takes its block from the first such hole and needs no recursion.\<close>

lemma alloc_takes_first_fit:
  assumes "array (index (heap s)) \<noteq> 0" and "first_fit (sz + 20) pa s = Some k"
  shows "alloc (Suc n) sz pa s = take_hole sz (sz + 20) pa (of_nat k) s"
    and "heap_find (of_nat k) s = Inr (index_words s ! k)"
proof -
  note k = first_fit_lt [OF assms(2)]
  have "sz + sizeof_header + sizeof_footer = sz + 20" by (simp add: sizeof_header_def sizeof_footer_def)
  moreover have "find_hole_fit_first (sz + 20) pa s = Inr (of_nat k)"
    using find_hole_first_fit [OF assms(1), of "sz + 20" pa] assms(2) by simp
  ultimately show "alloc (Suc n) sz pa s = take_hole sz (sz + 20) pa (of_nat k) s"
    using k by (simp only: alloc.simps alloc_body_def Let_def ebind_simps) simp
  show "heap_find (of_nat k) s = Inr (index_words s ! k)"
    using heap_find_word [OF assms(1), of "of_nat k"] k by simp
qed

end
