(* ===== verification/Heap_Correctness.thy ===== *)
theory Heap_Correctness
  imports Kernel_Heap
begin

text \<open>
  What the allocation functions of \<open>src/src/kheap.c\<close> and \<open>src/src/kernel_malloc.c\<close> guarantee, and
  where they go wrong: first fit and the split of a hole, alignment, the placement allocator, the
  index that only gets shorter, and the inputs on which blocks overlap or low memory is handed out.
\<close>

section \<open>The index under insertion and removal\<close>

lemma heap_remove_live:
  assumes "array (index (heap s)) \<noteq> 0" and "k < unat (cur (index (heap s)))"
    and "unat (cur (index (heap s))) < capacity s" and "capacity s \<le> 2 ^ 30"
  obtains m a where "heap_remove (of_nat k) s = Inr (set_heap ((heap s)\<lparr>index := a\<rparr>) (s\<lparr>mem := m\<rparr>))"
    and "a = (index (heap s))\<lparr>arr_size := arr_size (index (heap s)) - 1\<rparr>"
    and "slots m (index (heap s)) (unat (cur (index (heap s)))) =
      take k (slots (mem s) (index (heap s)) (unat (cur (index (heap s)))))
        @ drop (k + 1) (slots (mem s) (index (heap s)) (unat (cur (index (heap s)))))
        @ [load32 (mem s) (slot (index (heap s)) (cur (index (heap s))))]"
    and "\<And>x. \<not> in_range (array (index (heap s))) (4 * capacity s) x \<Longrightarrow> m x = mem s x"
proof -
  let ?a = "index (heap s)"
  have u: "unat (of_nat k :: u32) = k" using assms(2-4) by (intro unat_of_nat_small) simp
  have "unat (of_nat k :: u32) < unat (cur ?a)" "unat (cur ?a) < unat (arr_size ?a)" "unat (arr_size ?a) \<le> 2 ^ 30"
    using assms u by (simp_all add: capacity_def)
  from remove_live [OF assms(1) this, of "mem s"] that show ?thesis
    by (auto simp: heap_remove_def u capacity_def)
qed

lemma heap_insert_live:
  assumes "cmp_fun (index (heap s)) = header_cmp_less" and "unat (cur (index (heap s))) + 2 \<le> n" and "n \<le> 2 ^ 30"
  obtains m a where "heap_insert item s = Inr (set_heap ((heap s)\<lparr>index := a\<rparr>) (s\<lparr>mem := m\<rparr>))"
    and "a = (index (heap s))\<lparr>cur := cur (index (heap s)) + 1\<rparr>"
    and "slots m (index (heap s)) (unat (cur (index (heap s))) + 1) =
      item # slots (mem s) (index (heap s)) (unat (cur (index (heap s))))"
    and "\<And>x. \<not> in_range (array (index (heap s))) (4 * n) x \<Longrightarrow> m x = mem s x"
proof -
  let ?a = "index (heap s)"
  obtain m' where m': "insert_sorted_array item (mem s) ?a = Inr (m', ?a\<lparr>cur := cur ?a + 1\<rparr>)"
    and sl: "slots m' ?a (unat (cur ?a) + 1) = item # slots (mem s) ?a (unat (cur ?a))"
    and fr: "\<forall>x. \<not> in_range (array ?a) (4 * n) x \<longrightarrow> m' x = mem s x"
    using header_cmp.insert_front [OF assms, of item "mem s"] by blast
  show ?thesis
  proof (rule that)
    show "heap_insert item s = Inr (set_heap ((heap s)\<lparr>index := ?a\<lparr>cur := cur ?a + 1\<rparr>\<rparr>) (s\<lparr>mem := m'\<rparr>))"
      by (simp add: heap_insert_def m')
  qed (use sl fr in simp_all)
qed

lemma mem_set_heap [simp]: "mem (set_heap h s) = mem s"
  by (simp add: set_heap_def)

lemma length_index_words [simp]: "length (index_words s) = capacity s"
  by (simp add: index_words_def)

lemma slots_cong:
  assumes "\<And>x. in_range (array a) (4 * n) x \<Longrightarrow> m x = m' x" and "k \<le> n" and "n \<le> 2 ^ 30"
  shows "slots m a k = slots m' a k"
proof (rule nth_equalityI)
  fix i
  assume "i < length (slots m a k)"
  then have i: "i < k" by simp
  then have u: "unat (of_nat i :: u32) = i" using assms(2,3) by (intro unat_of_nat_small) simp
  have "load32 m (slot a (of_nat i)) = load32 m' (slot a (of_nat i))"
    using assms i u by (intro load32_cong assms(1) in_slot_in_array [of a "of_nat i"]) simp_all
  then show "slots m a k ! i = slots m' a k ! i"
    using slots_nth [of "of_nat i" k m a] slots_nth [of "of_nat i" k m' a] i u by simp
qed simp

section \<open>First fit\<close>

text \<open>
  \<open>find_hole_fit_first\<close> gives the number of the first entry of the index whose hole is
  large enough, and -1 when none is; it never panics, since it stays below the capacity.
\<close>

theorem find_hole_is_first_fit:
  assumes "array (index (heap s)) \<noteq> 0"
  shows "find_hole_fit_first sz pa s = Inr (case first_fit sz pa s of Some k \<Rightarrow> of_nat k | None \<Rightarrow> - 1)"
  using assms by (rule find_hole_first_fit)

text \<open>A heap that is well formed for cutting a block of \<open>sz\<close> bytes from hole number \<open>k\<close> of the index.\<close>

definition can_split :: "u32 \<Rightarrow> nat \<Rightarrow> 'a kmem \<Rightarrow> bool" where
  "can_split sz k s \<longleftrightarrow>
     (let a = index (heap s); hp = index_words s ! k; total = unat (header_size s hp) in
      array a \<noteq> 0 \<and> cmp_fun a = header_cmp_less \<and> k < unat (cur a) \<and> unat (cur a) + 2 \<le> capacity s \<and> capacity s \<le> 2 ^ 30
      \<and> first_fit (sz + 20) 0 s = Some k \<and> unat sz + 40 \<le> total
      \<and> (\<forall>x. in_range hp total x \<longrightarrow> \<not> in_range (array a) (4 * capacity s) x))"

lemma alloc_split_state:
  fixes s :: "'a kmem"
  assumes "can_split sz k s" and "hp = index_words s ! k" and "S = unat sz" and "T = unat (header_size s hp)"
  obtains t :: "'a kmem" and m where "alloc (Suc n) sz 0 s = Inr (off hp 12, t)"
    and "\<And>x. in_range hp T x \<Longrightarrow> mem t x = split_mem m hp S T (off hp (T - S - 28) < end_address (heap s)) x"
    and "slots (mem t) (index (heap t)) (unat (cur (index (heap t)))) =
        off hp (S + 20) # take k (index_words s) @ drop (k + 1) (take (unat (cur (index (heap s))) + 1) (index_words s))"
    and "capacity t = capacity s - 1"
    and "\<And>x. \<not> in_range hp T x \<Longrightarrow> \<not> in_range (array (index (heap s))) (4 * capacity s) x \<Longrightarrow> mem t x = mem s x"
    and "S + 40 \<le> T" and "T < 2 ^ 32" and "\<And>x. in_range hp T x \<Longrightarrow> m x = mem s x"
    and "t = set_heap ((heap s)\<lparr>index := (index (heap s))\<lparr>arr_size := arr_size (index (heap s)) - 1, cur := cur (index (heap s)) + 1\<rparr>\<rparr>) (s\<lparr>mem := mem t\<rparr>)"
proof -
  let ?a = "index (heap s)" and ?c = "unat (cur (index (heap s)))"
  have w: "array ?a \<noteq> 0" "cmp_fun ?a = header_cmp_less" "k < ?c" "?c + 2 \<le> capacity s" "capacity s \<le> 2 ^ 30"
    "first_fit (sz + 20) 0 s = Some k" "S + 40 \<le> T"
    "\<And>x. in_range hp T x \<Longrightarrow> \<not> in_range (array ?a) (4 * capacity s) x"
    using assms(1) by (simp_all add: can_split_def Let_def assms(2-4))
  have T: "T < 2 ^ 32" using unat_u32_lt by (simp add: assms(4))
  obtain m a where rm: "heap_remove (of_nat k) s = Inr (set_heap ((heap s)\<lparr>index := a\<rparr>) (s\<lparr>mem := m\<rparr>))"
    and a: "a = ?a\<lparr>arr_size := arr_size ?a - 1\<rparr>"
    and sl: "slots m ?a ?c = take k (slots (mem s) ?a ?c) @ drop (k + 1) (slots (mem s) ?a ?c)
        @ [load32 (mem s) (slot ?a (cur ?a))]"
    and fr: "\<And>x. \<not> in_range (array ?a) (4 * capacity s) x \<Longrightarrow> m x = mem s x"
    using heap_remove_live [OF w(1,3) _ w(5)] w(4) by (metis Suc_eq_plus1 Suc_le_lessD add_2_eq_Suc' le_SucI less_Suc_eq_le less_eq_Suc_le)
  let ?u = "set_heap ((heap s)\<lparr>index := a\<rparr>) (s\<lparr>mem := m\<rparr>)"
  let ?g = "off hp (T - S - 28) < end_address (heap s)"
  have th: "take_hole sz (sz + 20) 0 (of_nat k) s =
      ebind (heap_insert (off hp (S + 20)) (?u\<lparr>mem := split_mem m hp S T ?g\<rparr>)) (\<lambda>t. Inr (off hp 12, t))"
    using take_hole_split [of "of_nat k" s hp ?u sz] alloc_takes_first_fit(2) [OF w(1,6)] rm w(7) T
    by (simp add: assms(2-4))
  let ?v = "?u\<lparr>mem := split_mem m hp S T ?g\<rparr>"
  have hv: "heap ?v = (heap s)\<lparr>index := a\<rparr>" by (simp add: set_heap_def heap_def)
  have 1: "cmp_fun (index (heap ?v)) = header_cmp_less" "unat (cur (index (heap ?v))) + 2 \<le> capacity s"
    using w(2,4) by (simp_all add: hv a)
  obtain m' a' where ins: "heap_insert (off hp (S + 20)) ?v = Inr (set_heap ((heap ?v)\<lparr>index := a'\<rparr>) (?v\<lparr>mem := m'\<rparr>))"
    and a': "a' = (index (heap ?v))\<lparr>cur := cur (index (heap ?v)) + 1\<rparr>"
    and sl': "slots m' (index (heap ?v)) (unat (cur (index (heap ?v))) + 1) =
      off hp (S + 20) # slots (mem ?v) (index (heap ?v)) (unat (cur (index (heap ?v))))"
    and fr': "\<And>x. \<not> in_range (array (index (heap ?v))) (4 * capacity s) x \<Longrightarrow> m' x = mem ?v x"
    using heap_insert_live [OF 1 w(5), of "off hp (S + 20)"] by blast
  let ?t = "set_heap ((heap ?v)\<lparr>index := a'\<rparr>) (?v\<lparr>mem := m'\<rparr>)"
  have al: "alloc (Suc n) sz 0 s = Inr (off hp 12, ?t)"
    using alloc_takes_first_fit(1) [OF w(1,6), of n] th ins by simp
  have mt: "mem ?t = m'" by simp
  have out: "m' x = split_mem m hp S T ?g x" if "\<not> in_range (array ?a) (4 * capacity s) x" for x
    using fr' that by (simp add: hv a)
  have hole: "m' x = split_mem m hp S T ?g x" if "in_range hp T x" for x
    using out w(8) [OF that] by blast
  have blk: "\<not> in_range hp T x \<Longrightarrow> split_mem m hp S T ?g x = m x" for x
    using w(7) T by (rule split_mem_outside)
  have cn: "unat (cur ?a + 1) = ?c + 1" using w(4,5) by (simp add: unat_word_ariths)
  have sm: "slots (split_mem m hp S T ?g) ?a ?c = slots m ?a ?c"
    using w(4,5,8) blk by (intro slots_cong [of _ "capacity s"]) auto
  have lv: "slots (mem s) ?a ?c = take ?c (index_words s)"
    using w(4) unfolding index_words_def by (intro slots_prefix) simp
  have nx: "take (?c + 1) (index_words s) = take ?c (index_words s) @ [load32 (mem s) (slot ?a (cur ?a))]"
    using w(4) slots_nth [of "cur ?a" "capacity s" "mem s" ?a]
    by (simp add: take_Suc_conv_app_nth index_words_def)
  have live: "slots (mem ?t) (index (heap ?t)) (unat (cur (index (heap ?t)))) =
      off hp (S + 20) # take k (index_words s) @ drop (k + 1) (take (?c + 1) (index_words s))"
    using sl' sl w(3,4) nx sm by (simp add: mt a' hv a cn lv)
  have cap: "capacity ?t = capacity s - 1"
  proof -
    have "arr_size ?a \<noteq> 0" using w(4) by (auto simp: capacity_def)
    then show ?thesis by (simp add: capacity_def a' hv a unat_minus_one)
  qed
  have frame: "mem ?t x = mem s x" if "\<not> in_range hp T x" "\<not> in_range (array ?a) (4 * capacity s) x" for x
    using that out fr blk by (simp add: mt)
  show ?thesis
  proof (rule that)
    show "alloc (Suc n) sz 0 s = Inr (off hp 12, ?t)" by (rule al)
    show "mem ?t x = split_mem m hp S T ?g x" if "in_range hp T x" for x using hole [OF that] by (simp only: mt)
    show "m x = mem s x" if "in_range hp T x" for x by (rule fr [OF w(8) [OF that]])
    show "?t = set_heap ((heap s)\<lparr>index := ?a\<lparr>arr_size := arr_size ?a - 1, cur := cur ?a + 1\<rparr>\<rparr>) (s\<lparr>mem := mem ?t\<rparr>)"
      by (simp add: set_heap_def heap_def a' a hv [unfolded set_heap_def heap_def])
  qed (fact live cap frame w(7) T)+
qed

lemma alloc_split:
  fixes s :: "'a kmem"
  assumes "can_split sz k s" and "hp = index_words s ! k" and "S = unat sz" and "T = unat (header_size s hp)"
  obtains t :: "'a kmem" and m where "alloc (Suc n) sz 0 s = Inr (off hp 12, t)"
    and "\<And>x. in_range hp T x \<Longrightarrow> mem t x = split_mem m hp S T (off hp (T - S - 28) < end_address (heap s)) x"
    and "slots (mem t) (index (heap t)) (unat (cur (index (heap t)))) =
        off hp (S + 20) # take k (index_words s) @ drop (k + 1) (take (unat (cur (index (heap s))) + 1) (index_words s))"
    and "capacity t = capacity s - 1"
    and "\<And>x. \<not> in_range hp T x \<Longrightarrow> \<not> in_range (array (index (heap s))) (4 * capacity s) x \<Longrightarrow> mem t x = mem s x"
    and "S + 40 \<le> T" and "T < 2 ^ 32"
proof (rule alloc_split_state [OF assms, of n])
qed (rule that)

lemma hole_fields:
  assumes "\<forall>x. in_range hp T x \<longrightarrow> mem t x = m x" and "T < 2 ^ 32"
  shows "i < T \<Longrightarrow> header_is_hole t (off hp i) = load8 m (off hp i)"
    and "i + 8 \<le> T \<Longrightarrow> header_magic t (off hp i) = load32 m (off hp (i + 4))"
    and "i + 12 \<le> T \<Longrightarrow> header_size t (off hp i) = load32 m (off hp (i + 8))"
    and "i + 4 \<le> T \<Longrightarrow> footer_magic t (off hp i) = load32 m (off hp i)"
    and "i + 8 \<le> T \<Longrightarrow> footer_header t (off hp i) = load32 m (off hp (i + 4))"
proof -
  have in32: "load32 (mem t) (off hp i) = load32 m (off hp i)" if "i + 4 \<le> T" for i
    using that assms(2) assms(1) by (intro load32_cong) (auto dest: in_range_off [where n = T])
  have a: "off hp i + 4 = off hp (i + 4)" "off hp i + 8 = off hp (i + 8)" for i
    by (simp_all add: off_def)
  show "i < T \<Longrightarrow> header_is_hole t (off hp i) = load8 m (off hp i)"
    using spec [OF assms(1), of "off hp i"] in_range_offset [of i T hp] assms(2)
    by (simp add: header_is_hole_def load8_def off_def)
  show "i + 8 \<le> T \<Longrightarrow> header_magic t (off hp i) = load32 m (off hp (i + 4))"
    and "i + 12 \<le> T \<Longrightarrow> header_size t (off hp i) = load32 m (off hp (i + 8))"
    and "i + 4 \<le> T \<Longrightarrow> footer_magic t (off hp i) = load32 m (off hp i)"
    and "i + 8 \<le> T \<Longrightarrow> footer_header t (off hp i) = load32 m (off hp (i + 4))"
    using in32 [of i] in32 [of "i + 4"] in32 [of "i + 8"]
    by (simp_all only: header_magic_def header_size_def footer_magic_def footer_header_def peek_def a)
qed

lemma alloc_split_result:
  assumes "can_split sz k s" and "hp = index_words s ! k" and "S = unat sz" and "T = unat (header_size s hp)"
    and "T - (S + 20) + 8 \<le> S + 20 \<or> S + 40 \<le> T - (S + 20)"
  shows "\<exists>t. alloc (Suc n) sz 0 s = Inr (off hp 12, t)
    \<and> header_is_hole t hp = 0 \<and> header_magic t hp = HEAP_MAGIC \<and> unat (header_size t hp) = S + 20
    \<and> footer_magic t (off hp (S + 12)) = HEAP_MAGIC \<and> footer_header t (off hp (S + 12)) = hp
    \<and> header_is_hole t (off hp (S + 20)) = 1 \<and> header_magic t (off hp (S + 20)) = HEAP_MAGIC
    \<and> unat (header_size t (off hp (S + 20))) = T - (S + 20)
    \<and> slots (mem t) (index (heap t)) (unat (cur (index (heap t)))) =
        off hp (S + 20) # take k (index_words s) @ drop (k + 1) (take (unat (cur (index (heap s))) + 1) (index_words s))
    \<and> capacity t = capacity s - 1
    \<and> (\<forall>x. \<not> in_range hp T x \<and> \<not> in_range (array (index (heap s))) (4 * capacity s) x \<longrightarrow> mem t x = mem s x)
    \<and> (\<forall>i. (12 \<le> i \<and> i < S + 12 \<or> S + 32 \<le> i) \<and> i + S + 28 < T \<longrightarrow> mem t (off hp i) = mem s (off hp i))
    \<and> t = set_heap ((heap s)\<lparr>index := (index (heap s))\<lparr>arr_size := arr_size (index (heap s)) - 1, cur := cur (index (heap s)) + 1\<rparr>\<rparr>) (s\<lparr>mem := mem t\<rparr>)"
proof -
  obtain t m where t: "alloc (Suc n) sz 0 s = Inr (off hp 12, t)"
    and hole: "\<forall>x. in_range hp T x \<longrightarrow> mem t x = split_mem m hp S T (off hp (T - S - 28) < end_address (heap s)) x"
    and rest: "slots (mem t) (index (heap t)) (unat (cur (index (heap t)))) =
        off hp (S + 20) # take k (index_words s) @ drop (k + 1) (take (unat (cur (index (heap s))) + 1) (index_words s))"
      "capacity t = capacity s - 1"
      "\<And>x. \<not> in_range hp T x \<Longrightarrow> \<not> in_range (array (index (heap s))) (4 * capacity s) x \<Longrightarrow> mem t x = mem s x"
    and T: "S + 40 \<le> T" "T < 2 ^ 32" and m: "\<And>x. in_range hp T x \<Longrightarrow> m x = mem s x"
    and eq: "t = set_heap ((heap s)\<lparr>index := (index (heap s))\<lparr>arr_size := arr_size (index (heap s)) - 1, cur := cur (index (heap s)) + 1\<rparr>\<rparr>) (s\<lparr>mem := mem t\<rparr>)"
    by (rule alloc_split_state [OF assms(1-4), of n]) blast
  note blk = split_mem_block [OF T, of "off hp (T - S - 28) < end_address (heap s)" m hp]
  note f = hole_fields [OF hole T(2)]
  have small: "unat (of_nat (S + 20) :: u32) = S + 20" "unat (of_nat (T - (S + 20)) :: u32) = T - (S + 20)"
    using T by (intro unat_of_nat_small; simp)+
  have hp0: "off hp 0 = hp" by (simp add: off_def)
  have "header_is_hole t hp = 0" "header_magic t hp = HEAP_MAGIC" "unat (header_size t hp) = S + 20"
    using f(1-3) [of 0] blk(1-3) assms(5) T small by (simp_all add: hp0)
  moreover have "footer_magic t (off hp (S + 12)) = HEAP_MAGIC" "footer_header t (off hp (S + 12)) = hp"
    using f(4,5) [of "S + 12"] blk(4,5) assms(5) T by (simp_all add: add.assoc)
  moreover have "header_is_hole t (off hp (S + 20)) = 1" "header_magic t (off hp (S + 20)) = HEAP_MAGIC"
    "unat (header_size t (off hp (S + 20))) = T - (S + 20)"
    using f(1-3) [of "S + 20"] blk(6-8) assms(5) T small by (simp_all add: add.assoc)
  moreover have "mem t (off hp i) = mem s (off hp i)" if "12 \<le> i \<and> i < S + 12 \<or> S + 32 \<le> i" "i + S + 28 < T" for i
  proof -
    have "in_range hp T (off hp i)" using in_range_offset [of i T hp] that(2) T(2) by (simp add: off_def)
    then show ?thesis using hole m split_mem_gap [OF that T(2)] by simp
  qed
  ultimately show ?thesis using t rest eq by blast
qed

text \<open>
  Property C2. An unaligned \<open>alloc\<close> with a large enough first hole takes the front of the hole: the block
  gets a header and a footer that point to each other, the rest becomes a hole with a header of its own
  that the index lists first, the two sizes add up to the old one, and no byte outside the old hole and
  the index changes. This needs the footer of the new hole, which \<open>alloc\<close> writes at the wrong place,
  to miss the headers and the footer of the block: see \<open>alloc_overwrites_hole_size\<close>.
\<close>

theorem alloc_splits_first_fit:
  assumes "can_split sz k s" and "hp = index_words s ! k" and "S = unat sz" and "T = unat (header_size s hp)"
    and "T - (S + 20) + 8 \<le> S + 20 \<or> S + 40 \<le> T - (S + 20)"
  shows "\<exists>t. alloc (Suc n) sz 0 s = Inr (off hp 12, t)
    \<and> header_is_hole t hp = 0 \<and> header_magic t hp = HEAP_MAGIC \<and> unat (header_size t hp) = S + 20
    \<and> footer_magic t (off hp (S + 12)) = HEAP_MAGIC \<and> footer_header t (off hp (S + 12)) = hp
    \<and> header_is_hole t (off hp (S + 20)) = 1 \<and> header_magic t (off hp (S + 20)) = HEAP_MAGIC
    \<and> unat (header_size t (off hp (S + 20))) = T - (S + 20)
    \<and> slots (mem t) (index (heap t)) (unat (cur (index (heap t)))) =
        off hp (S + 20) # take k (index_words s) @ drop (k + 1) (take (unat (cur (index (heap s))) + 1) (index_words s))
    \<and> capacity t = capacity s - 1
    \<and> (\<forall>x. \<not> in_range hp T x \<and> \<not> in_range (array (index (heap s))) (4 * capacity s) x \<longrightarrow> mem t x = mem s x)"
  using alloc_split_result [OF assms, of n] by blast


definition demo_heap :: "u32 \<Rightarrow> kernel_memory" where
  "demo_heap amount = (small_kernel (store32 (store32 (\<lambda>_. 0) 0x1000 0x2000) 0x2008 amount))
     \<lparr>kheap := Some \<lparr>index = \<lparr>array = 0x1000, arr_size = 4, cur = 1, cmp_fun = header_cmp_less\<rparr>,
        start_address = 0x2000, end_address = 0x9000, max_address = 0x9000, supervisor = 0, readonly = 0\<rparr>\<rparr>"

lemma heap_demo:
  "heap (demo_heap amount) = \<lparr>index = \<lparr>array = 0x1000, arr_size = 4, cur = 1, cmp_fun = header_cmp_less\<rparr>,
     start_address = 0x2000, end_address = 0x9000, max_address = 0x9000, supervisor = 0, readonly = 0\<rparr>"
  "mem (demo_heap amount) = store32 (store32 (\<lambda>_. 0) 0x1000 0x2000) 0x2008 amount"
  "capacity (demo_heap amount) = 4" "kheap (demo_heap amount) \<noteq> None"
  by (simp_all add: demo_heap_def heap_def capacity_def small_kernel_def)

lemma words_demo: "index_words (demo_heap amount) = [0x2000, 0, 0, 0]"
proof -
  have "load32 (store32 (store32 (\<lambda>_. 0) 0x1000 0x2000) 0x2008 amount) 0x1000 = 0x2000"
    "load32 (store32 (store32 (\<lambda>_. 0) 0x1000 0x2000) 0x2008 amount) 0x1004 = 0"
    "load32 (store32 (store32 (\<lambda>_. 0) 0x1000 0x2000) 0x2008 amount) 0x1008 = 0"
    "load32 (store32 (store32 (\<lambda>_. 0) 0x1000 0x2000) 0x2008 amount) 0x100C = 0"
    by (simp_all add: load32_store32_apart load32_store32_same apart_def) (simp_all add: load32_def)
  then show ?thesis
    by (simp add: index_words_def heap_demo slots_def raw.words_def upt_rec)
qed

lemma size_demo: "header_size (demo_heap amount) 0x2000 = amount"
  by (simp add: header_size_def peek_def heap_demo load32_store32_same)

lemma can_split_demo:
  assumes "unat sz + 40 \<le> unat amount" and "unat amount \<le> 0x1000"
  shows "can_split sz 0 (demo_heap amount)"
proof -
  have "unat (sz + 20) = unat sz + 20" using assms by (simp add: unat_word_ariths)
  then have fit: "first_fit (sz + 20) 0 (demo_heap amount) = Some 0"
    using assms(1) by (simp add: first_fit_Some heap_demo words_demo hole_fits_def size_demo word_le_nat_alt)
  have ap: "apart 0x1000 16 0x2000 (unat amount)" using assms(2) by (simp add: apart_def)
  have "\<not> in_range 0x1000 16 x" if "in_range 0x2000 (unat amount) x" for x
    using ap that by (rule apart_in_range)
  then show ?thesis
    using assms fit by (simp add: can_split_def Let_def heap_demo words_demo size_demo)
qed

theorem alloc_splits_first_fit_witness:
  "\<exists>t. alloc 1 0x10 0 (demo_heap 0x1000) = Inr (0x200C, t) \<and> unat (header_size t 0x2024) = 0xFDC"
proof -
  have w: "can_split 0x10 0 (demo_heap 0x1000)" by (rule can_split_demo) simp_all
  show ?thesis
    using alloc_splits_first_fit [OF w refl refl refl, where n = 0] by (auto simp: words_demo size_demo off_def)
qed

text \<open>
  When the old hole is twice the block and 12 bytes more, the misplaced footer overwrites
  the size of the new hole with the hole's own address, so the hole that the index then lists first
  looks thousands of megabytes large, and later blocks are cut beyond the end of the heap.
\<close>

theorem alloc_overwrites_hole_size:
  assumes "can_split sz k s" and "hp = index_words s ! k" and "S = unat sz" and "T = unat (header_size s hp)"
    and "T = 2 * (S + 20) + 12" and "off hp (S + 24) < end_address (heap s)"
  shows "\<exists>t. alloc (Suc n) sz 0 s = Inr (off hp 12, t)
    \<and> hd (slots (mem t) (index (heap t)) (unat (cur (index (heap t))))) = off hp (S + 20)
    \<and> header_size t (off hp (S + 20)) = off hp (S + 20)"
proof -
  obtain t m where t: "alloc (Suc n) sz 0 s = Inr (off hp 12, t)"
    and hole: "\<forall>x. in_range hp T x \<longrightarrow> mem t x = split_mem m hp S T (off hp (T - S - 28) < end_address (heap s)) x"
    and live: "slots (mem t) (index (heap t)) (unat (cur (index (heap t)))) =
        off hp (S + 20) # take k (index_words s) @ drop (k + 1) (take (unat (cur (index (heap s))) + 1) (index_words s))"
      "capacity t = capacity s - 1"
      "\<And>x. \<not> in_range hp T x \<Longrightarrow> \<not> in_range (array (index (heap s))) (4 * capacity s) x \<Longrightarrow> mem t x = mem s x"
    and T: "S + 40 \<le> T" "T < 2 ^ 32"
    using alloc_split [OF assms(1-4)] by blast
  have p: "T - S - 28 = S + 24" "T - S - 24 = S + 28" using assms(5) by simp_all
  have "load32 (split_mem m hp S T True) (off hp (S + 28)) = off hp (S + 20)"
    using T unfolding split_mem_def Let_def p by (simp add: off_simps)
  moreover have "header_size t (off hp (S + 20)) = load32 (split_mem m hp S T True) (off hp (S + 28))"
    using hole_fields(3) [OF hole T(2), of "S + 20"] T assms(6) unfolding p by (simp add: add.assoc)
  ultimately have "header_size t (off hp (S + 20)) = off hp (S + 20)" by simp
  moreover have "hd (slots (mem t) (index (heap t)) (unat (cur (index (heap t))))) = off hp (S + 20)"
    unfolding live(1) by (rule list.sel)
  ultimately show ?thesis using t by blast
qed

theorem alloc_overwrites_hole_size_witness:
  "\<exists>t. alloc 1 0x10 0 (demo_heap 0x54) = Inr (0x200C, t) \<and> header_size t 0x2024 = 0x2024"
proof -
  have w: "can_split 0x10 0 (demo_heap 0x54)" by (rule can_split_demo) simp_all
  show ?thesis
    using alloc_overwrites_hole_size [OF w refl refl refl, where n = 0] by (auto simp: words_demo size_demo off_def heap_demo)
qed


section \<open>Alignment and fuel\<close>

text \<open>
  Property C31. Every block that the page-aligned allocation functions return is page aligned, before
  the heap exists and after, whatever nested allocations the call needs.
\<close>

theorem aligned_blocks:
  assumes "k_malloc n m_size 1 want s = Inr (p, phy, t)"
  shows "p AND 0xFFF = 0"
proof (cases "kheap s = None")
  case True
  have up: "((x AND 0xFFFFF000) + 0x1000) AND 0xFFF = 0" for x :: u32
  proof -
    have "(0xFFFFF000 :: u32) = NOT (mask 12)" by code_simp
    then have "x AND 0xFFFFF000 = x - (x AND 0xFFF)" by (simp only: and_not_mask_eq and_FFF)
    then show ?thesis using align_up [of x] by simp
  qed
  show ?thesis
  proof (cases "placement_address s AND 0xFFF = 0")
    case True
    then show ?thesis using assms(1) \<open>kheap s = None\<close> by (auto simp: k_malloc_def malloc_over_def Let_def)
  next
    case False
    then show ?thesis using assms(1) \<open>kheap s = None\<close> up by (auto simp: k_malloc_def malloc_over_def Let_def)
  qed
next
  case False
  then obtain u where "alloc n m_size 1 s = Inr (p, u)"
    using assms(1) by (auto simp: k_malloc_def malloc_over_def ebind_Inr_iff split: if_splits)
  from alloc_Inr [OF _ this] False show ?thesis by auto
qed

theorem aligned_blocks_witness:
  "\<exists>phy t. k_malloc 0 16 1 True ((small_kernel (\<lambda>_. 0))\<lparr>placement_address := 0x8004\<rparr>) = Inr (0x9000, phy, t)
    \<and> (0x9000 :: u32) AND 0xFFF = 0"
proof -
  obtain phy t where "k_malloc 0 16 1 True ((small_kernel (\<lambda>_. 0))\<lparr>placement_address := 0x8004\<rparr>) = Inr (0x9000, phy, t)"
    by (simp add: k_malloc_def malloc_over_def small_kernel_def Let_def)
  then show ?thesis using aligned_blocks by blast
qed

text \<open>
  The bound on the depth of nested calls does not show in results: a call of the allocator
  that did not run out of it gives the same result and state with any larger bound.
\<close>

theorem more_fuel_same_result:
  assumes "k_malloc n m_size pa want s \<noteq> Inl Out_of_fuel" and "n \<le> m"
  shows "k_malloc m m_size pa want s = k_malloc n m_size pa want s"
proof -
  have "less_defined (malloc_over (alloc n) m_size pa want s) (malloc_over (alloc m) m_size pa want s)"
    by (intro malloc_over_less_defined alloc_less_defined assms(2))
  then show ?thesis using assms(1) by (simp add: k_malloc_def less_defined_def)
qed

theorem more_fuel_same_result_witness:
  "k_malloc 7 16 0 False (small_kernel (\<lambda>_. 0)) = k_malloc 0 16 0 False (small_kernel (\<lambda>_. 0))"
proof (rule more_fuel_same_result)
  show "k_malloc 0 16 0 False (small_kernel (\<lambda>_. 0)) \<noteq> Inl Out_of_fuel"
    by (simp add: k_malloc_def malloc_over_def small_kernel_def Let_def)
qed simp

section \<open>The life of the heap\<close>

lemma contract_loop_kheap:
  "contract_loop k i s = Some r \<Longrightarrow> \<forall>t. r = Inr t \<longrightarrow> kheap t = kheap s"
proof (induction k i s r rule: contract_loop.raw_induct [rotated, consumes 1])
  case (1 rec k i s r)
  show ?case
  proof (cases "k < i")
    case True
    then show ?thesis
      using 1(2) 1(1) by (auto dest!: find_page_same 1(1) split: sum.splits)
  next
    case False
    then show ?thesis using 1(2) by auto
  qed
qed

lemma contract_Inr:
  assumes "contract k s = Inr (l, t)"
  shows "kheap t \<noteq> None" and "capacity t = capacity s"
proof -
  obtain u e where "contract_loop (if round_size k < HEAP_MIN_SIZE then HEAP_MIN_SIZE else round_size k)
      (end_address (heap s) - start_address (heap s) - 0x1000) s = Some (Inr u)"
    and t: "t = set_heap ((heap u)\<lparr>end_address := e\<rparr>) u"
    using assms by (auto simp: contract_def Let_def ebind_Inr_iff split: option.splits)
  then have "kheap u = kheap s" using contract_loop_kheap by blast
  then have "heap u = heap s" by (rule kheap_heap)
  then show "kheap t \<noteq> None" and "capacity t = capacity s" by (simp_all add: t capacity_def)
qed

lemma free_shrinks:
  fixes s t :: "'a kmem"
  assumes "kheap s \<noteq> None" and "free p s = Inr t"
  shows "shrinks s t"
proof -
  have rm: "shrinks a b" if "heap_remove i a = Inr b" for i and a b :: "'a kmem"
    using heap_remove_Inr(1,3) [OF that] by (simp add: shrinks_def)
  have ins: "shrinks a b" if "heap_insert x a = Inr b" for x and a b :: "'a kmem"
    using heap_insert_Inr [OF that] by (simp add: shrinks_def)
  have ct: "shrinks a b" if "contract k a = Inr (l, b)" for k l and a b :: "'a kmem"
    using contract_Inr [OF that] by (simp add: shrinks_def)
  have gb: "shrinks a b" if give: "give_back h th a = Inr b" for h th and a b :: "'a kmem"
  proof -
    obtain lc where "contract (h - start_address (heap a)) a = Inr lc"
      using give unfolding give_back_def Let_def ebind_Inr_iff by blast
    then obtain l c where c: "contract (h - start_address (heap a)) a = Inr (l, c)" by (cases lc) simp
    have ac: "shrinks a c" by (rule ct [OF c])
    then have k: "kheap c \<noteq> None" by (simp add: shrinks_def)
    have "shrinks c b" using give c k
      by (auto simp: give_back_def Let_def ebind_Inr_iff intro: shrinks_same rm split: if_splits)
    with ac show ?thesis by (rule shrinks_trans)
  qed
  have here: "\<not> faults (0 - sizeof_header) s" using assms(2) by (auto simp: free_def Let_def)
  obtain left h f u right g v where l: "merge_left (0 - sizeof_header)
      (0 - sizeof_header + header_size s (0 - sizeof_header) - sizeof_footer)
      (set_is_hole (0 - sizeof_header) 1 s) = (left, h, u)"
    and f: "f = 0 - sizeof_header + header_size s (0 - sizeof_header) - sizeof_footer"
    and r: "merge_right h f u = (right, g, v)" by (metis prod_cases3)
  have "kheap u = kheap s" using l by (auto simp: merge_left_def Let_def split: if_splits)
  moreover have "kheap v = kheap u" using r by (auto simp: merge_right_def Let_def split: if_splits)
  ultimately have sv: "shrinks s v" using assms(1) by (intro shrinks_same) simp_all
  then have kv: "kheap v \<noteq> None" by (simp add: shrinks_def)
  obtain w x where w: "(if right then ebind (search_index (f + sizeof_footer) v 0) (\<lambda>iter. heap_remove iter v) else Inr v) = Inr w"
    and x: "(if g + sizeof_footer = end_address (heap w) then give_back h (f + sizeof_footer) w else Inr w) = Inr x"
    and t: "(if \<not> left \<and> \<not> right then heap_insert h x else Inr x) = Inr t"
    using assms(2) unfolding free_mapped [OF here] Let_def l prod.case unfolding f [symmetric] r prod.case ebind_Inr_iff by blast
  have vw: "shrinks v w" using w kv by (auto simp: ebind_Inr_iff intro: rm shrinks_same split: if_splits)
  then have "kheap w \<noteq> None" by (simp add: shrinks_def)
  then have wx: "shrinks w x" using x by (auto intro: gb shrinks_same split: if_splits)
  then have "kheap x \<noteq> None" by (simp add: shrinks_def)
  then have "shrinks x t" using t by (auto intro: ins shrinks_same split: if_splits)
  then show ?thesis using sv vw wx shrinks_trans by blast
qed


text \<open>
  What a running kernel does to its heap, counting the unaligned allocations that returned:
  \<open>heap_run k s t\<close> leads from \<open>s\<close> to \<open>t\<close> with \<open>k\<close> of them.
\<close>

inductive heap_run :: "nat \<Rightarrow> 'a kmem \<Rightarrow> 'a kmem \<Rightarrow> bool" where
  start: "heap_run 0 s s"
| unaligned: "heap_run k s t \<Longrightarrow> alloc n sz 0 t = Inr (p, u) \<Longrightarrow> heap_run (Suc k) s u"
| aligned: "heap_run k s t \<Longrightarrow> alloc n sz 1 t = Inr (p, u) \<Longrightarrow> heap_run k s u"
| freed: "heap_run k s t \<Longrightarrow> kfree p t = Inr u \<Longrightarrow> heap_run k s u"

lemma heap_run_capacity:
  "heap_run k s t \<Longrightarrow> kheap s \<noteq> None \<Longrightarrow> kheap t \<noteq> None \<and> k + capacity t \<le> capacity s"
proof (induction rule: heap_run.induct)
  case (unaligned k s t n sz p u)
  then show ?case using alloc_Inr [OF _ unaligned(2)] by (auto simp: shrinks_def)
next
  case (aligned k s t n sz p u)
  then show ?case using alloc_Inr [OF _ aligned(2)] by (auto simp: shrinks_def)
next
  case (freed k s t p u)
  then show ?case using free_shrinks [of t p u] by (auto simp: shrinks_def kfree_def)
qed simp

text \<open>
  Property C28. An unaligned allocation that returns takes one place off the index's capacity for good
  (\<open>remove_sorted_array\<close> lowers it), and neither aligned allocations nor \<open>kfree\<close> ever give one back: however many of
  these come in between, at most as many unaligned allocations return as the index had places (131072 in this
  kernel), and once it has none left no allocation, aligned or not, returns a block, with any fuel.
\<close>

theorem heap_wears_out:
  assumes "heap_run k s t" and "kheap s \<noteq> None"
  shows "k + capacity t \<le> capacity s \<and> (capacity t = 0 \<longrightarrow> (\<forall>n sz pa p u. alloc n sz pa t \<noteq> Inr (p, u)))"
proof -
  have t: "kheap t \<noteq> None" "k + capacity t \<le> capacity s" using heap_run_capacity [OF assms] by simp_all
  moreover have "alloc n sz pa t \<noteq> Inr (p, u)" if "capacity t = 0" for n sz pa p u
    using alloc_Inr [OF t(1), of n sz pa p u] that by auto
  ultimately show ?thesis by simp
qed

theorem heap_wears_out_witness:
  "\<exists>t. heap_run 1 (demo_heap 0x1000) t \<and> 1 + capacity t \<le> 4"
proof -
  have w: "can_split 0x10 0 (demo_heap 0x1000)" by (rule can_split_demo) simp_all
  obtain t m where "alloc (Suc 0) 0x10 0 (demo_heap 0x1000) = Inr (off (index_words (demo_heap 0x1000) ! 0) 12, t)"
    using alloc_split [OF w refl refl refl, of 0] by blast
  then have "heap_run 1 (demo_heap 0x1000) t"
    using heap_run.unaligned [OF heap_run.start] unfolding One_nat_def by blast
  moreover from heap_wears_out [OF this heap_demo(4)] have "1 + capacity t \<le> 4" by (simp add: heap_demo)
  ultimately show ?thesis by blast
qed

section \<open>Blocks that are not in a hole\<close>

lemma heap_insert_returns:
  "cmp_fun (index (heap s)) = header_cmp_less \<Longrightarrow> unat (cur (index (heap s))) + 2 \<le> 2 ^ 30 \<Longrightarrow> \<exists>t. heap_insert x s = Inr t"
  using heap_insert_live [of s "2 ^ 30" x] by auto

lemma heap_remove_returns:
  assumes "array (index (heap s)) \<noteq> 0"
  obtains u where "heap_remove i s = Inr u" "cmp_fun (index (heap u)) = cmp_fun (index (heap s))"
    "cur (index (heap u)) = cur (index (heap s))"
  using assms by (cases "arr_size (index (heap s)) \<le> i") (auto simp: heap_remove_def remove_sorted_array_def intro: that)

lemma take_hole_aligned:
  assumes "heap_find i s = Inr hp" and "(hp + 12) AND 0xFFF \<noteq> 0"
    and "cmp_fun (index (heap s)) = header_cmp_less" and "unat (cur (index (heap s))) + 2 \<le> 2 ^ 30"
  shows "\<exists>t. take_hole sz nsz 1 i s = Inr (hp + 0x1000 - ((hp + 12) AND 0xFFF) + 12, t)"
proof -
  have ins: "\<exists>t. heap_insert x v = Inr t" if "heap v = heap s" for v x
    using that assms(3,4) by (intro heap_insert_returns) simp_all
  have fin: "\<exists>t. ebind (if b then heap_insert x v else Inr w) (\<lambda>s. Inr (q, s)) = Inr (q, t)"
    if "heap v = heap s" for b x v w and q :: u32
    using ins [OF that, of x] by auto
  show ?thesis
    unfolding take_hole_def assms(1) ebind_simps Let_def sizeof_header_def
    using assms(2) by (simp only: if_True simp_thms ebind_simps prod.case one_neq_zero not_False_eq_True) (rule fin, simp)
qed

text \<open>
  For a page-aligned block the test \<open>(location + sizeof(header_t)) & 0x00000FFF != 0\<close> only
  looks at the lowest bit, so at the even addresses the heap uses no space is set aside for the
  alignment: a hole too short to reach the next page boundary is taken all the same, and the block
  returned lies past its end.
\<close>

theorem aligned_block_outside_hole:
  assumes "array (index (heap s)) \<noteq> 0" and "first_fit (sz + 20) 1 s = Some k" and "hp = index_words s ! k"
    and "cmp_fun (index (heap s)) = header_cmp_less" and "unat (cur (index (heap s))) + 2 \<le> 2 ^ 30"
    and "(hp + 12) AND 0xFFF \<noteq> 0" and "unat (header_size s hp) + unat ((hp + 12) AND 0xFFF) \<le> 0x1000"
  shows "\<exists>p t. alloc (Suc n) sz 1 s = Inr (p, t) \<and> unat (header_size s hp) \<le> unat (p - hp)"
proof -
  let ?m = "(hp + 12) AND 0xFFF"
  let ?p = "hp + 0x1000 - ?m + 12"
  note f = alloc_takes_first_fit [OF assms(1,2)]
  obtain t where t: "take_hole sz (sz + 20) 1 (of_nat k) s = Inr (?p, t)"
    using take_hole_aligned [of "of_nat k" s hp sz "sz + 20"] f(2) assms(3-6) by auto
  have m: "unat ?m \<le> 0xFFF"
    by (simp add: and_FFF unat_take_bit_word)
  have "?p - hp = 0x100C - ?m" by simp
  then have "unat (?p - hp) = 0x100C - unat ?m"
    using m by (simp only:) (subst unat_sub, simp_all add: word_le_nat_alt)
  then show ?thesis using t f(1) assms(7) by auto
qed

lemma first_fit_demo_aligned: "first_fit (0x10 + 20) 1 (demo_heap 0x100) = Some 0"
proof -
  have "\<not> low_bit_set 0x200C" by code_simp
  then show ?thesis
    by (simp add: first_fit_Some heap_demo words_demo hole_fits_def Let_def sizeof_header_def size_demo)
qed

theorem aligned_block_outside_hole_witness:
  "\<exists>p t. alloc 1 0x10 1 (demo_heap 0x100) = Inr (p, t) \<and> 0x100 \<le> unat (p - 0x2000)"
proof -
  have "(0x2000 + 12 :: u32) AND 0xFFF = 12" by code_simp
  then show ?thesis
    using aligned_block_outside_hole [OF _ first_fit_demo_aligned refl, where n = 0]
    by (simp add: heap_demo words_demo size_demo del: alloc.simps)
qed

text \<open>
  \<open>find_hole_fit_first\<close> looks at every place of the index and not at the \<open>cur\<close> entries in
  use: when no real hole before it fits, an unused place is a null pointer, the word at address 8 is
  taken for the size of a hole, and when that is large enough \<open>alloc\<close> returns address 12.
\<close>

theorem alloc_from_null_hole:
  assumes "array (index (heap s)) \<noteq> 0" and "cmp_fun (index (heap s)) = header_cmp_less"
    and "unat (cur (index (heap s))) + 2 \<le> 2 ^ 30" and "k < capacity s" and "index_words s ! k = 0"
    and "\<forall>j < k. \<not> hole_fits (sz + 20) 0 s (index_words s ! j)" and "sz + 20 \<le> load32 (mem s) 8"
  shows "\<exists>t. alloc (Suc n) sz 0 s = Inr (12, t)"
proof -
  have ff: "first_fit (sz + 20) 0 s = Some k"
    using assms(4-7) by (simp add: first_fit_Some hole_fits_def header_size_def peek_def)
  note f = alloc_takes_first_fit [OF assms(1) ff]
  obtain u where u: "heap_remove (of_nat k) s = Inr u" "cmp_fun (index (heap u)) = cmp_fun (index (heap s))"
    "cur (index (heap u)) = cur (index (heap s))"
    using heap_remove_returns [OF assms(1)] by metis
  have ins: "\<exists>t. heap_insert x v = Inr t" if "heap v = heap u" for v x
    using that assms(2,3) u by (intro heap_insert_returns) simp_all
  have fin: "\<exists>t. ebind (if b then heap_insert x v else Inr w) (\<lambda>s. Inr (q, s)) = Inr (q, t)"
    if "heap v = heap u" for b x v w and q :: u32
    using ins [OF that, of x] by auto
  have "\<exists>t. take_hole sz (sz + 20) 0 (of_nat k) s = Inr (0 + 12, t)"
    unfolding take_hole_def f(2) assms(5) ebind_simps Let_def sizeof_header_def
    by (simp only: u(1) if_False simp_thms ebind_simps prod.case) (rule fin, simp)
  then show ?thesis using f(1) by simp
qed

theorem alloc_from_null_hole_witness:
  "\<exists>t. alloc 1 0x10 0 ((demo_heap 0x10)\<lparr>mem := store32 (mem (demo_heap 0x10)) 8 0xF000E2C3\<rparr>) = Inr (12, t)"
proof -
  let ?s = "(demo_heap 0x10)\<lparr>mem := store32 (mem (demo_heap 0x10)) 8 0xF000E2C3\<rparr>"
  have l: "load32 (mem ?s) 8 = 0xF000E2C3" "load32 (mem ?s) 0x2008 = 0x10" "load32 (mem ?s) 0x1000 = 0x2000"
    "load32 (mem ?s) 0x1004 = 0"
    by (simp_all add: heap_demo load32_store32_apart load32_store32_same apart_def) (simp_all add: load32_def)
  have cm: "capacity (s\<lparr>mem := m\<rparr>) = capacity s" for s :: kernel_memory and m by (simp add: capacity_def)
  have c: "capacity ?s = 4" "heap ?s = heap (demo_heap 0x10)" by (simp_all add: capacity_def heap_demo)
  have w: "index_words ?s ! 0 = 0x2000" "index_words ?s ! 1 = 0"
    using l by (simp_all add: index_words_def cm heap_demo slots_def)
  have "\<not> hole_fits (0x10 + 20) 0 ?s 0x2000"
    using l by (simp add: hole_fits_def header_size_def peek_def)
  then show ?thesis
    using alloc_from_null_hole [where s = ?s and k = 1 and sz = "0x10" and n = 0] w l(1) c by (simp add: heap_demo del: alloc.simps)
qed

section \<open>Before the heap exists\<close>

text \<open>
  What the code that runs before the heap relies on: a request is answered with a block that starts
  where the free memory starts, or later, and the free memory starts after it from then on.
\<close>

locale arena =
  fixes next_free :: "'s \<Rightarrow> nat"
    and get :: "'r \<Rightarrow> 's \<Rightarrow> nat \<times> 's"
    and len :: "'r \<Rightarrow> nat"
    and room :: "'r list \<Rightarrow> 's \<Rightarrow> bool"
  assumes get_above: "room (r # rs) s \<Longrightarrow> get r s = (p, t) \<Longrightarrow>
    next_free s \<le> p \<and> p + len r \<le> next_free t \<and> room rs t"
begin

fun blocks :: "'r list \<Rightarrow> 's \<Rightarrow> (nat \<times> nat) list" where
  "blocks [] s = []"
| "blocks (r # rs) s = (fst (get r s), len r) # blocks rs (snd (get r s))"

lemma blocks_apart:
  "room rs s \<Longrightarrow> sorted_wrt (\<lambda>(p, l) (q, k). p + l \<le> q) (blocks rs s) \<and> (\<forall>(p, l) \<in> set (blocks rs s). next_free s \<le> p)"
proof (induction rs arbitrary: s)
  case (Cons r rs)
  obtain p t where g: "get r s = (p, t)" by (cases "get r s")
  note above = get_above [OF Cons.prems g]
  have "sorted_wrt (\<lambda>(p, l) (q, k). p + l \<le> q) (blocks rs t)" and "\<forall>(q, l) \<in> set (blocks rs t). next_free t \<le> q"
    using Cons.IH above by simp_all
  with above show ?case by (fastforce simp: g)
qed simp

end

definition place_block :: "u32 \<times> u8 \<Rightarrow> 'a kmem \<Rightarrow> nat \<times> 'a kmem" where
  "place_block r s = (case k_malloc 0 (fst r) (snd r) False s of Inr (p, phy, t) \<Rightarrow> (unat p, t) | Inl _ \<Rightarrow> (0, s))"

definition placement_room :: "(u32 \<times> u8) list \<Rightarrow> 'a kmem \<Rightarrow> bool" where
  "placement_room rs s \<longleftrightarrow>
     kheap s = None \<and> unat (placement_address s) + sum_list (List.map (\<lambda>r. unat (fst r) + 0x1000) rs) < 2 ^ 32"

lemma round_up_page:
  fixes x :: u32
  assumes "unat x + 0x1000 < 2 ^ 32"
  shows "unat x \<le> unat ((x AND 0xFFFFF000) + 0x1000) \<and> unat ((x AND 0xFFFFF000) + 0x1000) \<le> unat x + 0x1000"
proof -
  have c: "(0xFFFFF000 :: u32) = NOT (mask 12)" by code_simp
  have u: "unat (x AND 0xFFFFF000) = unat x div 2 ^ 12 * 2 ^ 12" unfolding c by (rule unat_and_not_mask)
  have le: "unat x div 2 ^ 12 * 2 ^ 12 \<le> unat x" by (rule div_times_less_eq_dividend)
  then have "unat ((x AND 0xFFFFF000) + 0x1000) = unat x div 2 ^ 12 * 2 ^ 12 + 0x1000"
    using assms by (simp add: unat_word_ariths u)
  moreover have "unat x < 2 ^ 12 + unat x div 2 ^ 12 * 2 ^ 12"
    by (rule dividend_less_div_times) simp
  ultimately show ?thesis using le by simp
qed

lemma place_block_eq:
  assumes "kheap s = None"
  shows "place_block (m, al) s =
    (let q = (if al = 1 \<and> placement_address s AND 0xFFF \<noteq> 0 then (placement_address s AND 0xFFFFF000) + 0x1000
              else placement_address s)
     in (unat q, s\<lparr>placement_address := q + m\<rparr>))"
  using assms by (auto simp: place_block_def k_malloc_def malloc_over_def Let_def)

interpretation placement: arena "\<lambda>s. unat (placement_address s)" place_block "\<lambda>r. unat (fst r)" placement_room
proof
  fix r :: "u32 \<times> u8" and rs p and s t :: "'a kmem"
  assume room: "placement_room (r # rs) s" and get: "place_block r s = (p, t)"
  obtain m al where r: "r = (m, al)" by (cases r)
  let ?x = "placement_address s"
  let ?q = "if al = 1 \<and> ?x AND 0xFFF \<noteq> 0 then (?x AND 0xFFFFF000) + 0x1000 else ?x"
  have k: "kheap s = None" and sum: "unat ?x + (unat m + 0x1000) + sum_list (List.map (\<lambda>r. unat (fst r) + 0x1000) rs) < 2 ^ 32"
    using room by (simp_all add: placement_room_def r)
  have t: "p = unat ?q" "t = s\<lparr>placement_address := ?q + m\<rparr>"
    using get unfolding r place_block_eq [OF k] Let_def by simp_all
  have q: "unat ?x \<le> unat ?q" "unat ?q \<le> unat ?x + 0x1000"
    using round_up_page [of ?x] sum by auto
  then have "unat (?q + m) = unat ?q + unat m"
    using sum by (subst unat_word_ariths) simp
  then show "unat ?x \<le> p \<and> p + unat (fst r) \<le> unat (placement_address t) \<and> placement_room rs t"
    using q sum k by (simp add: t r placement_room_def)
qed

text \<open>
  Until the heap is set up, the blocks handed out follow one another: whatever the sizes and
  alignments asked for, as long as the addresses do not run out they do not overlap each other or
  anything below the placement address, so not the kernel's image.
\<close>

theorem placement_blocks_disjoint:
  assumes "placement_room rs s"
  shows "sorted_wrt (\<lambda>(p, l) (q, k). p + l \<le> q) (placement.blocks rs s)
    \<and> (\<forall>(p, l) \<in> set (placement.blocks rs s). unat (placement_address s) \<le> p)"
  using assms by (rule placement.blocks_apart)

theorem placement_blocks_disjoint_witness:
  "sorted_wrt (\<lambda>(p, l) (q, k). p + l \<le> q) (placement.blocks [(512, 0), (8196, 1), (4096, 1)] (small_kernel (\<lambda>_. 0)))"
proof -
  have "placement_room [(512, 0), (8196, 1), (4096, 1)] (small_kernel (\<lambda>_. 0))"
    by (simp add: placement_room_def small_kernel_def)
  then show ?thesis using placement_blocks_disjoint by blast
qed

section \<open>The fresh heap\<close>

lemma fresh_slots:
  assumes "n = unat sz" and "sz \<le> 0x1FFFFFFF"
  shows "slots (fst (memset m addr 0 (sz * 4))) \<lparr>array = addr, arr_size = sz, cur = c, cmp_fun = f\<rparr> n = replicate n 0"
proof (rule nth_equalityI)
  have n: "n \<le> 0x1FFFFFFF" using assms by (simp add: word_le_nat_alt)
  fix i
  assume "i < length (slots (fst (memset m addr 0 (sz * 4))) \<lparr>array = addr, arr_size = sz, cur = c, cmp_fun = f\<rparr> n)"
  then have i: "i < n" by simp
  have u: "unat (sz * 4) = 4 * n" using n assms(1) by (simp add: unat_word_ariths)
  then have "uint (sz * 4) = int (4 * n)" by (metis of_nat_unat)
  then have l: "nat (sint (sz * 4)) = 4 * n" using n by (simp add: sint_u32 word_less_alt)
  have z: "fst (memset m addr 0 (sz * 4)) (addr + of_nat j) = 0" if "j < 4 * n" for j
    using in_range_offset [of j "4 * n" addr] that n by (simp add: memset_def l memset_loop_in)
  have z4: "fst (memset m addr 0 (sz * 4)) (addr + 4 * of_nat i + of_nat k) = 0" if "k < 4" for k
    using z [of "4 * i + k"] that i by (simp add: add.assoc)
  have "load32 (fst (memset m addr 0 (sz * 4))) (addr + 4 * of_nat i) = 0"
    using z4 [of 0] z4 [of 1] z4 [of 2] z4 [of 3] by (simp add: load32_def)
  then show "slots (fst (memset m addr 0 (sz * 4))) \<lparr>array = addr, arr_size = sz, cur = c, cmp_fun = f\<rparr> n ! i = replicate n 0 ! i"
    using i by (simp add: slots_def)
qed simp

text \<open>
  \<open>create_heap\<close> on the range \<open>init_paging\<close> gives it makes a heap of one hole: after the
  0x80000 bytes of the index, 0x80000 bytes long, marked and listed first; every other place of the
  index is a null pointer. It changes no byte outside the index and the header of the hole.
\<close>

theorem create_heap_one_hole:
  "\<exists>h t. create_heap KHEAP_START (KHEAP_START + KHEAP_INITIAL_SIZE) mx sv ro s = Inr (h, t)
    \<and> start_address h = 0xC0080000 \<and> end_address h = 0xC0100000 \<and> supervisor h = sv \<and> readonly h = ro
    \<and> index h = \<lparr>array = 0xC0000000, arr_size = 0x20000, cur = 1, cmp_fun = header_cmp_less\<rparr>
    \<and> slots (mem t) (index h) 0x20000 = 0xC0080000 # replicate 0x1FFFF 0
    \<and> header_size t 0xC0080000 = 0x80000 \<and> header_magic t 0xC0080000 = HEAP_MAGIC
    \<and> header_is_hole t 0xC0080000 = 1
    \<and> t = s\<lparr>mem := mem t\<rparr> \<and> (\<forall>x. \<not> in_range 0xC0000000 0x8000C x \<longrightarrow> mem t x = mem s x)"
proof -
  let ?b = "0xC0000000 :: u32"
  let ?a = "\<lparr>array = ?b, arr_size = 0x20000, cur = 0, cmp_fun = header_cmp_less\<rparr>"
  let ?m0 = "fst (memset (mem s) ?b 0 0x80000)"
  let ?m1 = "store8 (store32 (store32 ?m0 (off ?b 0x80008) 0x80000) (off ?b 0x80004) HEAP_MAGIC) (off ?b 0x80000) 1"
  let ?m2 = "store32 ?m1 (off ?b 0) 0xC0080000"
  have low: "\<not> low_bit_set 0xC0080000" by code_simp
  have ins: "insert_sorted_array 0xC0080000 m ?a = Inr (store32 m ?b 0xC0080000, ?a\<lparr>cur := 1\<rparr>)" for m
    by (simp add: insert_sorted_array_def insert_scan.simps slot_def)
  have off: "off ?b 0x80000 = 0xC0080000" "off ?b 0x80004 = 0xC0080004" "off ?b 0x80008 = 0xC0080008" "off ?b 0 = ?b"
    by (simp_all add: off_def)
  have run: "create_heap KHEAP_START (KHEAP_START + KHEAP_INITIAL_SIZE) mx sv ro s =
      Inr (\<lparr>index = ?a\<lparr>cur := 1\<rparr>, start_address = 0xC0080000, end_address = 0xC0100000, max_address = mx,
        supervisor = sv, readonly = ro\<rparr>, s\<lparr>mem := ?m2\<rparr>)"
    using low by (simp add: create_heap_def place_sorted_array_def Let_def KHEAP_START_def KHEAP_INITIAL_SIZE_def
        HEAP_INDEX_SIZE_def setters_on_mem ins off del: sorted_array_t.update_convs)
  have fresh: "slots ?m0 ?a 0x20000 = replicate 0x20000 0"
    using fresh_slots [of "0x20000" "0x20000" "mem s" ?b 0 header_cmp_less] by simp
  have out: "?m1 x = ?m0 x" if "in_range ?b 0x80000 x" for x
  proof -
    have "apart ?b 0x80000 0xC0080000 12" by (simp add: apart_def)
    then have "\<not> in_range 0xC0080000 12 x" using that apart_in_range [of "0xC0080000" 12 ?b "0x80000" x] by (simp add: apart_sym)
    then show ?thesis
      using off_outside [of "0xC0080000" 12 x 8] off_outside [of "0xC0080000" 12 x 4] off_outside(2) [of "0xC0080000" 12 x 0]
      by (simp add: off_def)
  qed
  have "slots ?m1 ?a 0x20000 = slots ?m0 ?a 0x20000"
    using out by (intro slots_cong [of _ "0x20000"]) simp_all
  then have "slots ?m2 ?a 0x20000 = (replicate 0x20000 0)[0 := 0xC0080000]"
    using slots_store [of 0 "0x20000" ?m1 ?a "0xC0080000"] fresh by (simp add: slot_def off)
  also have "\<dots> = 0xC0080000 # replicate 0x1FFFF 0"
    using replicate_Suc [of "0x1FFFF" "0 :: u32"] by simp
  finally have "slots ?m2 ?a 0x20000 = 0xC0080000 # replicate 0x1FFFF 0" .
  then have sl: "slots ?m2 (?a\<lparr>cur := 1\<rparr>) 0x20000 = 0xC0080000 # replicate 0x1FFFF 0" by (simp only: slots_record)
  have hd: "load32 ?m2 (off ?b 0x80008) = 0x80000" "load32 ?m2 (off ?b 0x80004) = HEAP_MAGIC" "load8 ?m2 (off ?b 0x80000) = 1"
    by (simp_all add: off_simps)
  have fr: "?m2 x = mem s x" if "\<not> in_range ?b 0x8000C x" for x
  proof -
    have "\<not> in_range ?b 0x80000 x" using that by (auto intro: in_range_mono)
    then have "?m0 x = mem s x" by (simp add: memset_def memset_loop_other)
    then show ?thesis using that by (simp add: off_simps)
  qed
  show ?thesis
    unfolding run using sl hd fr
    by (simp add: off header_size_def header_magic_def header_is_hole_def peek_def)
qed


theorem create_heap_one_hole_witness:
  "\<exists>h t. create_heap KHEAP_START (KHEAP_START + KHEAP_INITIAL_SIZE) 0xCFFFF000 0 0 (small_kernel (\<lambda>_. 7)) = Inr (h, t)
    \<and> slots (mem t) (index h) 0x20000 = 0xC0080000 # replicate 0x1FFFF 0 \<and> mem t 0x2000 = 7"
proof -
  have "\<not> in_range 0xC0000000 0x8000C 0x2000" by (simp add: in_range_def)
  moreover have "mem (small_kernel (\<lambda>_. 7)) 0x2000 = 7" by (simp add: small_kernel_def)
  ultimately show ?thesis
    using create_heap_one_hole [of "0xCFFFF000" 0 0 "small_kernel (\<lambda>_. 7)"] by metis
qed

theorem find_hole_is_first_fit_witness:
  "find_hole_fit_first 0x24 0 (demo_heap 0x1000) = Inr 0"
proof -
  have "first_fit 0x24 0 (demo_heap 0x1000) = Some 0"
    by (simp add: first_fit_Some heap_demo words_demo hole_fits_def size_demo)
  then show ?thesis
    using find_hole_is_first_fit [of "demo_heap 0x1000" "0x24" 0] by (simp add: heap_demo)
qed

end
