(* ===== verification/Heap_Aligned.thy ===== *)
theory Heap_Aligned
  imports Heap_Correctness
begin

text \<open>
  Page-aligned blocks of \<open>alloc\<close> in \<open>src/src/kheap.c\<close>: how a hole is cut in three when the block has to start at
  a page boundary, and by how much the sizes the three parts get are wrong.
\<close>

section \<open>The writes\<close>

text \<open>
  The part of the hole at \<open>hp\<close> in front of the block, \<open>G\<close> bytes, gets a header and a footer; the block and the rest
  are then cut as without alignment.
\<close>

definition front_mem :: "memory \<Rightarrow> u32 \<Rightarrow> nat \<Rightarrow> memory" where
  "front_mem m hp G =
     (let m = store32 m (off hp 8) (of_nat (G - 12));
          m = store32 m (off hp 4) HEAP_MAGIC;
          m = store8 m (off hp 0) 1;
          m = store32 m (off hp (G - 8)) HEAP_MAGIC
      in store32 m (off hp (G - 4)) hp)"

definition gap :: "u32 \<Rightarrow> nat" where
  "gap hp = 0x1000 - unat ((hp + 12) AND 0xFFF)"

lemma front_mem_fields:
  assumes "20 \<le> G" and "G \<le> 0x1000"
  shows "load8 (front_mem m hp G) (off hp 0) = 1" and "load32 (front_mem m hp G) (off hp 4) = HEAP_MAGIC"
    and "load32 (front_mem m hp G) (off hp 8) = of_nat (G - 12)"
    and "load32 (front_mem m hp G) (off hp (G - 8)) = HEAP_MAGIC"
    and "load32 (front_mem m hp G) (off hp (G - 4)) = hp"
    and "\<not> in_range hp G x \<Longrightarrow> front_mem m hp G x = m x"
  using assms unfolding front_mem_def Let_def by (auto simp: off_simps)

lemma take_hole_front:
  fixes s :: "'a kmem"
  assumes "heap_find iter s = Inr hp" and "(hp + 12) AND 0xFFF \<noteq> 0" and "G = gap hp" and "20 \<le> G"
    and "S = unat sz" and "S + 20 < 2 ^ 32" and "T = unat (header_size s hp)" and "G + S + 28 \<le> T"
  shows "take_hole sz (sz + 20) 1 iter s =
    ebind (heap_insert (off hp (G + S + 20)) (s\<lparr>mem := split_mem (front_mem (mem s) hp G) (off hp G) S (T - (G - 12))
        (off hp (G + (T - (G - 12)) - S - 28) < end_address (heap s))\<rparr>))
      (\<lambda>t. Inr (off hp (G + 12), t))"
proof -
  let ?O = "header_size s hp" and ?r = "(hp + 12) AND 0xFFF" and ?T = "T - (G - 12)"
  have r: "unat ?r \<le> 0xFFF" "unat ?r \<le> 0xFEC" using assms(3,4) by (simp_all add: and_FFF unat_take_bit_word gap_def)
  have G: "G \<le> 0x1000" "of_nat G = 0x1000 - ?r"
    using r by (simp_all add: assms(3) gap_def of_nat_diff)
  have N: "unat (sz + 20) = S + 20" using assms(5,6) by (simp add: unat_word_ariths)
  let ?s = "s\<lparr>mem := front_mem (mem s) hp G\<rparr>" and ?L = "off hp G" and ?O' = "?O - of_nat (G - 12)"
  have A: "unat (of_nat (G - 12) :: u32) = G - 12" using G(1) by (intro unat_of_nat_small) simp
  have G12: "of_nat (G - 12) = 0x1000 - 12 - ?r" "of_nat (G - 8) = 0x1000 - ?r - 8" "of_nat (G - 4) = 0x1000 - ?r - 8 + 4"
    using assms(4) G(2) by (simp_all add: of_nat_diff)
  have T': "unat ?O' = ?T" using assms(4,7,8) A by (subst unat_sub) (simp_all add: word_le_nat_alt)
  have D: "unat (?O - (sz + 20)) = T - (S + 20)" using N assms(7,8) by (subst unat_sub) (simp_all add: word_le_nat_alt)
  have small: "\<not> ?O - (sz + 20) < sizeof_header + sizeof_footer"
    using D assms(4,8) by (simp add: sizeof_header_def sizeof_footer_def word_less_nat_alt)
  have big: "sz + 20 < ?O'" using N T' assms(4,8) by (simp add: word_less_nat_alt)
  have hs: "header_size ?s hp = of_nat (G - 12)"
    using front_mem_fields(3) [OF assms(4) G(1), of "mem s" hp] by (simp add: header_size_def peek_def off_def)
  have L: "?L = hp + 0x1000 - ?r" using G(2) by (simp add: off_def algebra_simps)
  have front: "set_footer_header (?L - sizeof_footer) hp (set_footer_magic (?L - sizeof_footer) HEAP_MAGIC
      (set_is_hole hp 1 (set_magic hp HEAP_MAGIC (set_size hp (0x1000 - sizeof_header - ?r) s)))) = ?s"
  proof -
    have o: "off hp 0 = hp" "off hp 4 = hp + 4" "off hp 8 = hp + 8" "off hp (G - 8) = ?L - 8" "off hp (G - 4) = ?L - 8 + 4"
      unfolding L by (simp_all add: off_def G12 algebra_simps)
    obtain v m where s: "s = v\<lparr>mem := m\<rparr>"
    proof
      show "s = s\<lparr>mem := mem s\<rparr>" by simp
    qed
    show ?thesis
      unfolding front_mem_def Let_def o sizeof_header_def sizeof_footer_def G12(1)
      by (simp only: s setters_on_mem mem_twice)
  qed
  have ao: "off ?L 0 = ?L" "off ?L 4 = ?L + 4" "off ?L 8 = ?L + 8"
    "off ?L (S + 12) = ?L + sz + 12" "off ?L (S + 16) = ?L + sz + 12 + 4" "off ?L (S + 20) = ?L + 12 + 8 + sz"
    "off ?L (S + 24) = ?L + 12 + 8 + sz + 4" "off ?L (S + 28) = ?L + 12 + 8 + sz + 8"
    "off ?L (?T - S - 28) = ?L + ?O' - 8 - (sz + 20)"
    "off ?L (?T - S - 24) = ?L + ?O' - 8 - (sz + 20) + 4"
    "of_nat (S + 20) = sz + 20" "of_nat (?T - (S + 20)) = ?O' - (sz + 20)"
    using assms(4,5,7,8) by (simp_all add: off_def of_nat_diff)
  have out: "off hp (G + S + 20) = off ?L (S + 20)" "off hp (G + ?T - S - 28) = off ?L (?T - S - 28)" "off hp (G + 12) = ?L + 12"
    using assms(4,8) by (simp_all add: off_def of_nat_diff)
  have c: "(hp + sizeof_header) AND 0xFFF = ?r" by (simp add: sizeof_header_def)
  obtain v m where s: "s = v\<lparr>mem := m\<rparr>"
  proof
    show "s = s\<lparr>mem := mem s\<rparr>" by simp
  qed
  show ?thesis
    unfolding take_hole_def assms(1) ebind_simps Let_def
    apply (simp only: small if_False simp_thms c assms(2) one_neq_zero not_False_eq_True if_True L [symmetric] front hs ebind_simps prod.case big)
    apply (simp only: sizeof_header_def sizeof_footer_def heap_setters ao out)
    apply (simp only: s kernel_memory.select_convs mem_twice split_mem_def Let_def ao setters_on_mem heap_setters)
    by (cases "?L + (header_size (v\<lparr>mem := m\<rparr>) hp - of_nat (G - 12)) - 8 - (sz + 20) < end_address (heap v)") (simp_all only: if_True if_False mem_twice)
qed

lemma split_mem_within:
  "S + 44 \<le> T \<Longrightarrow> T < 2 ^ 32 \<Longrightarrow> \<not> in_range hp (T - 12) x \<Longrightarrow> split_mem m hp S T g x = m x"
  unfolding split_mem_def Let_def by (simp add: off_simps)

lemma front_split_outside:
  assumes "20 \<le> G" "G \<le> 0x1000" "G + S + 40 \<le> T" "T + 12 < 2 ^ 32" "\<not> in_range hp T x"
  shows "split_mem (front_mem m hp G) (off hp G) S (T - (G - 12)) g x = m x"
proof -
  have "\<not> in_range (off hp G) (T - (G - 12) - 12) x"
    using assms in_range_off [of hp G "T - (G - 12) - 12" x T] by auto
  moreover have "\<not> in_range hp G x" using assms(3,5) by (auto intro: in_range_mono)
  ultimately show ?thesis using assms by (simp add: split_mem_within front_mem_fields(6))
qed

section \<open>An aligned block\<close>

text \<open>A heap in which a page-aligned block of \<open>sz\<close> bytes can be cut from the hole number \<open>k\<close> of the index.\<close>

definition can_align :: "u32 \<Rightarrow> nat \<Rightarrow> 'a kmem \<Rightarrow> bool" where
  "can_align sz k s \<longleftrightarrow>
     (let a = index (heap s); hp = index_words s ! k; total = unat (header_size s hp) in
      array a \<noteq> 0 \<and> cmp_fun a = header_cmp_less \<and> unat (cur a) + 2 \<le> capacity s \<and> capacity s \<le> 2 ^ 30
      \<and> first_fit (sz + 20) 1 s = Some k \<and> (hp + 12) AND 0xFFF \<noteq> 0 \<and> 20 \<le> gap hp
      \<and> gap hp + unat sz + 40 \<le> total \<and> total + 12 < 2 ^ 32
      \<and> (\<forall>x. in_range hp total x \<longrightarrow> \<not> in_range (array a) (4 * capacity s) x))"

lemma gap_le: "gap hp \<le> 0x1000"
  by (simp add: gap_def)

lemma alloc_front:
  fixes s :: "'a kmem"
  assumes "can_align sz k s" and "hp = index_words s ! k" and "G = gap hp" and "S = unat sz" and "T = unat (header_size s hp)"
  obtains m where "alloc (Suc n) sz 1 s = Inr (off hp (G + 12),
      set_heap ((heap s)\<lparr>index := (index (heap s))\<lparr>cur := cur (index (heap s)) + 1\<rparr>\<rparr>) (s\<lparr>mem := m\<rparr>))"
    and "\<And>x. \<not> in_range (array (index (heap s))) (4 * capacity s) x \<Longrightarrow>
      m x = split_mem (front_mem (mem s) hp G) (off hp G) S (T - (G - 12)) (off hp (G + (T - (G - 12)) - S - 28) < end_address (heap s)) x"
    and "slots m (index (heap s)) (unat (cur (index (heap s))) + 1) = off hp (G + S + 20) # take (unat (cur (index (heap s)))) (index_words s)"
    and "20 \<le> G" "G \<le> 0x1000" "G + S + 40 \<le> T" "T + 12 < 2 ^ 32"
proof -
  let ?a = "index (heap s)" and ?c = "unat (cur (index (heap s)))"
  have w: "array ?a \<noteq> 0" "cmp_fun ?a = header_cmp_less" "?c + 2 \<le> capacity s" "capacity s \<le> 2 ^ 30"
    "first_fit (sz + 20) 1 s = Some k" "(hp + 12) AND 0xFFF \<noteq> 0" "20 \<le> G" "G + S + 40 \<le> T" "T + 12 < 2 ^ 32"
    "\<And>x. in_range hp T x \<Longrightarrow> \<not> in_range (array ?a) (4 * capacity s) x"
    using assms(1) by (simp_all add: can_align_def Let_def assms(2-5))
  have G: "G \<le> 0x1000" by (simp add: assms(3) gap_le)
  let ?m = "split_mem (front_mem (mem s) hp G) (off hp G) S (T - (G - 12)) (off hp (G + (T - (G - 12)) - S - 28) < end_address (heap s))"
  let ?v = "s\<lparr>mem := ?m\<rparr>"
  have f: "heap_find (of_nat k) s = Inr hp" using alloc_takes_first_fit(2) [OF w(1,5)] by (simp add: assms(2))
  have th: "take_hole sz (sz + 20) 1 (of_nat k) s = ebind (heap_insert (off hp (G + S + 20)) ?v) (\<lambda>t. Inr (off hp (G + 12), t))"
    by (rule take_hole_front [OF f w(6) assms(3) w(7) assms(4) _ assms(5)]) (use w(8,9) in simp_all)
  have 1: "cmp_fun (index (heap ?v)) = header_cmp_less" "unat (cur (index (heap ?v))) + 2 \<le> capacity s"
    using w(2,3) by simp_all
  obtain m a where ins: "heap_insert (off hp (G + S + 20)) ?v = Inr (set_heap ((heap ?v)\<lparr>index := a\<rparr>) (?v\<lparr>mem := m\<rparr>))"
    and a: "a = (index (heap ?v))\<lparr>cur := cur (index (heap ?v)) + 1\<rparr>"
    and sl: "slots m (index (heap ?v)) (unat (cur (index (heap ?v))) + 1) =
      off hp (G + S + 20) # slots (mem ?v) (index (heap ?v)) (unat (cur (index (heap ?v))))"
    and fr: "\<And>x. \<not> in_range (array (index (heap ?v))) (4 * capacity s) x \<Longrightarrow> m x = mem ?v x"
    using heap_insert_live [OF 1 w(4)] by blast
  have "?m x = mem s x" if "in_range (array ?a) (4 * capacity s) x" for x
    using that w(10) by (intro front_split_outside [OF w(7) G w(8,9)]) blast
  then have "slots ?m ?a ?c = slots (mem s) ?a ?c"
    by (rule slots_cong [of _ "capacity s"]) (use w(3,4) in simp_all)
  also have "\<dots> = take ?c (index_words s)" unfolding index_words_def by (rule slots_prefix) (use w(3) in simp)
  finally have sl': "slots m ?a (?c + 1) = off hp (G + S + 20) # take ?c (index_words s)" using sl by simp
  show ?thesis
  proof (rule that)
    show "alloc (Suc n) sz 1 s = Inr (off hp (G + 12), set_heap ((heap s)\<lparr>index := ?a\<lparr>cur := cur ?a + 1\<rparr>\<rparr>) (s\<lparr>mem := m\<rparr>))"
      using alloc_takes_first_fit(1) [OF w(1,5), of n] th ins by (simp add: a)
  qed (use fr sl' w G in simp_all)
qed

lemma front_kept:
  assumes "12 \<le> G" "G + S + 40 \<le> T" "T + 12 < 2 ^ 32"
  shows "i + 4 \<le> G \<Longrightarrow> load32 (split_mem m (off hp G) S (T - (G - 12)) g) (off hp i) = load32 m (off hp i)"
    and "i < G \<Longrightarrow> load8 (split_mem m (off hp G) S (T - (G - 12)) g) (off hp i) = load8 m (off hp i)"
proof -
  have keep: "split_mem m (off hp G) S (T - (G - 12)) g x = m x" if "in_range (off hp i) k x" "i + k \<le> G" "0 < k" for i k x
  proof (rule split_mem_within)
    have "apart (off hp i) k (off hp G) (T - (G - 12) - 12)" using that assms by (intro off_apart) auto
    then show "\<not> in_range (off hp G) (T - (G - 12) - 12) x" using that(1) apart_in_range by (metis apart_sym)
  qed (use assms that in auto)
  show "load32 (split_mem m (off hp G) S (T - (G - 12)) g) (off hp i) = load32 m (off hp i)" if "i + 4 \<le> G"
    using keep [of i 4] that by (intro load32_cong) auto
  show "i < G \<Longrightarrow> load8 (split_mem m (off hp G) S (T - (G - 12)) g) (off hp i) = load8 m (off hp i)"
    using keep [of i 1 "off hp i"] by (simp add: load8_def in_range_1)
qed

lemma split_mem_footer:
  assumes "S + 40 \<le> T" and "T < 2 ^ 32"
  shows "load32 (split_mem m hp S T True) (off hp (T - S - 28)) = HEAP_MAGIC"
    and "load32 (split_mem m hp S T True) (off hp (T - S - 24)) = off hp (S + 20)"
  using assms unfolding split_mem_def Let_def by (auto simp: off_simps)

lemma alloc_aligned_result:
  assumes "can_align sz k s" and "hp = index_words s ! k" and "G = gap hp" and "S = unat sz" and "T = unat (header_size s hp)"
    and "T - (G - 12) - (S + 20) + 8 \<le> S + 20 \<or> S + 40 \<le> T - (G - 12) - (S + 20)"
  shows "\<exists>t. alloc (Suc n) sz 1 s = Inr (off hp (G + 12), t) \<and> off hp (G + 12) AND 0xFFF = 0
    \<and> header_is_hole t hp = 1 \<and> header_magic t hp = HEAP_MAGIC \<and> unat (header_size t hp) = G - 12
    \<and> footer_magic t (off hp (G - 8)) = HEAP_MAGIC \<and> footer_header t (off hp (G - 8)) = hp
    \<and> header_is_hole t (off hp G) = 0 \<and> header_magic t (off hp G) = HEAP_MAGIC \<and> unat (header_size t (off hp G)) = S + 20
    \<and> footer_magic t (off hp (G + S + 12)) = HEAP_MAGIC \<and> footer_header t (off hp (G + S + 12)) = off hp G
    \<and> header_is_hole t (off hp (G + S + 20)) = 1 \<and> header_magic t (off hp (G + S + 20)) = HEAP_MAGIC
    \<and> G + S + 20 + unat (header_size t (off hp (G + S + 20))) = T + 12
    \<and> (off hp (T - S - 16) < end_address (heap s) \<longrightarrow>
        footer_magic t (off hp (T - S - 16)) = HEAP_MAGIC \<and> footer_header t (off hp (T - S - 16)) = off hp (G + S + 20))
    \<and> slots (mem t) (index (heap t)) (unat (cur (index (heap t)))) = off hp (G + S + 20) # take (unat (cur (index (heap s)))) (index_words s)
    \<and> capacity t = capacity s
    \<and> (\<forall>x. \<not> in_range hp T x \<and> \<not> in_range (array (index (heap s))) (4 * capacity s) x \<longrightarrow> mem t x = mem s x)
    \<and> (\<forall>i. G + S + 32 \<le> i \<and> i + S + 16 < T \<or> G + 12 \<le> i \<and> i < G + S + 12 \<and> i + S + 16 < T \<longrightarrow> mem t (off hp i) = mem s (off hp i))
    \<and> t = set_heap ((heap s)\<lparr>index := (index (heap s))\<lparr>cur := cur (index (heap s)) + 1\<rparr>\<rparr>) (s\<lparr>mem := mem t\<rparr>)"
proof -
  let ?a = "index (heap s)" and ?T = "T - (G - 12)" and ?g = "off hp (G + (T - (G - 12)) - S - 28) < end_address (heap s)"
  obtain m where run: "alloc (Suc n) sz 1 s = Inr (off hp (G + 12), set_heap ((heap s)\<lparr>index := ?a\<lparr>cur := cur ?a + 1\<rparr>\<rparr>) (s\<lparr>mem := m\<rparr>))"
    and m: "\<And>x. \<not> in_range (array ?a) (4 * capacity s) x \<Longrightarrow> m x = split_mem (front_mem (mem s) hp G) (off hp G) S ?T ?g x"
    and sl: "slots m ?a (unat (cur ?a) + 1) = off hp (G + S + 20) # take (unat (cur ?a)) (index_words s)"
    and G: "20 \<le> G" "G \<le> 0x1000" "G + S + 40 \<le> T" "T + 12 < 2 ^ 32"
    using alloc_front [OF assms(1-5)] by blast
  let ?t = "set_heap ((heap s)\<lparr>index := ?a\<lparr>cur := cur ?a + 1\<rparr>\<rparr>) (s\<lparr>mem := m\<rparr>)"
  have w: "\<And>x. in_range hp T x \<Longrightarrow> \<not> in_range (array ?a) (4 * capacity s) x" "(hp + 12) AND 0xFFF \<noteq> 0"
    "unat (cur ?a) + 2 \<le> capacity s" "capacity s \<le> 2 ^ 30"
    using assms(1) by (simp_all add: can_align_def Let_def assms(2-5))
  have T: "S + 40 \<le> ?T" "?T < 2 ^ 32" using G by simp_all
  obtain M where M: "M = split_mem (front_mem (mem s) hp G) (off hp G) S ?T ?g" by simp
  have hole: "\<forall>x. in_range hp T x \<longrightarrow> mem ?t x = M x" using m w(1) by (simp add: M)
  note blk = split_mem_block [OF T, of ?g "front_mem (mem s) hp G" "off hp G", folded M, unfolded off_off]
  note frn = front_mem_fields [OF G(1,2), where m = "mem s" and hp = hp] and kept = front_kept [OF _ G(3,4), of _ "front_mem (mem s) hp G" hp ?g, folded M]
  obtain t where t: "t = ?t" by simp
  have T32: "T < 2 ^ 32" using G(4) by simp
  note f = hole_fields [OF hole [folded t] T32]
  have hp0: "off hp 0 = hp" by (simp add: off_def)
  have small: "unat (of_nat (G - 12) :: u32) = G - 12" "unat (of_nat (S + 20) :: u32) = S + 20" "unat (of_nat (?T - (S + 20)) :: u32) = ?T - (S + 20)"
    using G T by (intro unat_of_nat_small; simp)+
  have al: "off hp (G + 12) AND 0xFFF = 0"
  proof -
    have "of_nat G = 0x1000 - ((hp + 12) AND 0xFFF)"
      using G(1) by (simp add: assms(3) gap_def of_nat_diff)
    then have "off hp (G + 12) = hp + 0x1000 - ((hp + 12) AND 0xFFF) + 12" by (simp add: off_def algebra_simps)
    then show ?thesis using block_aligned [of hp] by simp
  qed
  have "header_is_hole t hp = 1" "header_magic t hp = HEAP_MAGIC" "unat (header_size t hp) = G - 12"
    using f(1-3) [of 0] kept(2) [of 0] kept(1) [of 4] kept(1) [of 8] frn(1-3) G small(1) by (simp_all add: hp0)
  moreover have "footer_magic t (off hp (G - 8)) = HEAP_MAGIC" "footer_header t (off hp (G - 8)) = hp"
  proof -
    have "G - 8 + 4 = G - 4" using G by simp
    then show "footer_magic t (off hp (G - 8)) = HEAP_MAGIC" "footer_header t (off hp (G - 8)) = hp"
      using f(4,5) [of "G - 8"] kept(1) [of "G - 8"] kept(1) [of "G - 4"] frn(4,5) G by simp_all
  qed
  moreover have "header_is_hole t (off hp G) = 0" "header_magic t (off hp G) = HEAP_MAGIC" "unat (header_size t (off hp G)) = S + 20"
    using f(1-3) [of G] blk(1-3) assms(6) G small(2) by simp_all
  moreover have "footer_magic t (off hp (G + S + 12)) = HEAP_MAGIC" "footer_header t (off hp (G + S + 12)) = off hp G"
    using f(4,5) [of "G + S + 12"] blk(4,5) assms(6) G by (simp_all add: add.assoc)
  moreover have "header_is_hole t (off hp (G + S + 20)) = 1" "header_magic t (off hp (G + S + 20)) = HEAP_MAGIC"
    "unat (header_size t (off hp (G + S + 20))) = ?T - (S + 20)"
    using f(1-3) [of "G + S + 20"] blk(6-8) assms(6) G small(3) by (simp_all add: add.assoc)
  moreover have "G + S + 20 + (?T - (S + 20)) = T + 12" using G by simp
  moreover have "footer_magic t (off hp (T - S - 16)) = HEAP_MAGIC \<and> footer_header t (off hp (T - S - 16)) = off hp (G + S + 20)"
    if g: "off hp (T - S - 16) < end_address (heap s)"
  proof -
    have e: "G + ?T - S - 28 = T - S - 16" "G + (?T - S - 28) = T - S - 16" "G + (?T - S - 24) = T - S - 12" "T - S - 16 + 4 = T - S - 12"
      using G by arith+
    have m1: "M = split_mem (front_mem (mem s) hp G) (off hp G) S ?T True" using g unfolding M e(1) by (simp only: simp_thms)
    note ft = split_mem_footer [OF T, of "front_mem (mem s) hp G" "off hp G", folded m1, unfolded off_off e]
    have le: "T - S - 16 + 8 \<le> T" "T - S - 16 + 4 \<le> T" using G by arith+
    show ?thesis using f(4) [OF le(2)] f(5) [OF le(1), unfolded e(4)] ft by (simp add: add.assoc)
  qed
  moreover have "unat (cur ?a + 1) = unat (cur ?a) + 1" using w(3,4) by (simp add: unat_word_ariths)
  then have "slots (mem t) (index (heap t)) (unat (cur (index (heap t)))) = off hp (G + S + 20) # take (unat (cur ?a)) (index_words s)"
    using sl by (simp add: t)
  moreover have "capacity t = capacity s" by (simp add: t capacity_def)
  moreover have "mem t x = mem s x" if "\<not> in_range hp T x" "\<not> in_range (array ?a) (4 * capacity s) x" for x
    using m that(2) front_split_outside [OF G that(1)] by (simp add: t)
  moreover have "mem t (off hp i) = mem s (off hp i)" if "G + S + 32 \<le> i \<or> G + 12 \<le> i \<and> i < G + S + 12" "i + S + 16 < T" for i
  proof -
    have o: "off (off hp G) (i - G) = off hp i" "in_range hp T (off hp i)" "\<not> in_range hp G (off hp i)"
      using that T32 in_range_offset [of i T hp] in_range_offs [of i 0 G hp] by (auto simp: off_off off_def)
    have "M (off (off hp G) (i - G)) = front_mem (mem s) hp G (off (off hp G) (i - G))"
      unfolding M by (rule split_mem_gap) (use that G T in auto)
    then show ?thesis using hole o front_mem_fields(6) [OF G(1,2) o(3)] by (simp add: t)
  qed
  moreover have "t = set_heap ((heap s)\<lparr>index := ?a\<lparr>cur := cur ?a + 1\<rparr>\<rparr>) (s\<lparr>mem := mem t\<rparr>)" by (simp add: t)
  ultimately show ?thesis using run [folded t] al by auto
qed


lemma can_align_demo: "can_align 0x10 0 (demo_heap 0x1800)" and gap_demo: "gap 0x2000 = 0xFF4"
proof -
  have g: "(0x2000 + 12 :: u32) AND 0xFFF = 12" by code_simp
  then show "gap 0x2000 = 0xFF4" by (simp add: gap_def)
  then have gap: "gap 0x2000 = 0xFF4" .
  have "\<not> low_bit_set 0x200C" by code_simp
  then have fit: "first_fit (0x10 + 20) 1 (demo_heap 0x1800) = Some 0"
    by (simp add: first_fit_Some heap_demo words_demo hole_fits_def Let_def sizeof_header_def size_demo)
  have ap: "apart 0x1000 16 0x2000 0x1800" by (simp add: apart_def)
  have "\<not> in_range 0x1000 16 x" if "in_range 0x2000 0x1800 x" for x
    using ap that by (rule apart_in_range)
  then show "can_align 0x10 0 (demo_heap 0x1800)"
    using fit g gap by (simp add: can_align_def Let_def heap_demo words_demo size_demo)
qed


end
