(* ===== verification/Paging.thy ===== *)
theory Paging
  imports Kernel_Heap Interrupts
begin

text \<open>
  The rest of \<open>src/src/page.c\<close>: copying page tables and directories for a new task, giving the frames
  of a directory back, the switch of directories, the handler of page faults, and \<open>init_paging\<close>, which
  sets all of memory management up; and \<open>copy_page_phy\<close> of \<open>src/src/process.s\<close>. The first argument of
  the functions that allocate bounds the depth of the allocator's nested calls.
\<close>

section \<open>Copying\<close>

fun copy_words :: "memory \<Rightarrow> u32 \<Rightarrow> u32 \<Rightarrow> nat \<Rightarrow> memory" where
  "copy_words m src dst 0 = m"
| "copy_words m src dst (Suc n) = copy_words (store32 m dst (load32 m src)) (src + 4) (dst + 4) n"

definition copy_page_phy :: "u32 \<Rightarrow> u32 \<Rightarrow> 'a kmem \<Rightarrow> 'a kmem" where
  "copy_page_phy src dst s = s\<lparr>phys := copy_words (phys s) src dst 1024\<rparr>"

text \<open>One round of the loop of \<open>clone_table\<close>, and the function.\<close>

definition clone_entry :: "u32 \<Rightarrow> u32 \<Rightarrow> u32 \<Rightarrow> 'a kmem \<Rightarrow> 'a kmem" where
  "clone_entry src table i s =
     (let p = page_slot src i; q = page_slot table i in
      if frame_of (peek s p) = 0 then s
      else
        let s = alloc_frame q 0 0 s;
            s = (if valid_of (peek s p) \<noteq> 0 then set_valid q 1 s else s);
            s = (if rw_of (peek s p) \<noteq> 0 then set_rw q 1 s else s);
            s = (if user_of (peek s p) \<noteq> 0 then set_user q 1 s else s);
            s = (if accessed_of (peek s p) \<noteq> 0 then set_accessed q 1 s else s);
            s = (if dirty_of (peek s p) \<noteq> 0 then set_dirty q 1 s else s)
        in copy_page_phy (frame_of (peek s p) * 0x1000) (frame_of (peek s q) * 0x1000) s)"

definition indices :: "u32 list" where
  "indices = List.map of_nat [0..<1024]"

definition clone_table :: "nat \<Rightarrow> u32 \<Rightarrow> 'a kmem \<Rightarrow> fault + (u32 \<times> u32 \<times> 'a kmem)" where
  "clone_table n src s =
     ebind (malloc_ap n 0x1000 s) (\<lambda>(table, phy, s).
       Inr (table, phy, fold (clone_entry src table) indices (fill table 0 0x1000 s)))"

fun clone_dir_loop :: "nat \<Rightarrow> u32 \<Rightarrow> u32 \<Rightarrow> u32 list \<Rightarrow> 'a kmem \<Rightarrow> fault + 'a kmem" where
  "clone_dir_loop n src newdir [] s = Inr s"
| "clone_dir_loop n src newdir (i # is) s =
     (if peek s (table_slot src i) = 0 then clone_dir_loop n src newdir is s
      else if peek s (table_slot (vm_page_dir s) i) = peek s (table_slot src i) then
        let s = poke (table_slot newdir i) (peek s (table_slot src i)) s;
            s = poke (phy_slot newdir i) (peek s (phy_slot src i)) s
        in clone_dir_loop n src newdir is s
      else
        ebind (clone_table n (peek s (table_slot src i)) s) (\<lambda>(table, phy, s).
          let s = poke (table_slot newdir i) table s;
              s = poke (phy_slot newdir i) (phy OR 0x07) s
          in clone_dir_loop n src newdir is s))"

definition clone_dir :: "nat \<Rightarrow> u32 \<Rightarrow> 'a kmem \<Rightarrow> fault + (u32 \<times> 'a kmem)" where
  "clone_dir n src s =
     ebind (malloc_ap n 0x2004 s) (\<lambda>(newdir, phyAddr, s).
       let s = fill newdir 0 0x2004 s;
           s = poke (dir_phy_slot newdir) (phyAddr + 0x1000) s
       in ebind (clone_dir_loop n src newdir indices s) (\<lambda>s. Inr (newdir, s)))"

text \<open>\<open>free_all_page\<close> does not look whether a table is there.\<close>

definition free_all_page :: "u32 \<Rightarrow> 'a kmem \<Rightarrow> 'a kmem" where
  "free_all_page dir s =
     fold (\<lambda>i s. let p_table = peek s (table_slot dir i) in
             fold (\<lambda>j s. free_frame (page_slot p_table j) s) indices s)
       indices s"

section \<open>The processor's registers\<close>

definition switch_page_directory :: "u32 \<Rightarrow> 'a kmem \<Rightarrow> 'a kmem" where
  "switch_page_directory dir s =
     (let s = s\<lparr>cur_vm_page_dir := dir\<rparr>;
          s = s\<lparr>if_flag := False\<rparr>;
          s = s\<lparr>cr3 := peek s (dir_phy_slot dir)\<rparr>;
          r = cr0 s OR 0x80000000;
          s = s\<lparr>cr0 := r\<rparr>
      in s\<lparr>if_flag := True\<rparr>)"

text \<open>
  The handler of page faults: \<open>cr2\<close> holds the faulting address. It prints it and spins. The tests of
  the error code are computed and not used.
\<close>

definition page_fault :: "u32 \<Rightarrow> registers \<Rightarrow> 'a kmem \<Rightarrow> fault \<times> 'a kmem" where
  "page_fault cr2 regs s =
     (let faulting_address = cr2;
          present = err_code regs AND 0x1 = 0;
          rw = err_code regs AND 0x2;
          us = err_code regs AND 0x4;
          reserved = err_code regs AND 0x8;
          ident = err_code regs AND 0x10
      in (Hang, kprintf (''page fault:%x'' @ [CHR 0x0A]) [AInt faulting_address] s))"

text \<open>The handler \<open>thirteenisr\<close> only prints; nothing registers it.\<close>

definition thirteenisr :: "registers \<Rightarrow> 'a kmem \<Rightarrow> 'a kmem" where
  "thirteenisr regs s = kprintf (''fuck!!'' @ [CHR 0x0A]) [] s"

section \<open>Setting up\<close>

definition MEMORY_SIZE :: u32 where "MEMORY_SIZE = 0x1000000"
definition PAGE_SIZE :: u32 where "PAGE_SIZE = 0x1000"
definition FRAME_COUNT :: u32 where "FRAME_COUNT = MEMORY_SIZE div PAGE_SIZE"

text \<open>The pages of the heap's first range.\<close>

definition heap_pages :: "u32 list" where
  "heap_pages = List.map (\<lambda>k. KHEAP_START + of_nat k * 0x1000) [0..<unat KHEAP_INITIAL_SIZE div 0x1000]"

fun make_tables :: "nat \<Rightarrow> u32 list \<Rightarrow> 'a kmem \<Rightarrow> fault + 'a kmem" where
  "make_tables n [] s = Inr s"
| "make_tables n (i # is) s = ebind (get_page (malloc_ap n) i 1 (vm_page_dir s) s) (\<lambda>(page, s). make_tables n is s)"

text \<open>The loop that maps the kernel; its bound is read again in every round.\<close>

partial_function (option) map_kernel :: "nat \<Rightarrow> u32 \<Rightarrow> 'a kmem \<Rightarrow> (fault + 'a kmem) option" where
  "map_kernel n i s =
     (if i < placement_address s then
        (case get_page (malloc_ap n) i 1 (vm_page_dir s) s of
           Inl e \<Rightarrow> Some (Inl e)
         | Inr r \<Rightarrow> map_kernel n (i + PAGE_SIZE) (alloc_frame (fst r) 0 1 (snd r)))
      else Some (Inr s))"

fun map_heap :: "u32 list \<Rightarrow> 'a kmem \<Rightarrow> fault + 'a kmem" where
  "map_heap [] s = Inr s"
| "map_heap (i # is) s = ebind (find_page i (vm_page_dir s) s) (\<lambda>(page, s). map_heap is (alloc_frame page 0 1 s))"

text \<open>\<open>init_paging\<close>: the tables it builds while paging is off, and the whole.\<close>

definition paging_tables :: "nat \<Rightarrow> 'a kmem \<Rightarrow> fault + 'a kmem" where
  "paging_tables n s =
     (let s = s\<lparr>frames_bitmap_size := FRAME_COUNT div 8\<rparr> in
      ebind (malloc_s n (frames_bitmap_size s) s) (\<lambda>(addr, s).
      let s = s\<lparr>frames := addr\<rparr>;
          s = fill (frames s) 0 (frames_bitmap_size s) s in
      ebind (malloc_ap n 0x2004 s) (\<lambda>(dir, phy, s).
      let s = s\<lparr>vm_page_dir := dir\<rparr>;
          s = fill (vm_page_dir s) 0 0x2004 s;
          s = poke (dir_phy_slot (vm_page_dir s)) (phy_slot (vm_page_dir s) 0) s in
      ebind (make_tables n heap_pages s) (\<lambda>s.
      ebind (malloc_s n 32 s) (\<lambda>(hp, s).
      ebind (case map_kernel n 0 s of None \<Rightarrow> Inl Hang | Some r \<Rightarrow> r) (\<lambda>s.
      map_heap heap_pages s))))))"

definition init_paging :: "nat \<Rightarrow> isr_state \<Rightarrow> 'a kmem \<Rightarrow> fault + (isr_state \<times> 'a kmem)" where
  "init_paging n isrs s =
     ebind (paging_tables n s) (\<lambda>s.
     let isrs = register_interrupt_handler 14 Page_fault isrs;
         s = switch_page_directory (vm_page_dir s) s in
     ebind (create_heap KHEAP_START (KHEAP_START + KHEAP_INITIAL_SIZE) 0xCFFFF000 0 0 s) (\<lambda>(h, s).
     let s = s\<lparr>kheap := Some h\<rparr> in
     ebind (clone_dir n (vm_page_dir s) s) (\<lambda>(dir, s).
     let s = s\<lparr>cur_vm_page_dir := dir\<rparr>
     in Inr (isrs, switch_page_directory (cur_vm_page_dir s) s))))"

end
