(* ===== verification/Paging_Correctness.thy ===== *)
theory Paging_Correctness
  imports Paging Heap_Correctness
begin

text \<open>
  What \<open>src/src/page.c\<close> promises: missing page tables are made empty, the tables set up before paging
  is switched on map the kernel to itself and the heap to frames of its own, a copied table keeps the
  contents of its pages in fresh frames, and the kernel's tables are shared by every directory.
\<close>

section \<open>Filling the entries of one table\<close>

lemma alloc_frame_mem:
  assumes "entry_ok s page" and "entry_frame s page = 0" and "lowest_free s = Some k"
    and "\<not> in_range page 4 x" and "\<not> in_range (frames s) (unat (frames_bitmap_size s)) x"
  shows "mem (alloc_frame page i w s) x = mem s x"
proof -
  have ok: "bitmap_ok s" "off_bitmap s page" using assms(1) by (simp_all add: entry_ok_def)
  have k: "k < frame_count s" using assms(3) by (simp add: lowest_free_Some)
  then have k20: "k < 2 ^ 20" using bitmap_ok_count [OF ok(1)] by simp
  have "k div 8 < unat (frames_bitmap_size s)" using k by (simp add: frame_count_def div_less_iff_less_mult)
  moreover have "unat (of_nat (k div 8) :: u32) = k div 8" using k20 by (intro unat_of_nat_small) simp
  ultimately have "x \<noteq> frames s + of_nat (k div 8)" using assms(5) by (auto simp: in_range_def)
  then have "mem (set_frame (of_nat k * 0x1000) s) x = mem s x"
    using k20 by (simp add: set_frame_def Let_def frame_addr_index index_of_nat store8_def)
  then show ?thesis
    using alloc_frame_free [OF ok _ assms(3), of i w] assms(2,4) by (simp add: entry_frame_0 store32_other)
qed

lemma lowest_free_prefix:
  assumes "frame_set s = {..<m}" and "m < frame_count s"
  shows "lowest_free s = Some m"
  using assms by (auto simp: lowest_free_Some frame_set_def set_eq_iff)

text \<open>
  \<open>table_off s T\<close>: the table at \<open>T\<close> shares no byte with the bitmap. \<open>filled T w a b m\<close>: the entries from
  \<open>a\<close> to \<open>b\<close> hold the frames from \<open>m\<close> on.
\<close>

definition table_off :: "'a kmem \<Rightarrow> u32 \<Rightarrow> bool" where
  "table_off s T \<longleftrightarrow> bitmap_ok s \<and> apart T 0x1000 (frames s) (unat (frames_bitmap_size s))"

abbreviation page_entry :: "u32 \<Rightarrow> nat \<Rightarrow> u32" where
  "page_entry T j \<equiv> off T (4 * j)"

lemma table_off_entry:
  assumes "table_off s T" and "j < 1024"
  shows "entry_ok s (page_entry T j)"
proof -
  let ?n = "unat (frames_bitmap_size s)"
  have ok: "bitmap_ok s" and ap: "apart T 0x1000 (frames s) ?n" using assms(1) by (simp_all add: table_off_def)
  have n: "?n \<le> 0x20000" using ok by (simp add: bitmap_ok_def word_le_nat_alt)
  have "\<not> in_range (page_entry T j) 4 (frames s + of_nat i)" if "i < ?n" for i
  proof -
    have "in_range (frames s) ?n (frames s + of_nat i)"
      using that n by (simp add: in_range_def unat_of_nat_small)
    with ap have "\<not> in_range T 0x1000 (frames s + of_nat i)" by (rule apart_in_range)
    then show ?thesis using in_range_off [of T "4 * j" 4 _ "0x1000"] assms(2) by auto
  qed
  then show ?thesis using ok by (simp add: entry_ok_def off_bitmap_def)
qed

lemma page_entries_apart:
  assumes "i < 1024" and "j < 1024" and "i \<noteq> j"
  shows "entries_apart (page_entry T i) (page_entry T j)"
proof -
  have *: "apart (page_entry T i) 4 (page_entry T j) 4" if "i < j" "j < 1024" for i j
    using that by (intro off_apart) simp_all
  from assms(3) consider "i < j" | "j < i" by linarith
  then show ?thesis
    unfolding entries_apart_def using * [of i j] * [of j i] assms(1,2) by cases (simp_all add: apart_sym)
qed

lemma table_off_cong: "frames t = frames s \<Longrightarrow> frames_bitmap_size t = frames_bitmap_size s \<Longrightarrow> table_off t T = table_off s T"
  by (simp add: table_off_def bitmap_ok_def)

text \<open>The state after the entries \<open>a\<close> to \<open>b\<close> of the table \<open>T\<close> were given frames.\<close>

abbreviation fill_table :: "u32 \<Rightarrow> nat list \<Rightarrow> 'a kmem \<Rightarrow> 'a kmem" where
  "fill_table T js s \<equiv> fold (\<lambda>j. alloc_frame (page_entry T j) 0 1) js s"

lemma fill_table_registers: "same_registers s (fill_table T js s)"
  by (induction js arbitrary: s) (auto intro: same_registers_trans alloc_frame_registers)

lemma fill_table_filled:
  fixes s :: "'a kmem"
  assumes "table_off s T" and "\<And>j. a \<le> j \<Longrightarrow> j < b \<Longrightarrow> peek s (page_entry T j) = 0" and "b \<le> 1024"
    and "frame_set s = {..<m}" and "m + (b - a) \<le> frame_count s"
  defines "t \<equiv> fill_table T [a..<b] s"
  shows "frame_set t = {..<m + (b - a)} \<and>
    (\<forall>j. a \<le> j \<and> j < b \<longrightarrow> peek t (page_entry T j) = entry_word 0 0 1 (of_nat (m + (j - a)))) \<and>
    (\<forall>j < 1024. \<not> (a \<le> j \<and> j < b) \<longrightarrow> peek t (page_entry T j) = peek s (page_entry T j)) \<and>
    (\<forall>x. \<not> in_range T 0x1000 x \<and> \<not> in_range (frames s) (unat (frames_bitmap_size s)) x \<longrightarrow> mem t x = mem s x)"
  unfolding t_def using assms(1-5)
proof (induction "b - a" arbitrary: a s m)
  case 0
  then have "[a..<b] = []" "b - a = 0" "\<And>j. \<not> (a \<le> j \<and> j < b)" by simp_all
  with 0 show ?case by simp (metis le_trans not_less)
next
  case (Suc d)
  let ?p = "page_entry T a" and ?s = "alloc_frame (page_entry T a) 0 1 s"
  have ab: "a < b" "a < 1024" using Suc.hyps(2) Suc.prems(3) by simp_all
  have z: "peek s ?p = 0" using Suc.prems(2) ab by simp
  have e0: "entry_frame s ?p = 0" by (simp add: entry_frame_def z get_field_def)
  have ok: "entry_ok s ?p" using table_off_entry [OF Suc.prems(1) ab(2)] .
  have lf: "lowest_free s = Some m" using Suc.prems(4,5) ab by (intro lowest_free_prefix) simp_all
  note af = alloc_frame_used [OF ok e0 lf, where i = 0 and w = 1]
  have other: "peek ?s (page_entry T j) = peek s (page_entry T j)" if "j < 1024" "j \<noteq> a" for j
    using af(4) [OF table_off_entry [OF Suc.prems(1) that(1)]] page_entries_apart [of a j T] that ab by simp
  have outside: "mem ?s x = mem s x"
    if "\<not> in_range T 0x1000 x" "\<not> in_range (frames s) (unat (frames_bitmap_size s)) x" for x
    using alloc_frame_mem [OF ok e0 lf _ that(2)] in_range_off [of T "4 * a" 4 x "0x1000"] that(1) ab by auto
  have m: "m + (b - Suc a) < frame_count s" "Suc m + (b - Suc a) = m + (b - a)" using Suc.prems(5) ab by simp_all
  have IH: "frame_set (fill_table T [Suc a..<b] ?s) = {..<Suc m + (b - Suc a)} \<and>
    (\<forall>j. Suc a \<le> j \<and> j < b \<longrightarrow> peek (fill_table T [Suc a..<b] ?s) (page_entry T j) = entry_word 0 0 1 (of_nat (Suc m + (j - Suc a)))) \<and>
    (\<forall>j < 1024. \<not> (Suc a \<le> j \<and> j < b) \<longrightarrow> peek (fill_table T [Suc a..<b] ?s) (page_entry T j) = peek ?s (page_entry T j)) \<and>
    (\<forall>x. \<not> in_range T 0x1000 x \<and> \<not> in_range (frames ?s) (unat (frames_bitmap_size ?s)) x \<longrightarrow>
       mem (fill_table T [Suc a..<b] ?s) x = mem ?s x)"
  proof (rule Suc.hyps(1))
    show "d = b - Suc a" using Suc.hyps(2) by simp
    show "table_off ?s T" using Suc.prems(1) by (simp add: table_off_def bitmap_ok_def)
    show "peek ?s (page_entry T j) = 0" if "Suc a \<le> j" "j < b" for j
      using other [of j] Suc.prems(2,3) that by simp
    show "frame_set ?s = {..<Suc m}" using af(1) Suc.prems(4) by (simp add: lessThan_Suc)
    show "Suc m + (b - Suc a) \<le> frame_count ?s" using m by simp
  qed (use Suc.prems in simp_all)
  have fold: "fill_table T [a..<b] s = fill_table T [Suc a..<b] ?s" using ab by (simp add: upt_conv_Cons)
  have here: "peek (fill_table T [Suc a..<b] ?s) ?p = entry_word 0 0 1 (of_nat m)"
    using IH ab af(2) z by simp
  have later: "peek (fill_table T [Suc a..<b] ?s) (page_entry T j) = entry_word 0 0 1 (of_nat (m + (j - a)))"
    if "a \<le> j" "j < b" for j
  proof (cases "j = a")
    case True
    with here show ?thesis by simp
  next
    case False
    then have "Suc a \<le> j" and eq: "Suc m + (j - Suc a) = m + (j - a)" using that by simp_all
    then show ?thesis using IH [THEN conjunct2, THEN conjunct1, rule_format, of j] that(2) unfolding eq by blast
  qed
  have rest: "peek (fill_table T [Suc a..<b] ?s) (page_entry T j) = peek s (page_entry T j)"
    if "j < 1024" "\<not> (a \<le> j \<and> j < b)" for j
  proof -
    have "\<not> (Suc a \<le> j \<and> j < b)" "j \<noteq> a" using that ab by auto
    then show ?thesis using IH [THEN conjunct2, THEN conjunct2, THEN conjunct1, rule_format, of j] other that(1) by simp
  qed
  have out: "mem (fill_table T [Suc a..<b] ?s) x = mem s x"
    if "\<not> in_range T 0x1000 x" "\<not> in_range (frames s) (unat (frames_bitmap_size s)) x" for x
    using IH outside [OF that] that by simp
  have fs: "frame_set (fill_table T [Suc a..<b] ?s) = {..<m + (b - a)}" using IH m(2) by (simp only:)
  show ?case
    unfolding fold
  proof (intro conjI allI impI)
  qed (use fs later rest out in blast)+
qed


section \<open>The loops of \<open>init_paging\<close>\<close>

lemma page_indices:
  assumes "A < 2 ^ 20"
  shows "(of_nat A * 0x1000 :: u32) div 0x1000 div 1024 = of_nat (A div 1024)"
    and "(of_nat A * 0x1000 :: u32) div 0x1000 mod 1024 = of_nat (A mod 1024)"
proof -
  have u: "unat (of_nat A :: u32) = A" "unat (of_nat (A div 1024) :: u32) = A div 1024"
    "unat (of_nat (A mod 1024) :: u32) = A mod 1024"
    using assms by (intro unat_of_nat_small; simp)+
  have "(of_nat A :: u32) div 1024 = of_nat (A div 1024)"
    by (rule word_unat_eq_iff [THEN iffD2]) (simp add: unat_div u)
  moreover have "(of_nat A :: u32) mod 1024 = of_nat (A mod 1024)"
    by (rule word_unat_eq_iff [THEN iffD2]) (simp add: unat_mod u)
  ultimately show "(of_nat A * 0x1000 :: u32) div 0x1000 div 1024 = of_nat (A div 1024)"
    "(of_nat A * 0x1000 :: u32) div 0x1000 mod 1024 = of_nat (A mod 1024)"
    by (simp_all only: frame_addr_index [OF assms])
qed

lemma slot_of_nat: "j < 1024 \<Longrightarrow> page_slot T (of_nat j) = page_entry T j"
  by (simp add: page_slot_def off_def)

lemma get_page_present:
  assumes "A < 2 ^ 20" and "peek s (table_slot dir (of_nat (A div 1024))) = T" and "T \<noteq> 0"
  shows "get_page mal (of_nat A * 0x1000) c dir s = Inr (page_entry T (A mod 1024), s)"
  using get_page_finds [of s dir "of_nat A * 0x1000"] assms by (simp add: page_indices slot_of_nat)

lemma map_kernel_fills:
  fixes s :: "'a kmem"
  assumes "T \<noteq> 0" and "a \<le> N" and "N \<le> 1024" and "unat (placement_address s) \<le> N * 0x1000"
    and "\<And>j. j < N \<Longrightarrow> j * 0x1000 < unat (placement_address s)"
    and "\<And>j. a \<le> j \<Longrightarrow> j \<le> N \<Longrightarrow> peek (fill_table T [a..<j] s) (table_slot (vm_page_dir s) 0) = T"
  shows "map_kernel n (of_nat a * 0x1000) s = Some (Inr (fill_table T [a..<N] s))"
  using assms
proof (induction "N - a" arbitrary: a s)
  case 0
  then have "a = N" by simp
  moreover have "unat (of_nat N * 0x1000 :: u32) = N * 0x1000"
    using \<open>N \<le> 1024\<close> by (simp add: unat_word_ariths unat_of_nat_small)
  ultimately have "\<not> of_nat a * 0x1000 < placement_address s" using 0 by (simp add: word_less_nat_alt)
  then show ?case using \<open>a = N\<close> by (subst map_kernel.simps) simp
next
  case (Suc d)
  have a: "a < N" "a < 1024" using Suc.hyps(2) Suc.prems(3) by simp_all
  have "unat (of_nat a * 0x1000 :: u32) = a * 0x1000"
    using a by (simp add: unat_word_ariths unat_of_nat_small)
  then have lt: "of_nat a * 0x1000 < placement_address s" using Suc.prems(5) a by (simp add: word_less_nat_alt)
  have "peek s (table_slot (vm_page_dir s) 0) = T" using Suc.prems(6) [of a] a by simp
  then have page: "get_page (malloc_ap n) (of_nat a * 0x1000) 1 (vm_page_dir s) s = Inr (page_entry T a, s)"
    using get_page_present [of a s "vm_page_dir s" T] a Suc.prems(1) by simp
  let ?s = "alloc_frame (page_entry T a) 0 1 s"
  have "map_kernel n (of_nat (Suc a) * 0x1000) ?s = Some (Inr (fill_table T [Suc a..<N] ?s))"
  proof (rule Suc.hyps(1))
    show "peek (fill_table T [Suc a..<j] ?s) (table_slot (vm_page_dir ?s) 0) = T" if "Suc a \<le> j" "j \<le> N" for j
      using Suc.prems(6) [of j] that by (simp add: upt_conv_Cons)
  qed (use Suc.hyps(2) Suc.prems a in simp_all)
  moreover have "of_nat a * 0x1000 + PAGE_SIZE = (of_nat (Suc a) * 0x1000 :: u32)"
    by (simp add: PAGE_SIZE_def distrib_right)
  ultimately have "map_kernel n (of_nat a * 0x1000 + PAGE_SIZE) ?s = Some (Inr (fill_table T [a..<N] s))"
    using a by (simp only: upt_conv_Cons fold_simps)
  then show ?case using lt page by (subst map_kernel.simps) simp
qed

text \<open>The heap's first megabyte: table 768, entries 0 to 255.\<close>

lemma heap_page_number:
  assumes "k < 256"
  shows "KHEAP_START + of_nat k * 0x1000 = of_nat (768 * 1024 + k) * 0x1000" "768 * 1024 + k < 2 ^ 20"
    "(768 * 1024 + k) div 1024 = 768" "(768 * 1024 + k) mod 1024 = k"
  using assms mod_mult_self3 [of 768 1024 k] by (simp_all add: KHEAP_START_def distrib_right)

lemma heap_pages_eq: "heap_pages = List.map (\<lambda>k. KHEAP_START + of_nat k * 0x1000) [0..<256]"
  by (simp add: heap_pages_def KHEAP_INITIAL_SIZE_def)

lemma heap_page_present:
  assumes "k < 256" and "peek s (table_slot dir 768) = T" and "T \<noteq> 0"
  shows "get_page mal (KHEAP_START + of_nat k * 0x1000) c dir s = Inr (page_entry T k, s)"
  using get_page_present [of "768 * 1024 + k" s dir T] heap_page_number [OF assms(1)] assms(2,3) by simp

lemma make_tables_present:
  assumes "peek s (table_slot (vm_page_dir s) 768) = T" and "T \<noteq> 0" and "\<forall>k \<in> set ks. k < 256"
  shows "make_tables n (List.map (\<lambda>k. KHEAP_START + of_nat k * 0x1000) ks) s = Inr s"
  using assms(3) by (induction ks) (simp_all add: heap_page_present [OF _ assms(1,2)])

lemma map_heap_fills:
  fixes s :: "'a kmem"
  assumes "T \<noteq> 0" and "a \<le> b" and "b \<le> 256"
    and "\<And>j. a \<le> j \<Longrightarrow> j \<le> b \<Longrightarrow> peek (fill_table T [a..<j] s) (table_slot (vm_page_dir s) 768) = T"
  shows "map_heap (List.map (\<lambda>k. KHEAP_START + of_nat k * 0x1000) [a..<b]) s = Inr (fill_table T [a..<b] s)"
  using assms
proof (induction "b - a" arbitrary: a s)
  case (Suc d)
  have a: "a < b" "a < 256" using Suc.hyps(2) Suc.prems(3) by simp_all
  have "peek s (table_slot (vm_page_dir s) 768) = T" using Suc.prems(4) [of a] a by simp
  then have page: "find_page (KHEAP_START + of_nat a * 0x1000) (vm_page_dir s) s = Inr (page_entry T a, s)"
    using heap_page_present a Suc.prems(1) by (simp add: find_page_def)
  let ?s = "alloc_frame (page_entry T a) 0 1 s"
  have "map_heap (List.map (\<lambda>k. KHEAP_START + of_nat k * 0x1000) [Suc a..<b]) ?s = Inr (fill_table T [Suc a..<b] ?s)"
  proof (rule Suc.hyps(1))
    show "peek (fill_table T [Suc a..<j] ?s) (table_slot (vm_page_dir ?s) 768) = T" if "Suc a \<le> j" "j \<le> b" for j
      using Suc.prems(4) [of j] that by (simp add: upt_conv_Cons)
  qed (use Suc.hyps(2) Suc.prems a in simp_all)
  then show ?case using page a by (simp add: upt_conv_Cons)
qed simp


section \<open>Memory before the heap exists\<close>

definition page_up :: "u32 \<Rightarrow> u32" where
  "page_up x = (if x AND 0xFFF = 0 then x else (x AND 0xFFFFF000) + 0x1000)"

lemma malloc_before_heap:
  fixes s :: "'a kmem"
  assumes "kheap s = None"
  shows "malloc_s n sz s = Inr (placement_address s, s\<lparr>placement_address := placement_address s + sz\<rparr>)"
    and "malloc_ap n sz s = Inr (page_up (placement_address s), page_up (placement_address s),
           s\<lparr>placement_address := page_up (placement_address s) + sz\<rparr>)"
  using assms by (simp_all add: malloc_s_def malloc_ap_def k_malloc_def malloc_over_def Let_def page_up_def)

lemma and_FFF_mod: "unat (x AND 0xFFF) = unat x mod 0x1000" for x :: u32
  by (simp add: and_FFF unat_take_bit_word)

lemma and_FFF_dvd: "x AND 0xFFF = 0 \<longleftrightarrow> 0x1000 dvd unat x" for x :: u32
  by (simp add: unat_eq_zero [symmetric] and_FFF_mod dvd_eq_mod_eq_0)

lemma unat_page_up:
  assumes "unat x + 0x1000 < 2 ^ 32"
  shows "unat x \<le> unat (page_up x) \<and> unat (page_up x) < unat x + 0x1000 \<and> 0x1000 dvd unat (page_up x)"
proof (cases "x AND 0xFFF = 0")
  case True
  then show ?thesis by (simp add: page_up_def and_FFF_dvd)
next
  case False
  have c: "(0xFFFFF000 :: u32) = NOT (mask 12)" by code_simp
  have u: "unat (x AND 0xFFFFF000) = unat x div 0x1000 * 0x1000"
    unfolding c by (simp only: unat_and_not_mask) simp
  obtain q r where q: "unat x div 0x1000 = q" and r: "unat x mod 0x1000 = r" by blast
  have x: "unat x = q * 0x1000 + r" using q r by (metis div_mult_mod_eq)
  have "r \<noteq> 0" "r < 0x1000" using False r by (auto simp: and_FFF_dvd dvd_eq_mod_eq_0)
  moreover have "unat ((x AND 0xFFFFF000) + 0x1000) = q * 0x1000 + 0x1000"
    using assms x \<open>r < 0x1000\<close> by (simp add: unat_word_ariths u q)
  ultimately show ?thesis using False x by (simp add: page_up_def)
qed

lemma unat_off: "unat b + i < 2 ^ 32 \<Longrightarrow> unat (off b i) = unat b + i"
  by (simp add: off_def unat_word_ariths unat_of_nat_small)

lemma page_up_off:
  assumes "0x1000 dvd unat D" and "0x1000 dvd j" and "i \<le> j" and "j < i + 0x1000" and "unat D + j + 0x1000 < 2 ^ 32"
  shows "page_up (off D i) = off D j"
proof (rule word_unat_eq_iff [THEN iffD2])
  have u: "unat (off D i) = unat D + i" "unat (off D j) = unat D + j" using assms by (simp_all add: unat_off)
  obtain a b where ab: "unat D = 0x1000 * a" "j = 0x1000 * b" using assms(1,2) unfolding dvd_def by blast
  have p: "unat D + i \<le> unat (page_up (off D i))" "unat (page_up (off D i)) < unat D + i + 0x1000"
    "0x1000 dvd unat (page_up (off D i))"
    using unat_page_up [of "off D i"] u assms(3-5) by simp_all
  obtain c where c: "unat (page_up (off D i)) = 0x1000 * c" using p(3) unfolding dvd_def by blast
  have "a + b = c" using p(1,2) ab assms(3,4) unfolding c by linarith
  then show "unat (page_up (off D i)) = unat (off D j)" using ab u c by simp
qed

lemma apart_unat:
  assumes "unat a + n \<le> unat b" and "unat b + k \<le> 2 ^ 32" and "0 < n"
  shows "apart a n b k"
proof (rule apart_diff)
  show "b - a = of_nat (unat b - unat a)" using assms by (simp add: of_nat_diff)
  show "unat b - unat a < 2 ^ 32" using unat_u32_lt [of b] by simp
qed (use assms in simp_all)

lemma off_0: "off b 0 = b"
  by (simp add: off_def)


lemma in_range_interval:
  assumes "unat b + n \<le> 2 ^ 32"
  shows "in_range b n x \<longleftrightarrow> unat b \<le> unat x \<and> unat x < unat b + n"
  using assms unat_u32_lt [of b] unat_u32_lt [of x]
  by (auto simp: in_range_def unat_sub_if')

lemma peek_fill_in:
  fixes s :: "'a kmem"
  assumes "i + 4 \<le> unat n" and "unat n < 2 ^ 31"
  shows "peek (fill a 0 n s) (off a i) = 0"
proof -
  have z: "mem (fill a 0 n s) x = 0" if "in_range (off a i) 4 x" for x
    using in_range_off [OF that assms(1)] assms(2) by (simp add: fill_mem)
  have "load32 (mem (fill a 0 n s)) (off a i) = load32 (\<lambda>_. 0) (off a i)"
    by (rule load32_cong) (rule z)
  then show ?thesis by (simp add: peek_def load32_def)
qed

lemma with_table_peek_other:
  assumes "apart a 4 T 0x1000" and "apart a 4 (table_slot dir i) 4" and "apart a 4 (phy_slot dir i) 4"
  shows "peek (with_table dir i T P u) a = peek u a"
  using assms(2,3)
  by (simp add: with_table_def kernel.rd_wr_apart apart_sym peek_fill_out [OF assms(1)] del: poke_frame)

lemma with_table_registers: "same_registers u (with_table dir i T P u)"
  by (simp add: with_table_def same_registers_def)

text \<open>
  What holds after the directory at \<open>D\<close> was set up, with the bitmap at \<open>F\<close> and the memory \<open>m\<close> before: the
  bitmap is empty, the directory knows the address the processor needs, and nothing below \<open>F\<close> changed.
\<close>

definition laid_out :: "u32 \<Rightarrow> u32 \<Rightarrow> memory \<Rightarrow> 'a kmem \<Rightarrow> bool" where
  "laid_out F D m u \<longleftrightarrow> kheap u = None \<and> frames u = F \<and> frames_bitmap_size u = 0x200 \<and> vm_page_dir u = D
     \<and> (\<forall>x. unat F \<le> unat x \<and> unat x < unat F + 0x200 \<longrightarrow> mem u x = 0)
     \<and> (\<forall>x. unat x < unat F \<or> unat D + 0x6000 \<le> unat x \<longrightarrow> mem u x = m x)
     \<and> peek u (off D 0x2000) = off D 0x1000"

definition low_layout :: "u32 \<Rightarrow> u32 \<Rightarrow> bool" where
  "low_layout F D \<longleftrightarrow> unat F + 0x200 \<le> unat D \<and> unat D \<le> 0x3F8000 \<and> 0x1000 dvd unat D"

lemma laid_out_with_table:
  assumes l: "laid_out F D m u" and lay: "low_layout F D" and i: "unat i < 1024" and c: "0x3000 \<le> c" "c \<le> 0x5000"
  shows "laid_out F D m (with_table D i (off D c) P (u\<lparr>placement_address := p\<rparr>))"
proof -
  let ?w = "with_table D i (off D c) P (u\<lparr>placement_address := p\<rparr>)"
  note regs = same_registersD [OF with_table_registers [of "u\<lparr>placement_address := p\<rparr>" D i "off D c" P]]
  have d: "unat F + 0x200 \<le> unat D" "unat D \<le> 0x3F8000" using lay by (simp_all add: low_layout_def)
  have slots: "table_slot D i = off D (4 * unat i)" "phy_slot D i = off D (0x1000 + 4 * unat i)"
    using i by (simp_all add: slots_off)
  have u: "unat (off D c) = unat D + c" "unat (off D (4 * unat i)) = unat D + 4 * unat i"
    "unat (off D (0x1000 + 4 * unat i)) = unat D + (0x1000 + 4 * unat i)"
    using c d i by (simp_all add: unat_off)
  have ap: "apart D 0x2004 (off D c) 0x1000"
    using u c d by (intro apart_unat) simp_all
  have below: "mem ?w x = mem u x" if "unat x < unat D \<or> unat D + 0x6000 \<le> unat x" for x
  proof -
    have "\<not> in_range (off D c) 0x1000 x" "\<not> in_range (off D (4 * unat i)) 4 x"
      "\<not> in_range (off D (0x1000 + 4 * unat i)) 4 x"
      using that u c d i by (auto simp: in_range_interval)
    then show ?thesis using with_table_peek(4) [OF ap i, of x P "u\<lparr>placement_address := p\<rparr>"] by (simp add: slots)
  qed
  have "peek ?w (off D 0x2000) = peek (u\<lparr>placement_address := p\<rparr>) (off D 0x2000)"
    by (rule with_table_peek_other, unfold slots) (rule off_apart off_apart [THEN apart_sym [THEN iffD1]]; use i c in simp)+
  then have "peek ?w (off D 0x2000) = off D 0x1000" using l by (simp add: peek_def laid_out_def)
  then show ?thesis
    using l below d regs by (simp add: laid_out_def)
qed


text \<open>The state after the directory was set up, and after its two tables were made.\<close>

definition with_dir :: "u32 \<Rightarrow> u32 \<Rightarrow> 'a kmem \<Rightarrow> 'a kmem" where
  "with_dir F D s = poke (dir_phy_slot D) (phy_slot D 0)
     (fill D 0 0x2004 ((fill F 0 0x200 (s\<lparr>frames_bitmap_size := 0x200, placement_address := F + 0x200, frames := F\<rparr>))
        \<lparr>placement_address := D + 0x2004, vm_page_dir := D\<rparr>))"

lemma with_dir_laid_out:
  assumes "kheap s = None" and lay: "low_layout F D"
  shows "laid_out F D (mem s) (with_dir F D s)" and "i < 1024 \<Longrightarrow> peek (with_dir F D s) (off D (4 * i)) = 0"
    and "placement_address (with_dir F D s) = off D 0x2004"
proof -
  have d: "unat F + 0x200 \<le> unat D" "unat D \<le> 0x3F8000" using lay by (simp_all add: low_layout_def)
  have slots: "dir_phy_slot D = off D 0x2000" "phy_slot D 0 = off D 0x1000"
    by (simp_all add: dir_phy_slot_def phy_slot_def off_def)
  have u: "unat (off D 0x2000) = unat D + 0x2000" using d by (simp add: unat_off)
  let ?s = "(fill F 0 0x200 (s\<lparr>frames_bitmap_size := 0x200, placement_address := F + 0x200, frames := F\<rparr>))
        \<lparr>placement_address := D + 0x2004, vm_page_dir := D\<rparr>"
  have m: "mem (with_dir F D s) x = mem ?s x" if "unat x < unat D \<or> unat D + 0x6000 \<le> unat x" for x
  proof -
    have "\<not> in_range D 0x2004 x" "\<not> in_range (off D 0x2000) 4 x"
      using that u d by (auto simp: in_range_interval)
    then show ?thesis by (simp add: with_dir_def slots store32_other fill_mem)
  qed
  have f: "mem ?s x = (if unat F \<le> unat x \<and> unat x < unat F + 0x200 then 0 else mem s x)" for x
    using d by (simp add: fill_mem in_range_interval)
  have "peek (with_dir F D s) (off D 0x2000) = off D 0x1000"
    by (simp add: with_dir_def slots kernel.rd_wr_same del: poke_frame)
  then show "laid_out F D (mem s) (with_dir F D s)"
    using m f d assms(1) by (auto simp: laid_out_def with_dir_def)
  show "peek (with_dir F D s) (off D (4 * i)) = 0" if "i < 1024"
  proof -
    have "apart (off D 0x2000) 4 (off D (4 * i)) 4"
      using off_apart [of "4 * i" 4 "0x2000" 4 D] that by (simp add: apart_sym)
    then show ?thesis
      using that by (simp add: with_dir_def slots kernel.rd_wr_apart peek_fill_in del: poke_frame)
  qed
  show "placement_address (with_dir F D s) = off D 0x2004" by (simp add: with_dir_def off_def)
qed

definition both_tables :: "u32 \<Rightarrow> u32 \<Rightarrow> 'a kmem \<Rightarrow> 'a kmem" where
  "both_tables F D s = with_table D 0 (off D 0x5000) (off D 0x5000)
     ((with_table D 768 (off D 0x3000) (off D 0x3000) ((with_dir F D s)\<lparr>placement_address := off D 0x4000\<rparr>))
       \<lparr>placement_address := off D 0x6000\<rparr>)"

lemma both_tables_state:
  assumes "kheap s = None" and lay: "low_layout F D"
  defines "u \<equiv> both_tables F D s"
  shows "laid_out F D (mem s) u" and "placement_address u = off D 0x6000"
    and "peek u (table_slot D 0) = off D 0x5000" and "peek u (table_slot D 768) = off D 0x3000"
    and "peek u (phy_slot D 0) = off D 0x5000 OR 0x7" and "peek u (phy_slot D 768) = off D 0x3000 OR 0x7"
    and "j < 1024 \<Longrightarrow> peek u (page_entry (off D 0x5000) j) = 0"
    and "j < 1024 \<Longrightarrow> peek u (page_entry (off D 0x3000) j) = 0"
proof -
  have d: "unat F + 0x200 \<le> unat D" "unat D \<le> 0x3F8000" using lay by (simp_all add: low_layout_def)
  let ?v = "with_table D 768 (off D 0x3000) (off D 0x3000) ((with_dir F D s)\<lparr>placement_address := off D 0x4000\<rparr>)"
  have ud: "u = with_table D 0 (off D 0x5000) (off D 0x5000) (?v\<lparr>placement_address := off D 0x6000\<rparr>)"
    by (simp add: u_def both_tables_def)
  have i: "unat (0 :: u32) < 1024" "unat (768 :: u32) < 1024" by simp_all
  have ap: "apart D 0x2004 (off D 0x3000) 0x1000" "apart D 0x2004 (off D 0x5000) 0x1000"
    using d by (auto intro!: apart_unat simp: unat_off)
  note h = with_table_peek [OF ap(1) i(2), where P = "off D 0x3000" and u = "(with_dir F D s)\<lparr>placement_address := off D 0x4000\<rparr>"]
  note k = with_table_peek [OF ap(2) i(1), where P = "off D 0x5000" and u = "?v\<lparr>placement_address := off D 0x6000\<rparr>", folded ud]
  show "laid_out F D (mem s) u"
    unfolding ud by (intro laid_out_with_table with_dir_laid_out assms(1) lay i; simp)
  show "placement_address u = off D 0x6000"
    unfolding ud by (simp add: with_table_def)
  show "peek u (table_slot D 0) = off D 0x5000" "peek u (phy_slot D 0) = off D 0x5000 OR 0x7"
    "j < 1024 \<Longrightarrow> peek u (page_entry (off D 0x5000) j) = 0"
    using k by simp_all
  have keep: "peek u a = peek ?v a"
    if "apart a 4 (off D 0x5000) 0x1000" "apart a 4 (table_slot D 0) 4" "apart a 4 (phy_slot D 0) 4" for a
    unfolding ud with_table_peek_other [OF that] by (simp add: peek_def)
  have sl: "table_slot D 0 = off D 0" "phy_slot D 0 = off D 0x1000" "table_slot D 768 = off D 0xC00"
    "phy_slot D 768 = off D 0x1C00"
    by (simp_all add: table_slot_def phy_slot_def off_def)
  have oa: "apart (off D a) n (off D b) l" if "a + n \<le> b \<and> b + l \<le> 2 ^ 32 \<or> b + l \<le> a \<and> a + n \<le> 2 ^ 32" "0 < n" "0 < l" for a b n l
    using that off_apart [of a n b l D] off_apart [of b l a n D] by (auto simp: apart_sym)
  show "peek u (table_slot D 768) = off D 0x3000" "peek u (phy_slot D 768) = off D 0x3000 OR 0x7"
    using h(1,2) keep [of "table_slot D 768"] keep [of "phy_slot D 768"] by (simp_all add: sl oa)
  show "peek u (page_entry (off D 0x3000) j) = 0" if "j < 1024"
    using h(3) [OF that] keep [of "page_entry (off D 0x3000) j"] that by (simp add: sl oa off_off)
qed


lemma both_tables_other:
  assumes "kheap s = None" and lay: "low_layout F D" and i: "i < 1024" "i \<noteq> 0" "i \<noteq> 768"
  shows "peek (both_tables F D s) (off D (4 * i)) = 0"
proof -
  have d: "unat D \<le> 0x3F8000" using lay by (simp add: low_layout_def)
  have sl: "table_slot D 0 = off D 0" "phy_slot D 0 = off D 0x1000" "table_slot D 768 = off D 0xC00" "phy_slot D 768 = off D 0x1C00"
    by (simp_all add: table_slot_def phy_slot_def off_def)
  have oa: "apart (off D a) 4 (off D b) l" if "a + 4 \<le> b \<and> b + l \<le> 2 ^ 32 \<or> b + l \<le> a \<and> a + 4 \<le> 2 ^ 32" "0 < l" for a b l
    using that off_apart [of a 4 b l D] off_apart [of b l a 4 D] by (auto simp: apart_sym)
  let ?v = "with_table D 768 (off D 0x3000) (off D 0x3000) ((with_dir F D s)\<lparr>placement_address := off D 0x4000\<rparr>)"
  have "peek (both_tables F D s) (off D (4 * i)) = peek (?v\<lparr>placement_address := off D 0x6000\<rparr>) (off D (4 * i))"
    unfolding both_tables_def using i by (intro with_table_peek_other) (auto simp: sl intro!: oa)
  also have "\<dots> = peek ?v (off D (4 * i))" by (simp add: peek_def)
  also have "\<dots> = peek ((with_dir F D s)\<lparr>placement_address := off D 0x4000\<rparr>) (off D (4 * i))"
    using i by (intro with_table_peek_other) (auto simp: sl intro!: oa)
  also have "\<dots> = 0" using with_dir_laid_out(2) [OF assms(1) lay i(1)] by (simp add: peek_def)
  finally show ?thesis .
qed

section \<open>The run of \<open>paging_tables\<close>\<close>

lemma peek_cong: "(\<And>x. in_range a 4 x \<Longrightarrow> mem t x = mem s x) \<Longrightarrow> peek t a = peek s a"
  unfolding peek_def by (rule load32_cong)

lemma fill_table_keeps:
  fixes s :: "'a kmem"
  assumes "table_off s T" and "\<And>j. a \<le> j \<Longrightarrow> j < b \<Longrightarrow> peek s (page_entry T j) = 0" and "b \<le> 1024"
    and "frame_set s = {..<m}" and "m + (b - a) \<le> frame_count s"
    and "apart p 4 T 0x1000" and "apart p 4 (frames s) (unat (frames_bitmap_size s))"
  shows "peek (fill_table T [a..<b] s) p = peek s p"
proof (rule peek_cong)
  fix x
  assume x: "in_range p 4 x"
  then have "\<not> in_range T 0x1000 x" "\<not> in_range (frames s) (unat (frames_bitmap_size s)) x"
    using assms(6,7) apart_in_range [of _ _ p 4 x] by (auto simp: apart_sym)
  then show "mem (fill_table T [a..<b] s) x = mem s x"
    using fill_table_filled [OF assms(1-5)] by simp
qed

lemma laid_out_empty:
  assumes "laid_out F D m u" and "unat F + 0x200 \<le> 2 ^ 32"
  shows "frame_set u = {}" and "frame_count u = 4096" and "bitmap_ok u"
proof -
  have r: "frames u = F" "frames_bitmap_size u = 0x200" using assms(1) by (simp_all add: laid_out_def)
  then show c: "frame_count u = 4096" and "bitmap_ok u" by (simp_all add: frame_count_def bitmap_ok_def)
  have "\<not> used u k" if "k < 4096" for k
  proof -
    have k: "k div 8 < 0x200" using that by simp
    then have "unat (F + of_nat (k div 8)) = unat F + k div 8"
      using assms(2) by (simp add: unat_word_ariths unat_of_nat_small)
    then have "mem u (F + of_nat (k div 8)) = 0" using assms(1) k by (simp add: laid_out_def)
    then show ?thesis by (simp add: used_def r load8_def)
  qed
  then show "frame_set u = {}" by (auto simp: frame_set_def c)
qed

lemma tables_off_bitmap:
  assumes "laid_out F D m u" and "low_layout F D" and "c \<le> 0x6000"
  shows "table_off u (off D c)"
proof -
  have d: "unat F + 0x200 \<le> unat D" "unat D \<le> 0x3F8000" using assms(2) by (simp_all add: low_layout_def)
  then have "apart F 0x200 (off D c) 0x1000" using assms(3) by (intro apart_unat) (simp_all add: unat_off)
  moreover have "frames u = F" "frames_bitmap_size u = 0x200" using assms(1) by (simp_all add: laid_out_def)
  ultimately show ?thesis by (simp add: table_off_def apart_sym bitmap_ok_def)
qed

lemma directory_off_bitmap:
  assumes "low_layout F D" and "c \<le> 0x6000"
  shows "apart (off D c) 4 F 0x200"
proof -
  have d: "unat F + 0x200 \<le> unat D" "unat D \<le> 0x3F8000" using assms(1) by (simp_all add: low_layout_def)
  then have "apart F 0x200 (off D c) 4" using assms(2) by (intro apart_unat) (simp_all add: unat_off)
  then show ?thesis by (simp add: apart_sym)
qed

lemma slots_as_off:
  "table_slot D 0 = off D 0" "phy_slot D 0 = off D 0x1000" "table_slot D 768 = off D 0xC00"
  "phy_slot D 768 = off D 0x1C00" "dir_phy_slot D = off D 0x2000"
  by (simp_all add: table_slot_def phy_slot_def dir_phy_slot_def off_def)

lemma off_apart_either:
  assumes "a + n \<le> b \<and> b + l \<le> 2 ^ 32 \<or> b + l \<le> a \<and> a + n \<le> 2 ^ 32" and "0 < n" and "0 < l"
  shows "apart (off D a) n (off D b) l"
  using assms off_apart [of a n b l D] off_apart [of b l a n D] by (auto simp: apart_sym)

text \<open>Both loops leave the directory alone.\<close>

lemma kernel_pages_filled:
  assumes "kheap s = None" and lay: "low_layout F D" and "N \<le> 1024"
  defines "t \<equiv> fill_table (off D 0x5000) [0..<N] (both_tables F D s)"
  shows "frame_set t = {..<N}" and "\<And>j. j < N \<Longrightarrow> peek t (page_entry (off D 0x5000) j) = entry_word 0 0 1 (of_nat j)"
    and "\<And>x. unat x < unat F \<or> unat D + 0x6000 \<le> unat x \<Longrightarrow> mem t x = mem s x"
    and "\<And>c. c \<le> 0x2000 \<or> 0x3000 \<le> c \<and> c < 0x4000 \<Longrightarrow> peek t (off D c) = peek (both_tables F D s) (off D c)"
proof -
  let ?u = "both_tables F D s"
  note bt = both_tables_state [OF assms(1) lay]
  have d: "unat F + 0x200 \<le> unat D" "unat D \<le> 0x3F8000" using lay by (simp_all add: low_layout_def)
  have r: "frames ?u = F" "frames_bitmap_size ?u = 0x200" using bt(1) by (simp_all add: laid_out_def)
  have off: "table_off ?u (off D 0x5000)" using tables_off_bitmap [OF bt(1) lay] by simp
  have e: "frame_set ?u = {..<0}" "frame_count ?u = 4096" using laid_out_empty [OF bt(1)] d by simp_all
  have pre: "peek ?u (page_entry (off D 0x5000) j) = 0" if "0 \<le> j" "j < N" for j
    using bt(7) [of j] that assms(3) by simp
  have cnt: "0 + (N - 0) \<le> frame_count ?u" using assms(3) e by simp
  note f = fill_table_filled [OF off pre assms(3) e(1) cnt, folded t_def]
  show "frame_set t = {..<N}" "\<And>j. j < N \<Longrightarrow> peek t (page_entry (off D 0x5000) j) = entry_word 0 0 1 (of_nat j)"
    using f by simp_all
  show "mem t x = mem s x" if "unat x < unat F \<or> unat D + 0x6000 \<le> unat x" for x
  proof -
    have "\<not> in_range (off D 0x5000) 0x1000 x" "\<not> in_range F 0x200 x"
      using that d by (auto simp: in_range_interval unat_off)
    moreover have "mem ?u x = mem s x" using bt(1) that unfolding laid_out_def by blast
    ultimately show ?thesis using f r by simp
  qed
  show "peek t (off D c) = peek ?u (off D c)" if "c \<le> 0x2000 \<or> 0x3000 \<le> c \<and> c < 0x4000" for c
    unfolding t_def
  proof (rule fill_table_keeps [OF off pre assms(3) e(1) cnt])
    show "apart (off D c) 4 (off D 0x5000) 0x1000" using that by (intro off_apart_either) auto
    show "apart (off D c) 4 (frames ?u) (unat (frames_bitmap_size ?u))"
      using directory_off_bitmap [OF lay, of c] that r by auto
  qed
qed


definition built :: "u32 \<Rightarrow> u32 \<Rightarrow> nat \<Rightarrow> 'a kmem \<Rightarrow> 'a kmem" where
  "built F D N s = fill_table (off D 0x3000) [0..<256] (fill_table (off D 0x5000) [0..<N] (both_tables F D s))"

lemma heap_pages_filled:
  assumes "kheap s = None" and lay: "low_layout F D" and "N \<le> 1024"
  defines "v \<equiv> fill_table (off D 0x5000) [0..<N] (both_tables F D s)"
  shows "j \<le> 256 \<Longrightarrow> peek (fill_table (off D 0x3000) [0..<j] v) (off D 0xC00) = off D 0x3000"
    and "frame_set (built F D N s) = {..<N + 256}"
    and "j < 256 \<Longrightarrow> peek (built F D N s) (page_entry (off D 0x3000) j) = entry_word 0 0 1 (of_nat (N + j))"
    and "j < N \<Longrightarrow> peek (built F D N s) (page_entry (off D 0x5000) j) = entry_word 0 0 1 (of_nat j)"
    and "unat x < unat F \<or> unat D + 0x6000 \<le> unat x \<Longrightarrow> mem (built F D N s) x = mem s x"
    and "c \<le> 0x2000 \<Longrightarrow> peek (built F D N s) (off D c) = peek (both_tables F D s) (off D c)"
proof -
  let ?u = "both_tables F D s" and ?H = "off D 0x3000"
  note bt = both_tables_state [OF assms(1) lay] and k = kernel_pages_filled [OF assms(1-3), folded v_def]
  have d: "unat F + 0x200 \<le> unat D" "unat D \<le> 0x3F8000" using lay by (simp_all add: low_layout_def)
  note regs = same_registersD [OF fill_table_registers [of ?u "off D 0x5000" "[0..<N]"], folded v_def]
  have r: "frames v = F" "frames_bitmap_size v = 0x200" using bt(1) regs by (simp_all add: laid_out_def)
  have off: "table_off v ?H"
    using tables_off_bitmap [OF bt(1) lay, of "0x3000"] regs by (simp add: table_off_cong [of v ?u])
  have c: "frame_count v = 4096" using r by (simp add: frame_count_def)
  have pre: "peek v (page_entry ?H i) = 0" if "0 \<le> i" "i < b" "b \<le> 256" for i b
    using bt(8) [of i] k(4) [of "0x3000 + 4 * i"] that by (simp add: off_off)
  have cnt: "N + (b - 0) \<le> frame_count v" "b \<le> 1024" if "b \<le> 256" for b using c assms(3) that by simp_all
  have keep: "peek (fill_table ?H [0..<b] v) (off D c) = peek v (off D c)"
    if "b \<le> 256" "c \<le> 0x2000 \<or> 0x5000 \<le> c \<and> c < 0x6000" for b c
  proof (rule fill_table_keeps [OF off pre [OF _ _ that(1)] cnt(2) [OF that(1)] k(1) cnt(1) [OF that(1)]])
    show "apart (off D c) 4 ?H 0x1000" using that(2) by (intro off_apart_either) auto
    show "apart (off D c) 4 (frames v) (unat (frames_bitmap_size v))"
      using directory_off_bitmap [OF lay, of c] that(2) r by auto
  qed
  show "j \<le> 256 \<Longrightarrow> peek (fill_table ?H [0..<j] v) (off D 0xC00) = ?H"
    using keep [of j "0xC00"] k(4) [of "0xC00"] bt(4) by (simp add: slots_as_off)
  have le: "(256 :: nat) \<le> 256" by simp
  note f = fill_table_filled [OF off pre [OF _ _ le] cnt(2) [OF le] k(1) cnt(1) [OF le]]
  have b: "built F D N s = fill_table ?H [0..<256] v" by (simp add: built_def v_def)
  show "frame_set (built F D N s) = {..<N + 256}"
    "j < 256 \<Longrightarrow> peek (built F D N s) (page_entry ?H j) = entry_word 0 0 1 (of_nat (N + j))"
    unfolding b using f by simp_all
  show "j < N \<Longrightarrow> peek (built F D N s) (page_entry (off D 0x5000) j) = entry_word 0 0 1 (of_nat j)"
    unfolding b using keep [OF le, of "0x5000 + 4 * j"] k(2) [of j] assms(3) by (simp add: off_off)
  show "c \<le> 0x2000 \<Longrightarrow> peek (built F D N s) (off D c) = peek ?u (off D c)"
    unfolding b using keep [OF le, of c] k(4) [of c] by simp
  show "mem (built F D N s) x = mem s x" if "unat x < unat F \<or> unat D + 0x6000 \<le> unat x"
  proof -
    have "\<not> in_range ?H 0x1000 x" "\<not> in_range F 0x200 x"
      using that d by (auto simp: in_range_interval unat_off)
    then show ?thesis unfolding b using f r k(3) [OF that] by simp
  qed
qed

lemma first_tables_made:
  assumes "kheap s = None" and lay: "low_layout F D"
  shows "make_tables n heap_pages (with_dir F D s) =
    Inr (with_table D 768 (off D 0x3000) (off D 0x3000) ((with_dir F D s)\<lparr>placement_address := off D 0x4000\<rparr>))"
proof -
  let ?s = "with_dir F D s" and ?H = "off D 0x3000"
  have d: "unat F + 0x200 \<le> unat D" "unat D \<le> 0x3F8000" "0x1000 dvd unat D" using lay by (simp_all add: low_layout_def)
  note wd = with_dir_laid_out [OF assms]
  have k: "kheap ?s = None" "vm_page_dir ?s = D" using wd(1) by (simp_all add: laid_out_def)
  have "page_up (off D 0x2004) = ?H" using d by (intro page_up_off) simp_all
  then have m: "malloc_ap n 0x1000 ?s = Inr (?H, ?H, ?s\<lparr>placement_address := off D 0x4000\<rparr>)"
    using malloc_before_heap(2) [OF k(1)] wd(3) by (simp add: off_def)
  have i: "KHEAP_START div 0x1000 div 1024 = 768" by (simp add: KHEAP_START_def)
  have z: "peek ?s (table_slot D (KHEAP_START div 0x1000 div 1024)) = 0"
    using wd(2) [of 768] by (simp add: i slots_as_off)
  have ap: "apart D 0x2004 ?H 0x1000" using d by (intro apart_unat) (simp_all add: unat_off)
  have l: "heap_pages = KHEAP_START # List.map (\<lambda>k. KHEAP_START + of_nat k * 0x1000) [1..<256]"
    unfolding heap_pages_eq by (subst upt_conv_Cons) simp_all
  let ?t = "with_table D 768 ?H ?H (?s\<lparr>placement_address := off D 0x4000\<rparr>)"
  have t: "peek ?t (table_slot D 768) = ?H" by (rule with_table_peek(1) [OF ap]) simp
  have dir: "vm_page_dir ?t = D" using k(2) by (simp add: with_table_def)
  have "?H \<noteq> 0" using d unat_off [of D "0x3000"] by auto
  then have "make_tables n (List.map (\<lambda>k. KHEAP_START + of_nat k * 0x1000) [1..<256]) ?t = Inr ?t"
    using make_tables_present [of ?t ?H "[1..<256]" n] t dir by simp
  then show ?thesis
    unfolding l make_tables.simps k(2) using get_page_makes [where mal = "malloc_ap n" and addr = KHEAP_START and c = 1, OF z _ m ap] by (simp add: i)
qed


lemma kernel_loop_runs:
  assumes "kheap s = None" and lay: "low_layout F D" and N: "unat D + 0x6000 = N * 0x1000"
  shows "map_kernel n 0 ((with_table D 768 (off D 0x3000) (off D 0x3000) ((with_dir F D s)\<lparr>placement_address := off D 0x4000\<rparr>))
      \<lparr>placement_address := off D 0x4020\<rparr>) = Some (Inr (fill_table (off D 0x5000) [0..<N] (both_tables F D s)))"
    (is "map_kernel n 0 ?w = _")
proof -
  let ?T = "off D 0x5000" and ?u = "both_tables F D s"
  have d: "unat F + 0x200 \<le> unat D" "unat D \<le> 0x3F8000" "0x1000 dvd unat D" using lay by (simp_all add: low_layout_def)
  have N1: "0 < N" "N \<le> 1024" using N d by simp_all
  note bt = both_tables_state [OF assms(1) lay]
  let ?v = "with_table D 768 (off D 0x3000) (off D 0x3000) ((with_dir F D s)\<lparr>placement_address := off D 0x4000\<rparr>)"
  have lv: "laid_out F D (mem s) ?v"
    by (intro laid_out_with_table with_dir_laid_out assms(1) lay; simp)
  then have w: "kheap ?w = None" "vm_page_dir ?w = D" by (simp_all add: laid_out_def)
  have ap3: "apart D 0x2004 (off D 0x3000) 0x1000" and ap5: "apart D 0x2004 ?T 0x1000"
    using d by (auto intro!: apart_unat simp: unat_off)
  have z: "peek ?w (table_slot D (0 div 0x1000 div 1024)) = 0"
  proof -
    have "peek ?v (off D 0) = peek ((with_dir F D s)\<lparr>placement_address := off D 0x4000\<rparr>) (off D 0)"
      by (rule with_table_peek_other) (simp_all add: slots_as_off off_apart_either)
    then show ?thesis using with_dir_laid_out(2) [OF assms(1,2), of 0] by (simp add: slots_as_off peek_def)
  qed
  have "page_up (off D 0x4020) = ?T" using d by (intro page_up_off) simp_all
  then have m: "malloc_ap n 0x1000 ?w = Inr (?T, ?T, ?v\<lparr>placement_address := off D 0x6000\<rparr>)"
    using malloc_before_heap(2) [OF w(1)] by (simp add: off_def)
  have g: "get_page (malloc_ap n) 0 1 D ?w = Inr (page_slot ?T 0, ?u)"
    using get_page_makes [where mal = "malloc_ap n" and addr = 0 and c = 1, OF z _ m ap5] by (simp add: both_tables_def)
  have nz: "?T \<noteq> 0" using d unat_off [of D "0x5000"] by auto
  have dir: "vm_page_dir ?u = D" using bt(1) by (simp add: laid_out_def)
  have g': "get_page (malloc_ap n) 0 1 D ?u = Inr (page_slot ?T 0, ?u)"
    using get_page_finds [of ?u D 0] bt(3) nz by simp
  have lt: "0 < placement_address ?w" "0 < placement_address ?u"
    using d bt(2) unat_off [of D "0x4020"] unat_off [of D "0x6000"] by (auto simp: word_less_nat_alt)
  have same: "map_kernel n 0 ?w = map_kernel n 0 ?u"
    using lt g g' w(2) dir by (subst (1 2) map_kernel.simps) simp
  have "map_kernel n (of_nat 0 * 0x1000) ?u = Some (Inr (fill_table ?T [0..<N] ?u))"
  proof (rule map_kernel_fills [OF nz _ N1(2)])
    show "unat (placement_address ?u) \<le> N * 0x1000" using bt(2) d N unat_off [of D "0x6000"] by simp
    show "j * 0x1000 < unat (placement_address ?u)" if "j < N" for j
      using that bt(2) d N unat_off [of D "0x6000"] by simp
    show "peek (fill_table ?T [0..<j] ?u) (table_slot (vm_page_dir ?u) 0) = ?T" if "0 \<le> j" "j \<le> N" for j
      using kernel_pages_filled(4) [OF assms(1) lay, of j 0] that N1 bt(3) dir by (simp add: slots_as_off)
  qed simp
  then show ?thesis unfolding same by simp
qed

lemma paging_tables_run:
  assumes k: "kheap s = None" and F: "F = placement_address s" "unat F \<le> 0x3F0000" and D: "D = page_up (F + 0x200)"
    and N: "unat D + 0x6000 = N * 0x1000"
  shows "low_layout F D" and "N \<le> 1024" and "paging_tables n s = Inr (built F D N s)"
proof -
  have "unat (F + 0x200) = unat F + 0x200" using F by (simp add: unat_word_ariths)
  then have "unat F + 0x200 \<le> unat D \<and> unat D < unat F + 0x1200 \<and> 0x1000 dvd unat D"
    using unat_page_up [of "F + 0x200"] F(2) D by simp
  then show lay: "low_layout F D" using F by (auto simp: low_layout_def)
  then show N1: "N \<le> 1024" using N by (simp add: low_layout_def)
  let ?s = "s\<lparr>frames_bitmap_size := 0x200\<rparr>"
  have k1: "kheap ?s = None" using k by simp
  have c: "FRAME_COUNT div 8 = 0x200" by (simp add: FRAME_COUNT_def MEMORY_SIZE_def PAGE_SIZE_def)
  let ?s2 = "fill F 0 0x200 (s\<lparr>frames_bitmap_size := 0x200, placement_address := F + 0x200, frames := F\<rparr>)"
  have k2: "kheap ?s2 = None" "placement_address ?s2 = F + 0x200" using k by simp_all
  let ?v = "with_table D 768 (off D 0x3000) (off D 0x3000) ((with_dir F D s)\<lparr>placement_address := off D 0x4000\<rparr>)"
  have "laid_out F D (mem s) ?v" by (intro laid_out_with_table with_dir_laid_out k lay; simp)
  then have k3: "kheap ?v = None" "placement_address ?v = off D 0x4000"
    by (simp_all add: laid_out_def with_table_def)
  have m3: "malloc_s n 32 ?v = Inr (off D 0x4000, ?v\<lparr>placement_address := off D 0x4020\<rparr>)"
    using malloc_before_heap(1) [OF k3(1)] k3(2) by (simp add: off_def)
  let ?t = "fill_table (off D 0x5000) [0..<N] (both_tables F D s)" and ?H = "off D 0x3000"
  note hp = heap_pages_filled [OF k lay N1]
  have "unat (off D 0x3000) \<noteq> 0" using lay by (simp add: unat_off low_layout_def)
  then have H0: "?H \<noteq> 0" by auto
  have dir: "vm_page_dir ?t = D"
    using same_registersD(6) [OF fill_table_registers [of "both_tables F D s"]] both_tables_state(1) [OF k lay]
    by (simp add: laid_out_def)
  have "map_heap (List.map (\<lambda>k. KHEAP_START + of_nat k * 0x1000) [0..<256]) ?t = Inr (fill_table ?H [0..<256] ?t)"
    using hp(1) dir by (intro map_heap_fills [OF H0]) (simp_all add: slots_as_off)
  then have mh: "map_heap heap_pages ?t = Inr (built F D N s)" by (simp add: heap_pages_eq built_def)
  show "paging_tables n s = Inr (built F D N s)"
    unfolding paging_tables_def Let_def c
    using malloc_before_heap(1) [OF k1, of n "0x200"] malloc_before_heap(2) [OF k2(1), of n "0x2004"] k2(2)
      first_tables_made [OF k lay, of n] m3 kernel_loop_runs [OF k lay N, of n] mh F(1) D
    by (simp add: with_dir_def)
qed


section \<open>What the processor makes of the tables\<close>

text \<open>
  The processor's translation of the address \<open>a\<close> with the directory table at the physical address \<open>cr\<close>:
  two levels of entries whose lowest bit says that they are present. \<open>None\<close> is a page fault.
\<close>

definition mmu :: "'a kmem \<Rightarrow> u32 \<Rightarrow> u32 \<Rightarrow> u32 option" where
  "mmu s cr a =
     (let pde = peek s (cr + 4 * (a div 0x400000)) in
      if valid_of pde = 0 then None
      else let pte = peek s ((pde AND 0xFFFFF000) + 4 * (a div 0x1000 mod 1024)) in
        if valid_of pte = 0 then None else Some (frame_of pte * 0x1000 + a mod 0x1000))"

lemma pde_fields:
  assumes "0x1000 dvd unat T"
  shows "valid_of (T OR 0x7) = 1" and "(T OR 0x7) AND 0xFFFFF000 = T"
proof -
  have low: "\<not> bit T n" if "n < 12" for n
  proof -
    have "T AND 0xFFF = 0" using assms by (simp add: and_FFF_dvd)
    then have "take_bit 12 T = 0" by (simp add: and_FFF)
    then show ?thesis using that by (metis bit_take_bit_iff bit_0_eq bot_apply bot_bool_def)
  qed
  then have hi: "12 \<le> n" if "bit T n" for n using that not_less by blast
  have seven: "(0x7 :: u32) = mask 3" by (simp add: mask_eq_exp_minus_1)
  show "valid_of (T OR 0x7) = 1"
    unfolding seven get_field_def by (rule bit_word_eqI) (auto simp: bit_simps bit_1_iff)
  have c: "(0xFFFFF000 :: u32) = NOT (mask 12)" by code_simp
  show "(T OR 0x7) AND 0xFFFFF000 = T"
    unfolding c seven by (rule bit_word_eqI) (use hi in \<open>force simp: bit_simps\<close>)
qed

lemma mmu_through_table:
  assumes "peek s (cr + 4 * (a div 0x400000)) = T OR 0x7" and "0x1000 dvd unat T"
    and "a div 0x1000 mod 1024 = of_nat j" and "j < 1024"
    and "peek s (page_entry T j) = entry_word 0 0 1 (of_nat k)" and "k < 2 ^ 20"
  shows "mmu s cr a = Some (of_nat k * 0x1000 + a mod 0x1000)"
proof -
  have "T + 4 * (a div 0x1000 mod 1024) = page_entry T j" using assms(3) by (simp add: off_def)
  moreover have "take_bit 20 (of_nat k :: u32) = of_nat k"
    using assms(6) by (intro take_bit_small) (simp add: unat_of_nat_small)
  ultimately show ?thesis
    using assms(1,5) by (simp add: mmu_def Let_def pde_fields [OF assms(2)] entry_word_fields [unfolded One_nat_def]
        pde_fields(1) [OF assms(2), unfolded One_nat_def])
qed

lemma maps_through:
  assumes pd: "peek t cr = K OR 0x7" "peek t (cr + 0xC00) = H OR 0x7" and al: "0x1000 dvd unat K" "0x1000 dvd unat H"
    and low: "\<And>j. j < N \<Longrightarrow> peek t (page_entry K j) = entry_word 0 0 1 (of_nat j)" and N1: "N \<le> 1024"
    and heap: "\<And>j. j < 256 \<Longrightarrow> peek t (page_entry H j) = entry_word 0 0 1 (of_nat (N + j))"
  shows "unat a < N * 0x1000 \<Longrightarrow> mmu t cr a = Some a"
    and "i < 256 \<Longrightarrow> r < 0x1000 \<Longrightarrow> mmu t cr (off KHEAP_START (i * 0x1000 + r)) = Some (off (of_nat (N + i) * 0x1000) r)"
proof -
  show "mmu t cr a = Some a" if a: "unat a < N * 0x1000"
  proof -
    obtain j r where j: "unat a div 0x1000 = j" and r: "unat a mod 0x1000 = r" by blast
    have aj: "unat a = j * 0x1000 + r" using j r by (metis div_mult_mod_eq)
    have "j < N" using a aj by simp
    have j1: "j < 1024" using \<open>j < N\<close> N1 by simp
    have q0: "a div 0x400000 = 0"
      using a N1 by (intro word_unat_eq_iff [THEN iffD2]) (simp add: unat_div)
    have aw: "a div 0x1000 = of_nat j"
      using j j1 by (intro word_unat_eq_iff [THEN iffD2]) (simp add: unat_div unat_of_nat_small)
    have m: "a div 0x1000 mod 1024 = of_nat j"
      unfolding aw using j1 by (intro word_unat_eq_iff [THEN iffD2]) (simp add: unat_mod unat_of_nat_small)
    have "of_nat j * 0x1000 + a mod 0x1000 = a"
      using r j1 aj by (intro word_unat_eq_iff [THEN iffD2]) (simp add: unat_word_ariths unat_mod unat_of_nat_small)
    moreover have "mmu t cr a = Some (of_nat j * 0x1000 + a mod 0x1000)"
      using j1 low [OF \<open>j < N\<close>] by (intro mmu_through_table [OF _ al(1) m]) (simp_all add: q0 pd)
    ultimately show ?thesis by simp
  qed
  show "mmu t cr (off KHEAP_START (i * 0x1000 + r)) = Some (off (of_nat (N + i) * 0x1000) r)" if i: "i < 256" and r: "r < 0x1000"
  proof -
    let ?a = "off KHEAP_START (i * 0x1000 + r)"
    have ua: "unat ?a = (768 * 1024 + i) * 0x1000 + r" using i r by (subst unat_off) (simp_all add: KHEAP_START_def)
    have q: "?a div 0x400000 = 768"
      using i r by (intro word_unat_eq_iff [THEN iffD2]) (simp add: unat_div ua)
    have "unat ?a div 0x1000 = 768 * 1024 + i" unfolding ua using r by simp
    then have "unat ?a div 0x1000 mod 1024 = i" using i by (simp only: mod_mult_self3) simp
    then have m: "?a div 0x1000 mod 1024 = of_nat i"
      using i by (intro word_unat_eq_iff [THEN iffD2]) (simp add: unat_div unat_mod unat_of_nat_small)
    have "unat ?a mod 0x1000 = r" unfolding ua using r by (simp only: mod_mult_self3 mod_less)
    then have o: "?a mod 0x1000 = of_nat r"
      using r by (intro word_unat_eq_iff [THEN iffD2]) (simp add: unat_mod unat_of_nat_small)
    have "mmu t cr ?a = Some (of_nat (N + i) * 0x1000 + ?a mod 0x1000)"
      using i N1 heap [OF i] by (intro mmu_through_table [OF _ al(2) m]) (simp_all add: q pd)
    then show ?thesis unfolding o off_def [of "of_nat (N + i) * 0x1000"] .
  qed
qed

text \<open>
  The tables after \<open>paging_tables\<close>, with the directory at \<open>D\<close>: the table at \<open>D + 0x5000\<close> has the kernel's \<open>N\<close> pages, that
  at \<open>D + 0x3000\<close> the 256 pages of the heap.
\<close>

definition kernel_tables :: "u32 \<Rightarrow> nat \<Rightarrow> 'a kmem \<Rightarrow> bool" where
  "kernel_tables D N t \<longleftrightarrow> unat D + 0x6000 = N * 0x1000 \<and> N \<le> 1024 \<and> 0x1000 dvd unat D
     \<and> vm_page_dir t = D \<and> placement_address t = off D 0x6000
     \<and> peek t (off D 0) = off D 0x5000 \<and> peek t (off D 0xC00) = off D 0x3000
     \<and> peek t (off D 0x1000) = off D 0x5000 OR 0x7 \<and> peek t (off D 0x1C00) = off D 0x3000 OR 0x7
     \<and> peek t (off D 0x2000) = off D 0x1000
     \<and> (\<forall>i < 1024. i \<noteq> 0 \<and> i \<noteq> 768 \<longrightarrow> peek t (off D (4 * i)) = 0)
     \<and> (\<forall>j < N. peek t (page_entry (off D 0x5000) j) = entry_word 0 0 1 (of_nat j))
     \<and> (\<forall>j < 256. peek t (page_entry (off D 0x3000) j) = entry_word 0 0 1 (of_nat (N + j)))"

lemma kernel_tables_map:
  assumes "kernel_tables D N t"
  shows "unat a < N * 0x1000 \<Longrightarrow> mmu t (off D 0x1000) a = Some a"
    and "i < 256 \<Longrightarrow> r < 0x1000 \<Longrightarrow> mmu t (off D 0x1000) (off KHEAP_START (i * 0x1000 + r)) = Some (off (of_nat (N + i) * 0x1000) r)"
proof -
  have k: "unat D + 0x6000 = N * 0x1000" "N \<le> 1024" "0x1000 dvd unat D"
    "peek t (off D 0x1000) = off D 0x5000 OR 0x7" "peek t (off D 0x1C00) = off D 0x3000 OR 0x7"
    using assms by (simp_all add: kernel_tables_def)
  have "off D 0x1000 + 0xC00 = off D 0x1C00" by (simp add: off_def)
  then have k2: "peek t (off D 0x1000 + 0xC00) = off D 0x3000 OR 0x7" using k(5) by simp
  have al: "0x1000 dvd unat (off D 0x5000)" "0x1000 dvd unat (off D 0x3000)" using k by (simp_all add: unat_off)
  note mt = maps_through [OF k(4) k2 al _ k(2)]
  show "unat a < N * 0x1000 \<Longrightarrow> mmu t (off D 0x1000) a = Some a"
    and "i < 256 \<Longrightarrow> r < 0x1000 \<Longrightarrow> mmu t (off D 0x1000) (off KHEAP_START (i * 0x1000 + r)) = Some (off (of_nat (N + i) * 0x1000) r)"
    using mt assms by (simp_all add: kernel_tables_def)
qed

lemma built_registers:
  "phys (built F D N s) = phys s" "cr0 (built F D N s) = cr0 s" "if_flag (built F D N s) = if_flag s"
  "kernel_memory.more (built F D N s) = kernel_memory.more s"
proof -
  have "same_registers (both_tables F D s) (built F D N s)"
    unfolding built_def by (intro same_registers_trans [OF fill_table_registers fill_table_registers])
  note r = same_registersD [OF this]
  show "phys (built F D N s) = phys s" "cr0 (built F D N s) = cr0 s" "if_flag (built F D N s) = if_flag s"
    "kernel_memory.more (built F D N s) = kernel_memory.more s"
    using r(1,9-11) by (simp_all add: both_tables_def with_table_def with_dir_def)
qed

lemma paging_tables_result:
  fixes s :: "'a kmem"
  assumes "kheap s = None" and "placement_address s \<le> 0x3F0000"
  obtains D N t where "paging_tables n s = Inr t" and "kernel_tables D N t" and "placement_address s < D"
    and "frame_set t = {..<N + 256}" and "frame_count t = 4096" and "\<And>x. x < placement_address s \<or> 0x400000 \<le> unat x \<Longrightarrow> mem t x = mem s x"
    and "cr0 t = cr0 s" and "phys t = phys s" and "kernel_memory.more t = kernel_memory.more s" and "frames t = placement_address s"
    and "unat (placement_address s) + 0x200 \<le> unat D"
proof -
  let ?F = "placement_address s" and ?D = "page_up (placement_address s + 0x200)"
  have F: "unat ?F \<le> 0x3F0000" using assms(2) by (simp add: word_le_nat_alt)
  have "0x1000 dvd unat ?D"
    using unat_page_up [of "?F + 0x200"] F by (simp add: unat_word_ariths)
  then have "0x1000 dvd unat ?D + 0x6000" by (rule dvd_add) simp
  then obtain N where N: "unat ?D + 0x6000 = N * 0x1000" by (metis dvd_def mult.commute)
  note run = paging_tables_run [OF assms(1) refl F refl N]
  note hp = heap_pages_filled [OF assms(1) run(1,2)] and bt = both_tables_state [OF assms(1) run(1)]
  let ?t = "built ?F ?D N s"
  have "same_registers (both_tables ?F ?D s) ?t"
    unfolding built_def by (intro same_registers_trans [OF fill_table_registers fill_table_registers])
  from same_registersD [OF this]
  have r: "placement_address ?t = off ?D 0x6000" "vm_page_dir ?t = ?D" "frames_bitmap_size ?t = 0x200" "frames ?t = ?F"
    using bt(1,2) by (simp_all add: laid_out_def)
  show ?thesis
  proof (rule that)
    show "paging_tables n s = Inr ?t" by (rule run(3))
    have "peek ?t (off ?D (4 * i)) = 0" if "i < 1024" "i \<noteq> 0" "i \<noteq> 768" for i
      using hp(6) [of "4 * i"] both_tables_other [OF assms(1) run(1) that] that by simp
    then show "kernel_tables ?D N ?t"
      using run(1,2) N r hp(3,4) hp(6) [of 0] hp(6) [of "0xC00"] hp(6) [of "0x1000"] hp(6) [of "0x1C00"] hp(6) [of "0x2000"] bt(1,3-6)
      by (simp add: kernel_tables_def low_layout_def slots_as_off laid_out_def)
    show "?F < ?D" "unat ?F + 0x200 \<le> unat ?D" using run(1) by (simp_all add: word_less_nat_alt low_layout_def)
    show "frame_set ?t = {..<N + 256}" by (rule hp(2))
    show "frame_count ?t = 4096" by (simp add: frame_count_def r)
    show "mem ?t x = mem s x" if "x < ?F \<or> 0x400000 \<le> unat x" for x
      using hp(5) [of x] that N run(2) by (auto simp: word_less_nat_alt)
  qed (fact built_registers r(4))+
qed

section \<open>Properties\<close>

text \<open>
  \<open>paging_tables\<close>, the part of \<open>init_paging\<close> that runs before paging is switched on, returns
  for every end of the boot modules below 0x3F0000. With the directory it leaves, the processor
  translates every address the kernel has used to itself, so that switching paging on moves nothing;
  it gives the heap's 256 pages the frames after the kernel's, marks exactly these frames as used, and
  leaves the memory below the end of the boot modules as it was.
\<close>

theorem kernel_mapped_to_itself:
  fixes s :: "'a kmem"
  assumes "kheap s = None" and "placement_address s \<le> 0x3F0000"
  shows "\<exists>t N. paging_tables n s = Inr t \<and> placement_address s < placement_address t \<and> unat (placement_address t) = N * 0x1000
    \<and> (\<forall>a. a < placement_address t \<longrightarrow> mmu t (peek t (dir_phy_slot (vm_page_dir t))) a = Some a)
    \<and> (\<forall>i < 256. mmu t (peek t (dir_phy_slot (vm_page_dir t))) (KHEAP_START + of_nat i * 0x1000) = Some (of_nat (N + i) * 0x1000))
    \<and> frame_set t = {..<N + 256} \<and> frame_count t = 4096
    \<and> (\<forall>x. x < placement_address s \<longrightarrow> mem t x = mem s x)"
proof -
  obtain D N t where run: "paging_tables n s = Inr t" and kt: "kernel_tables D N t" and D: "placement_address s < D"
    and frm: "frame_set t = {..<N + 256}" "frame_count t = 4096" and low: "\<And>x. x < placement_address s \<Longrightarrow> mem t x = mem s x"
    using paging_tables_result [OF assms] by metis
  have cr: "vm_page_dir t = D" "peek t (dir_phy_slot D) = off D 0x1000" and p: "placement_address t = off D 0x6000"
    using kt by (simp_all add: kernel_tables_def slots_as_off)
  have up: "unat (off D 0x6000) = N * 0x1000" using kt by (subst unat_off) (simp_all add: kernel_tables_def)
  have "off KHEAP_START (i * 0x1000) = KHEAP_START + of_nat i * 0x1000" for i by (simp add: off_def)
  then have heap: "mmu t (off D 0x1000) (KHEAP_START + of_nat i * 0x1000) = Some (of_nat (N + i) * 0x1000)" if "i < 256" for i
    using kernel_tables_map(2) [OF kt that, of 0] by (simp add: off_0)
  show ?thesis
  proof (intro exI conjI allI impI)
    show "placement_address s < placement_address t"
      using D kt up by (simp add: p word_less_nat_alt kernel_tables_def)
    show "mmu t (peek t (dir_phy_slot (vm_page_dir t))) a = Some a" if "a < placement_address t" for a
      using kernel_tables_map(1) [OF kt] that up by (simp add: cr p word_less_nat_alt)
  qed (use run frm low heap up in \<open>simp_all add: cr p\<close>)
qed

theorem kernel_mapped_to_itself_witness:
  "\<exists>t. paging_tables 0 (small_kernel (\<lambda>_. 0)) = Inr t \<and> mmu t (peek t (dir_phy_slot (vm_page_dir t))) 0x1234 = Some 0x1234"
proof -
  have s: "kheap (small_kernel (\<lambda>_. 0)) = None" "placement_address (small_kernel (\<lambda>_. 0)) \<le> 0x3F0000"
    by (simp_all add: small_kernel_def)
  have p: "0x1234 < placement_address (small_kernel (\<lambda>_. 0))" by (simp add: small_kernel_def)
  show ?thesis
    using kernel_mapped_to_itself [OF s, of 0] p by (meson order.strict_trans)
qed

text \<open>
  \<open>get_page\<close> gives the entry of the address: in the table the directory has, changing nothing;
  without a table, NULL if it may not make one, what the allocator failed with if it fails, and else the
  entry of the new table, which is then in the directory with its physical address, empty, and the
  only thing written besides its two slots.
\<close>

theorem get_page_result:
  fixes s :: "'a kmem" and mal :: "'a ap_allocator" and addr :: u32
  defines "i \<equiv> addr div 0x1000 div 1024" and "j \<equiv> addr div 0x1000 mod 1024"
  shows "(peek s (table_slot dir i) \<noteq> 0 \<longrightarrow> get_page mal addr c dir s = Inr (page_slot (peek s (table_slot dir i)) j, s))
    \<and> (peek s (table_slot dir i) = 0 \<and> c = 0 \<longrightarrow> get_page mal addr c dir s = Inr (0, s))
    \<and> (peek s (table_slot dir i) = 0 \<and> c \<noteq> 0 \<and> mal 0x1000 s = Inl e \<longrightarrow> get_page mal addr c dir s = Inl e)
    \<and> (peek s (table_slot dir i) = 0 \<and> c \<noteq> 0 \<and> mal 0x1000 s = Inr (T, P, u) \<and> apart dir 0x2004 T 0x1000 \<longrightarrow>
        (\<exists>t. get_page mal addr c dir s = Inr (page_slot T j, t) \<and> peek t (table_slot dir i) = T
          \<and> peek t (phy_slot dir i) = P OR 0x7 \<and> (\<forall>k < 1024. peek t (page_entry T k) = 0) \<and> same_registers u t
          \<and> (\<forall>x. \<not> in_range T 0x1000 x \<and> \<not> in_range (table_slot dir i) 4 x \<and> \<not> in_range (phy_slot dir i) 4 x
               \<longrightarrow> mem t x = mem u x)))"
proof (intro conjI impI)
  show "peek s (table_slot dir i) \<noteq> 0 \<Longrightarrow> get_page mal addr c dir s = Inr (page_slot (peek s (table_slot dir i)) j, s)"
    unfolding i_def j_def by (rule get_page_finds)
  show "peek s (table_slot dir i) = 0 \<and> c = 0 \<Longrightarrow> get_page mal addr c dir s = Inr (0, s)"
    "peek s (table_slot dir i) = 0 \<and> c \<noteq> 0 \<and> mal 0x1000 s = Inl e \<Longrightarrow> get_page mal addr c dir s = Inl e"
    by (simp_all add: get_page_def Let_def i_def)
  assume "peek s (table_slot dir i) = 0 \<and> c \<noteq> 0 \<and> mal 0x1000 s = Inr (T, P, u) \<and> apart dir 0x2004 T 0x1000"
  then have h: "peek s (table_slot dir i) = 0" "c \<noteq> 0" "mal 0x1000 s = Inr (T, P, u)" "apart dir 0x2004 T 0x1000" by simp_all
  have i: "unat i < 1024" unfolding i_def by (rule dir_index_less)
  note wt = with_table_peek [OF h(4) i, where P = P and u = u]
  show "\<exists>t. get_page mal addr c dir s = Inr (page_slot T j, t) \<and> peek t (table_slot dir i) = T
          \<and> peek t (phy_slot dir i) = P OR 0x7 \<and> (\<forall>k < 1024. peek t (page_entry T k) = 0) \<and> same_registers u t
          \<and> (\<forall>x. \<not> in_range T 0x1000 x \<and> \<not> in_range (table_slot dir i) 4 x \<and> \<not> in_range (phy_slot dir i) 4 x
               \<longrightarrow> mem t x = mem u x)"
  proof (intro exI conjI)
    show "get_page mal addr c dir s = Inr (page_slot T j, with_table dir i T P u)"
      using h unfolding i_def j_def by (intro get_page_makes)
  qed (use wt with_table_registers in \<open>simp_all\<close>)
qed

theorem get_page_result_witness:
  "\<exists>t. get_page (malloc_ap 0) 0x400123 1 0 (small_kernel (\<lambda>_. 0)) = Inr (page_slot 0x8000 0, t) \<and> peek t (table_slot 0 1) = 0x8000"
proof -
  have i: "(0x400123 :: u32) div 0x1000 div 1024 = 1" "(0x400123 :: u32) div 0x1000 mod 1024 = 0" by simp_all
  have p: "peek (small_kernel (\<lambda>_. 0)) a = 0" for a by (simp add: peek_def small_kernel_def load32_def)
  have m: "malloc_ap 0 0x1000 (small_kernel (\<lambda>_. 0)) = Inr (0x8000, 0x8000, small_kernel (\<lambda>_. 0)\<lparr>placement_address := 0x9000\<rparr>)"
    by (simp add: malloc_before_heap small_kernel_def page_up_def)
  have ap: "apart 0 0x2004 0x8000 0x1000" by (simp add: apart_def)
  show ?thesis
    using get_page_result [of "small_kernel (\<lambda>_. 0)" 0 "0x400123" "malloc_ap 0" 1] p m ap unfolding i by fastforce
qed


end
