(* ===== verification/Cloning.thy ===== *)
theory Cloning
  imports Paging_Correctness
begin

text \<open>
  What a new task gets from \<open>clone_table\<close> and \<open>clone_dir\<close> of \<open>src/src/page.c\<close>: copies of the pages that
  are its own, in frames of their own, and the tables of the kernel themselves. And what
  \<open>free_all_page\<close> does to these shared tables.
\<close>

section \<open>Copying a page of physical memory\<close>

lemma load32_bytes:
  "ucast (load32 m a) = m a" "ucast (drop_bit 8 (load32 m a)) = m (a + 1)"
  "ucast (drop_bit 16 (load32 m a)) = m (a + 2)" "ucast (drop_bit 24 (load32 m a)) = m (a + 3)"
  by (rule bit_word_eqI; auto simp: load32_def bit_simps dest: bit_imp_le_length)+

lemma store32_load32: "store32 m d (load32 m' a) = m(d := m' a, d + 1 := m' (a + 1), d + 2 := m' (a + 2), d + 3 := m' (a + 3))"
  unfolding store32_def load32_bytes ..

lemma store32_load32_at: "i < 4 \<Longrightarrow> store32 m d (load32 m' a) (off d i) = m' (off a i)"
  by (auto simp: store32_load32 off_def numeral_eq_Suc less_Suc_eq)

lemma off_Suc_word: "off (a + 4) i = off a (4 + i)"
  by (simp add: off_def)

lemma in_range_off_iff: "n \<le> 2 ^ 32 \<Longrightarrow> in_range b n x \<longleftrightarrow> (\<exists>i < n. x = off b i)"
proof
  assume n: "n \<le> 2 ^ 32"
  show "\<exists>i < n. x = off b i" if "in_range b n x"
    using that by (intro exI [of _ "unat (x - b)"]) (simp add: in_range_def off_def)
  show "in_range b n x" if "\<exists>i < n. x = off b i"
    using that n by (auto simp: in_range_def off_def unat_of_nat_small)
qed

lemma off_eq_iff: "i < 2 ^ 32 \<Longrightarrow> j < 2 ^ 32 \<Longrightarrow> off b i = off b j \<longleftrightarrow> i = j"
  by (metis add_left_cancel off_def unat_of_nat_small)

lemma copy_words_outside:
  assumes "\<not> in_range dst (4 * n) x" and "4 * n \<le> 2 ^ 32"
  shows "copy_words m src dst n x = m x"
  using assms
proof (induction n arbitrary: m src dst)
  case (Suc n)
  have "\<not> in_range (off dst 4) (4 * n) x \<or> n = 0" "\<not> in_range (off dst 0) 4 x"
    using in_range_off [of dst 4 "4 * n" x "4 * Suc n"] in_range_off [of dst 0 4 x "4 * Suc n"] Suc.prems by auto
  then show ?case
    using Suc.IH [of "dst + 4" "store32 m dst (load32 m src)" "src + 4"] Suc.prems(2)
    by (auto simp: off_def store32_other in_range_def)
qed simp

lemma copy_words_inside:
  assumes "apart src (4 * n) dst (4 * n)" and "i < 4 * n" and "4 * n \<le> 2 ^ 31"
  shows "copy_words m src dst n (off dst i) = m (off src i)"
  using assms
proof (induction n arbitrary: m src dst i)
  case (Suc n)
  let ?m = "store32 m dst (load32 m src)"
  have ap: "apart (off src 4) (4 * n) (off dst 4) (4 * n)" if "0 < n"
    using apart_sub [OF Suc.prems(1), of 4 "4 * n"] apart_sub [of dst "4 * Suc n" "off src 4" "4 * n" 4 "4 * n"]
      Suc.prems(3) that by (simp add: apart_sym)
  have step: "copy_words m src dst (Suc n) = copy_words ?m (off src 4) (off dst 4) n" by (simp add: off_def)
  have n: "4 * n \<le> 2 ^ 32" using Suc.prems(3) by simp
  show ?case
  proof (cases "i < 4")
    case True
    have "\<not> in_range (off dst 4) (4 * n) (off dst i)"
      unfolding in_range_off_iff [OF n] off_off using True Suc.prems(3) by (auto simp: off_eq_iff)
    then show ?thesis
      unfolding step using copy_words_outside n store32_load32_at [OF True] by simp
  next
    case False
    then obtain j where j: "i = 4 + j" "j < 4 * n" using Suc.prems(2) by (metis add_diff_inverse_nat add_less_cancel_left mult_Suc_right)
    have "in_range src (4 * Suc n) (off src i)"
      using Suc.prems(2,3) by (subst in_range_off_iff) auto
    then have "\<not> in_range dst (4 * Suc n) (off src i)" using Suc.prems(1) apart_in_range apart_sym by blast
    then have "\<not> in_range dst 4 (off src i)" using in_range_mono [of dst 4 "off src i" "4 * Suc n"] by auto
    then have keep: "?m (off src i) = m (off src i)" by (rule store32_other)
    have "copy_words ?m (off src 4) (off dst 4) n (off (off dst 4) j) = ?m (off (off src 4) j)"
      using Suc.IH [OF ap j(2)] j Suc.prems(3) by simp
    then show ?thesis unfolding step using keep by (simp add: off_off j(1))
  qed
qed simp

text \<open>The contents of a frame, and what \<open>copy_page_phy\<close> does to the frames.\<close>

definition phys_page :: "'a kmem \<Rightarrow> nat \<Rightarrow> nat \<Rightarrow> u8" where
  "phys_page s k i = phys s (off (of_nat k * 0x1000) i)"

lemma frames_apart:
  assumes "k < 2 ^ 20" and "l < 2 ^ 20" and "k \<noteq> l"
  shows "apart (of_nat k * 0x1000) 0x1000 (of_nat l * 0x1000) 0x1000"
proof -
  have u: "unat (of_nat j * 0x1000 :: u32) = j * 0x1000" if "j < 2 ^ 20" for j
    using that by (simp add: unat_word_ariths unat_of_nat_small)
  have *: "apart (of_nat a * 0x1000) 0x1000 (of_nat b * 0x1000) 0x1000" if "a < b" "b < 2 ^ 20" for a b
  proof (rule apart_unat)
    show "unat (of_nat a * 0x1000 :: u32) + 0x1000 \<le> unat (of_nat b * 0x1000 :: u32)"
      using that u [of a] u [of b] by simp
    show "unat (of_nat b * 0x1000 :: u32) + 0x1000 \<le> 2 ^ 32" using that u [of b] by simp
  qed simp
  from assms show ?thesis using * [of k l] * [of l k] by (cases "k < l") (auto simp: apart_sym)
qed

lemma copy_page_frames:
  fixes s :: "'a kmem"
  assumes "f < 2 ^ 20" and "k < 2 ^ 20" and "f \<noteq> k"
  defines "t \<equiv> copy_page_phy (of_nat f * 0x1000) (of_nat k * 0x1000) s"
  shows "i < 0x1000 \<Longrightarrow> phys_page t k i = phys_page s f i"
    and "l < 2 ^ 20 \<Longrightarrow> l \<noteq> k \<Longrightarrow> i < 0x1000 \<Longrightarrow> phys_page t l i = phys_page s l i"
proof -
  have n: "(4 :: nat) * 1024 = 0x1000" by simp
  show "i < 0x1000 \<Longrightarrow> phys_page t k i = phys_page s f i"
    using copy_words_inside [of "of_nat f * 0x1000" 1024 "of_nat k * 0x1000" i "phys s"] frames_apart [OF assms(1-3)]
    by (simp add: t_def copy_page_phy_def phys_page_def)
  show "phys_page t l i = phys_page s l i" if "l < 2 ^ 20" "l \<noteq> k" "i < 0x1000"
  proof -
    have "in_range (of_nat l * 0x1000) 0x1000 (off (of_nat l * 0x1000) i)"
      using that by (subst in_range_off_iff) auto
    then have "\<not> in_range (of_nat k * 0x1000) 0x1000 (off (of_nat l * 0x1000) i)"
      using frames_apart [OF assms(2) that(1)] that(2) apart_in_range by blast
    then show ?thesis
      using copy_words_outside [of "of_nat k * 0x1000" 1024] by (simp add: t_def copy_page_phy_def phys_page_def)
  qed
qed


section \<open>Copying one entry\<close>

text \<open>The word of the copied entry, from the word of the source and the word \<open>alloc_frame\<close> has stored.\<close>

definition clone_word :: "u32 \<Rightarrow> u32 \<Rightarrow> u32" where
  "clone_word pw w =
     (let w = (if valid_of pw \<noteq> 0 then put_field 0 1 1 w else w);
          w = (if rw_of pw \<noteq> 0 then put_field 1 1 1 w else w);
          w = (if user_of pw \<noteq> 0 then put_field 2 1 1 w else w);
          w = (if accessed_of pw \<noteq> 0 then put_field 3 1 1 w else w)
      in if dirty_of pw \<noteq> 0 then put_field 4 1 1 w else w)"

lemma poke_peek: "poke a (peek s a) s = s"
proof -
  have "store32 (mem s) a (load32 (mem s) a) = mem s" by (simp add: store32_load32)
  then show ?thesis by (simp add: poke_def peek_def)
qed

lemma if_poke: "(if b then poke a v s else s) = poke a (if b then v else peek s a) s"
  by (simp add: poke_peek)

lemma bit_field_01: "get_field lo 1 w \<noteq> 0 \<Longrightarrow> get_field lo 1 w = 1"
  by (auto simp: get_field_def take_bit_Suc split: if_splits)

lemma clone_word_fields:
  assumes "valid_of w = 1" and "rw_of w = 0" and "user_of w = 1" and "accessed_of w = 0" and "dirty_of w = 0"
  shows "frame_of (clone_word pw w) = frame_of w" and "valid_of (clone_word pw w) = 1"
    and "rw_of (clone_word pw w) = rw_of pw" and "user_of (clone_word pw w) = 1"
    and "accessed_of (clone_word pw w) = accessed_of pw" and "dirty_of (clone_word pw w) = dirty_of pw"
  using assms bit_field_01 [of 1 pw] bit_field_01 [of 3 pw] bit_field_01 [of 4 pw]
  by (auto simp: clone_word_def Let_def get_put_same get_put_other)

lemma clone_entry_eq:
  fixes s :: "'a kmem"
  assumes "frame_of (peek s p) \<noteq> 0" and "p = page_slot src i" and "q = page_slot table i" and "entries_apart q p"
    and "peek (alloc_frame q 0 0 s) p = peek s p"
  defines "a \<equiv> alloc_frame q 0 0 s"
  shows "clone_entry src table i s = copy_page_phy (frame_of (peek s p) * 0x1000)
    (frame_of (clone_word (peek s p) (peek a q)) * 0x1000) (poke q (clone_word (peek s p) (peek a q)) a)"
proof -
  have pq: "peek (poke q v t) p = peek t p" for v and t :: "'a kmem"
    using assms(4) by (simp add: kernel.rd_wr_apart entries_apart_def del: poke_frame)
  have pa: "peek a p = peek s p" using assms(5) by (simp add: a_def)
  show ?thesis
    using assms(1)
    by (simp add: clone_entry_def Let_def assms(2) [symmetric] assms(3) [symmetric] a_def [symmetric]
      set_valid_def set_rw_def set_user_def set_accessed_def set_dirty_def if_poke pq pa peek_poke_same poke_poke
      clone_word_def poke_peek del: poke_frame)
qed


lemma frame_set_less: "bitmap_ok s \<Longrightarrow> l \<in> frame_set s \<Longrightarrow> l < 2 ^ 20"
  using bitmap_ok_count [of s] by (simp add: frame_set_def)

lemma frame_set_poke:
  assumes "entry_ok s q"
  shows "frame_set (poke q v s) = frame_set s"
proof -
  have "frame_count (poke q v s) = frame_count s" by (simp add: frame_count_def)
  then show ?thesis using used_poke [of s q _ v] assms by (auto simp: frame_set_def entry_ok_def)
qed

lemma copy_page_simps [simp]:
  "mem (copy_page_phy a b s) = mem s" "peek (copy_page_phy a b s) = peek s"
  "frames (copy_page_phy a b s) = frames s" "frames_bitmap_size (copy_page_phy a b s) = frames_bitmap_size s"
  "frame_set (copy_page_phy a b s) = frame_set s" "frame_count (copy_page_phy a b s) = frame_count s"
  by (simp_all add: copy_page_phy_def peek_def fun_eq_iff frame_set_def frame_count_def used_def)

lemma get_field_0: "get_field lo n 0 = 0"
  by (simp add: get_field_def)

lemma fresh_entry_fields:
  "valid_of (entry_word 0 0 0 f) = 1" "rw_of (entry_word 0 0 0 f) = 0" "user_of (entry_word 0 0 0 f) = 1"
  "accessed_of (entry_word 0 0 0 f) = 0" "dirty_of (entry_word 0 0 0 f) = 0"
  by (simp_all add: entry_word_fields get_field_0 del: One_nat_def)

lemma fresh_entry_frame: "k < 2 ^ 20 \<Longrightarrow> frame_of (entry_word 0 0 0 (of_nat k)) = of_nat k"
  by (simp add: entry_word_fields take_bit_small unat_of_nat_small)

lemma clone_entry_effect:
  fixes s :: "'a kmem"
  assumes "entry_ok s q" and "entry_ok s p" and "p = page_slot src i" and "q = page_slot table i"
    and ap: "entries_apart q p" and z: "peek s q = 0" and f: "entry_frame s p \<noteq> 0" "entry_frame s p \<in> frame_set s"
    and lf: "lowest_free s = Some k"
  defines "t \<equiv> clone_entry src table i s"
  shows "peek t q = clone_word (peek s p) (entry_word 0 0 0 (of_nat k))" and "entry_frame t q = k"
    and "entry_ok s x \<Longrightarrow> entries_apart q x \<Longrightarrow> peek t x = peek s x"
    and "frame_set t = insert k (frame_set s)"
    and "b < 0x1000 \<Longrightarrow> phys_page t k b = phys_page s (entry_frame s p) b"
    and "l \<in> frame_set s \<Longrightarrow> b < 0x1000 \<Longrightarrow> phys_page t l b = phys_page s l b"
    and "frames t = frames s" and "frames_bitmap_size t = frames_bitmap_size s"
proof -
  let ?a = "alloc_frame q 0 0 s" and ?w = "clone_word (peek s p) (entry_word 0 0 0 (of_nat k))"
  have ok: "bitmap_ok s" using assms(1) by (simp add: entry_ok_def)
  have e0: "entry_frame s q = 0" by (simp add: entry_frame_def z get_field_def)
  note af = alloc_frame_used [OF assms(1) e0 lf, where i = 0 and w = 0]
  have aq: "peek ?a q = entry_word 0 0 0 (of_nat k)" using af(2) z by simp
  have ap': "peek ?a p = peek s p" using af(4) [OF assms(2) ap] .
  have k: "k < 2 ^ 20" "k \<notin> frame_set s"
    using lf bitmap_ok_count [OF ok] by (auto simp: lowest_free_Some frame_set_def)
  have l20: "l < 2 ^ 20" if "l \<in> frame_set s" for l using frame_set_less [OF ok that] .
  have fields: "frame_of ?w = of_nat k"
    using clone_word_fields(1) [OF fresh_entry_fields, of "peek s p" "of_nat k"] k(1)
    by (simp add: fresh_entry_frame)
  have fw: "frame_of (peek s p) = of_nat (entry_frame s p)" by (simp add: entry_frame_def)
  have "frame_of (peek s p) \<noteq> 0" using f(1) by (simp add: entry_frame_0)
  then have t: "t = copy_page_phy (of_nat (entry_frame s p) * 0x1000) (of_nat k * 0x1000) (poke q ?w ?a)"
    using clone_entry_eq [OF _ assms(3,4) ap ap'] fields unfolding t_def aq fw by simp
  show "peek t q = ?w" by (simp add: t peek_poke_same del: poke_frame)
  then show "entry_frame t q = k" using k(1) by (simp add: entry_frame_def fields unat_of_nat_small)
  show "peek t x = peek s x" if "entry_ok s x" "entries_apart q x"
    using af(4) [OF that] kernel.rd_wr_apart [of q x ?w ?a] that(2) by (simp add: t entries_apart_def del: poke_frame)
  show "frame_set t = insert k (frame_set s)"
    using af(1) frame_set_poke [of ?a q ?w] assms(1) by (simp add: t)
  have ph: "phys_page (poke q ?w ?a) l b = phys_page s l b" for l b by (simp add: phys_page_def)
  note cp = copy_page_frames [OF l20 [OF f(2)] k(1), where s = "poke q ?w ?a", folded t]
  show "b < 0x1000 \<Longrightarrow> phys_page t k b = phys_page s (entry_frame s p) b"
    using cp(1) f(2) k(2) ph by metis
  show "l \<in> frame_set s \<Longrightarrow> b < 0x1000 \<Longrightarrow> phys_page t l b = phys_page s l b"
    using cp(2) [of l b] f(2) k(2) ph l20 by metis
  show "frames t = frames s" "frames_bitmap_size t = frames_bitmap_size s" by (simp_all add: t)
qed


section \<open>Copying a table\<close>

text \<open>
  \<open>copied src table K s t\<close>: from \<open>s\<close> to \<open>t\<close> the entries \<open>K\<close> of the table at \<open>src\<close> were copied to the
  table at \<open>table\<close>, and no page in use was written.
\<close>

definition copied_entry :: "u32 \<Rightarrow> u32 \<Rightarrow> nat \<Rightarrow> 'a kmem \<Rightarrow> 'a kmem \<Rightarrow> bool" where
  "copied_entry src table i s t \<longleftrightarrow>
     (let p = peek s (page_entry src i); q = peek t (page_entry table i);
          f = entry_frame s (page_entry src i); k = entry_frame t (page_entry table i)
      in if f = 0 then q = 0
         else k \<notin> frame_set s \<and> k \<in> frame_set t \<and> (\<forall>b < 0x1000. phys_page t k b = phys_page s f b)
           \<and> valid_of q = 1 \<and> user_of q = 1 \<and> rw_of q = rw_of p \<and> accessed_of q = accessed_of p
           \<and> dirty_of q = dirty_of p)"

definition copied :: "u32 \<Rightarrow> u32 \<Rightarrow> nat set \<Rightarrow> 'a kmem \<Rightarrow> 'a kmem \<Rightarrow> bool" where
  "copied src table K s t \<longleftrightarrow>
     (\<forall>i < 1024. peek t (page_entry src i) = peek s (page_entry src i))
     \<and> (\<forall>i < 1024. i \<notin> K \<longrightarrow> peek t (page_entry table i) = peek s (page_entry table i))
     \<and> (\<forall>i \<in> K. copied_entry src table i s t)
     \<and> inj_on (\<lambda>i. entry_frame t (page_entry table i)) {i \<in> K. entry_frame s (page_entry src i) \<noteq> 0}
     \<and> frame_set s \<subseteq> frame_set t
     \<and> (\<forall>l \<in> frame_set s. \<forall>b < 0x1000. phys_page t l b = phys_page s l b)"

lemma copied_empty: "copied src table {} s s"
  by (simp add: copied_def)

lemma copied_skip:
  assumes "copied src table K s t" and "i \<notin> K" and "i < 1024" and "entry_frame s (page_entry src i) = 0"
    and "peek s (page_entry table i) = 0"
  shows "copied src table (insert i K) s t"
proof -
  have "{j \<in> insert i K. entry_frame s (page_entry src j) \<noteq> 0} = {j \<in> K. entry_frame s (page_entry src j) \<noteq> 0}"
    using assms(4) by auto
  moreover have "copied_entry src table i s t"
    using assms by (simp add: copied_def copied_entry_def)
  ultimately show ?thesis using assms(1) by (simp add: copied_def)
qed


lemma copied_step:
  fixes s u t :: "'a kmem"
  assumes c: "copied src table K u t" and i: "i \<notin> K" "i < 1024" "K \<subseteq> {..<1024}"
    and f: "entry_frame s (page_entry src i) \<noteq> 0"
    and k: "k \<notin> frame_set s" "frame_set u = insert k (frame_set s)" "entry_frame u (page_entry table i) = k"
    and w: "peek u (page_entry table i) = clone_word (peek s (page_entry src i)) (entry_word 0 0 0 (of_nat k))"
    and p: "\<And>j. j < 1024 \<Longrightarrow> peek u (page_entry src j) = peek s (page_entry src j)"
    and q: "\<And>j. j < 1024 \<Longrightarrow> j \<noteq> i \<Longrightarrow> peek u (page_entry table j) = peek s (page_entry table j)"
    and new: "\<And>b. b < 0x1000 \<Longrightarrow> phys_page u k b = phys_page s (entry_frame s (page_entry src i)) b"
    and old: "\<And>l b. l \<in> frame_set s \<Longrightarrow> b < 0x1000 \<Longrightarrow> phys_page u l b = phys_page s l b"
    and used: "\<And>j. j \<in> K \<Longrightarrow> entry_frame s (page_entry src j) \<noteq> 0 \<Longrightarrow> entry_frame s (page_entry src j) \<in> frame_set s"
  shows "copied src table (insert i K) s t"
proof -
  have c1: "\<And>j. j < 1024 \<Longrightarrow> peek t (page_entry src j) = peek u (page_entry src j)"
    and c2: "\<And>j. j < 1024 \<Longrightarrow> j \<notin> K \<Longrightarrow> peek t (page_entry table j) = peek u (page_entry table j)"
    and c3: "\<And>j. j \<in> K \<Longrightarrow> copied_entry src table j u t"
    and c4: "inj_on (\<lambda>i. entry_frame t (page_entry table i)) {i \<in> K. entry_frame u (page_entry src i) \<noteq> 0}"
    and c5: "frame_set u \<subseteq> frame_set t"
    and c6: "\<And>l b. l \<in> frame_set u \<Longrightarrow> b < 0x1000 \<Longrightarrow> phys_page t l b = phys_page u l b"
    using c unfolding copied_def by blast+
  have fe: "entry_frame u (page_entry src j) = entry_frame s (page_entry src j)" if "j < 1024" for j
    using p [OF that] by (simp add: entry_frame_def)
  have ti: "peek t (page_entry table i) = peek u (page_entry table i)" using c2 i by simp
  then have tk: "entry_frame t (page_entry table i) = k" using k(3) by (simp add: entry_frame_def)
  have ei: "copied_entry src table i s t"
  proof -
    have "k \<in> frame_set u" "k \<in> frame_set t" using k(2) c5 by auto
    then have "phys_page t k b = phys_page s (entry_frame s (page_entry src i)) b" if "b < 0x1000" for b
      using c6 new that by simp
    then show ?thesis
      using f k(1) \<open>k \<in> frame_set t\<close> tk
      by (simp add: copied_entry_def Let_def ti w clone_word_fields [OF fresh_entry_fields, unfolded One_nat_def])
  qed
  have ej: "copied_entry src table j s t" if "j \<in> K" for j
  proof -
    have j: "j < 1024" using that i(3) by auto
    show ?thesis
    proof (cases "entry_frame s (page_entry src j) = 0")
      case True
      then show ?thesis using c3 [OF that] fe [OF j] by (simp add: copied_entry_def)
    next
      case False
      then have "phys_page u (entry_frame s (page_entry src j)) b = phys_page s (entry_frame s (page_entry src j)) b"
        if "b < 0x1000" for b
        using used [OF \<open>j \<in> K\<close>] old that by simp
      then show ?thesis
        using c3 [OF that] fe [OF j] p [OF j] k(2) False by (auto simp: copied_entry_def Let_def)
    qed
  qed
  have notk: "entry_frame t (page_entry table j) \<noteq> k" if "j \<in> K" "entry_frame s (page_entry src j) \<noteq> 0" for j
  proof -
    have "j < 1024" using that(1) i(3) by auto
    then show ?thesis using c3 [OF that(1)] that(2) fe [of j] k(2) by (auto simp: copied_entry_def Let_def)
  qed
  have nk: "entry_frame t (page_entry table j) \<noteq> k" if "j \<in> {j \<in> K. entry_frame u (page_entry src j) \<noteq> 0}" for j
  proof -
    from that have j: "j \<in> K" "entry_frame u (page_entry src j) \<noteq> 0" by simp_all
    then show ?thesis using notk [of j] fe [of j] i(3) by auto
  qed
  have "{j \<in> insert i K. entry_frame s (page_entry src j) \<noteq> 0} = insert i {j \<in> K. entry_frame u (page_entry src j) \<noteq> 0}"
    using f fe i(3) by auto
  moreover have "inj_on (\<lambda>i. entry_frame t (page_entry table i)) (insert i {j \<in> K. entry_frame u (page_entry src j) \<noteq> 0})"
    unfolding inj_on_insert tk using c4 nk by blast
  ultimately have inj: "inj_on (\<lambda>i. entry_frame t (page_entry table i))
      {j \<in> insert i K. entry_frame s (page_entry src j) \<noteq> 0}" by simp
  show ?thesis
    unfolding copied_def
  proof (intro conjI allI impI ballI)
    show "peek t (page_entry src j) = peek s (page_entry src j)" if "j < 1024" for j using c1 p that by simp
    show "peek t (page_entry table j) = peek s (page_entry table j)" if "j < 1024" "j \<notin> insert i K" for j
      using c2 q that by simp
    show "copied_entry src table j s t" if "j \<in> insert i K" for j using ei ej that by auto
    show "frame_set s \<subseteq> frame_set t" using c5 k(2) by auto
    show "phys_page t l b = phys_page s l b" if "l \<in> frame_set s" "b < 0x1000" for l b
      using c6 old that k(2) by simp
  qed (rule inj)
qed

lemma indices_eq: "indices = List.map of_nat [0..<1024]"
  by (rule indices_def)

lemma clone_entries:
  fixes s :: "'a kmem"
  assumes "table_off s src" and "table_off s table" and "apart table 0x1000 src 0x1000"
    and "distinct ks" and "set ks \<subseteq> {..<1024}"
    and "\<And>i. i \<in> set ks \<Longrightarrow> peek s (page_entry table i) = 0"
    and "\<And>i. i \<in> set ks \<Longrightarrow> entry_frame s (page_entry src i) \<noteq> 0 \<Longrightarrow> entry_frame s (page_entry src i) \<in> frame_set s"
    and "card (frame_set s) + length [i \<leftarrow> ks. entry_frame s (page_entry src i) \<noteq> 0] \<le> frame_count s"
  shows "copied src table (set ks) s (fold (clone_entry src table) (List.map of_nat ks) s)"
  using assms
proof (induction ks arbitrary: s)
  case Nil
  then show ?case by (simp add: copied_empty)
next
  case (Cons i ks)
  have i: "i < 1024" "i \<notin> set ks" "set ks \<subseteq> {..<1024}" "distinct ks" using Cons.prems(4,5) by auto
  let ?p = "page_entry src i" and ?q = "page_entry table i"
  show ?case
  proof (cases "entry_frame s ?p = 0")
    case True
    then have "clone_entry src table (of_nat i) s = s"
      using i(1) by (simp add: clone_entry_def Let_def slot_of_nat entry_frame_0)
    moreover have "copied src table (set ks) s (fold (clone_entry src table) (List.map of_nat ks) s)"
      using Cons.prems True i by (intro Cons.IH) auto
    ultimately show ?thesis
      using copied_skip [OF _ i(2,1) True] Cons.prems(6) [of i] by simp
  next
    case False
    have okp: "entry_ok s (page_entry src j)" "entry_ok s (page_entry table j)" if "j < 1024" for j
      using table_off_entry [OF Cons.prems(1) that] table_off_entry [OF Cons.prems(2) that] by simp_all
    have pq: "entries_apart ?q (page_entry src j)" if "j < 1024" for j
      using apart_sub [of table "0x1000" src "0x1000" "4 * i" 4] apart_sub [of src "0x1000" ?q 4 "4 * j" 4]
        Cons.prems(3) i(1) that by (simp add: entries_apart_def apart_sym)
    have "card (frame_set s) < card {..<frame_count s}" using Cons.prems(8) False by simp
    then have "lowest_free s \<noteq> None"
      unfolding frame_set_full by (metis Diff_eq_empty_iff card_mono finite_Collect_conjI finite_Collect_less_nat frame_set_def linorder_not_less)
    then obtain k where lf: "lowest_free s = Some k" by auto
    then have k: "k \<notin> frame_set s" by (simp add: lowest_free_Some frame_set_def)
    have zi: "peek s ?q = 0" and ui: "entry_frame s ?p \<in> frame_set s"
      using Cons.prems(6) [of i] Cons.prems(7) [of i] False by simp_all
    let ?u = "clone_entry src table (of_nat i) s"
    note ce = clone_entry_effect [OF okp(2) [OF i(1)] okp(1) [OF i(1)] slot_of_nat [OF i(1), symmetric]
        slot_of_nat [OF i(1), symmetric] pq [OF i(1)] zi False ui lf]
    have p: "peek ?u (page_entry src j) = peek s (page_entry src j)" if "j < 1024" for j
      using ce(3) [OF okp(1) [OF that] pq [OF that]] .
    have q: "peek ?u (page_entry table j) = peek s (page_entry table j)" if "j < 1024" "j \<noteq> i" for j
      using ce(3) [OF okp(2) [OF that(1)]] page_entries_apart [OF i(1) that(1)] that(2) by auto
    have fe: "entry_frame ?u (page_entry src j) = entry_frame s (page_entry src j)" if "j < 1024" for j
      using p [OF that] by (simp add: entry_frame_def)
    have "copied src table (set ks) ?u (fold (clone_entry src table) (List.map of_nat ks) ?u)"
    proof (rule Cons.IH)
      show "table_off ?u src" "table_off ?u table"
        using Cons.prems(1,2) ce(7,8) by (simp_all add: table_off_cong [of ?u s])
      show "peek ?u (page_entry table j) = 0" if "j \<in> set ks" for j
        using q [of j] Cons.prems(5,6) that i(2) by auto
      show "entry_frame ?u (page_entry src j) \<in> frame_set ?u"
        if "j \<in> set ks" "entry_frame ?u (page_entry src j) \<noteq> 0" for j
        using Cons.prems(5,7) fe [of j] that ce(4) by auto
      have "[j \<leftarrow> ks. entry_frame ?u (page_entry src j) \<noteq> 0] = [j \<leftarrow> ks. entry_frame s (page_entry src j) \<noteq> 0]"
        using fe i(3) by (intro filter_cong) auto
      moreover have "card (frame_set ?u) = Suc (card (frame_set s))"
        unfolding ce(4) using k by (intro card_insert_disjoint) (simp_all add: frame_set_def)
      moreover have "frame_count ?u = frame_count s" by (simp add: frame_count_def ce(8))
      ultimately show "card (frame_set ?u) + length [j \<leftarrow> ks. entry_frame ?u (page_entry src j) \<noteq> 0] \<le> frame_count ?u"
        using Cons.prems(8) False by simp
    qed (use Cons.prems(3) i in auto)
    then have "copied src table (insert i (set ks)) s (fold (clone_entry src table) (List.map of_nat ks) ?u)"
      by (rule copied_step [OF _ i(2,1,3) False k ce(4,2,1) p q ce(5,6)]) (use Cons.prems(7) in auto)
    then show ?thesis by simp
  qed
qed


lemma fill_other_mem: "unat n < 2 ^ 31 \<Longrightarrow> \<not> in_range a (unat n) x \<Longrightarrow> mem (fill a 0 n s) x = mem s x"
  by (simp add: fill_mem)

lemma table_fill_apart:
  fixes u :: "'a kmem"
  assumes "table_off u table" and "apart table 0x1000 src 0x1000"
  shows "i < 1024 \<Longrightarrow> peek (fill table 0 0x1000 u) (page_entry src i) = peek u (page_entry src i)"
    and "i < 1024 \<Longrightarrow> peek (fill table 0 0x1000 u) (page_entry table i) = 0"
    and "frame_set (fill table 0 0x1000 u) = frame_set u" and "frame_count (fill table 0 0x1000 u) = frame_count u"
    and "table_off (fill table 0 0x1000 u) T = table_off u T" and "phys_page (fill table 0 0x1000 u) = phys_page u"
proof -
  show "peek (fill table 0 0x1000 u) (page_entry src i) = peek u (page_entry src i)" if "i < 1024"
    using apart_sub [of src "0x1000" table "0x1000" "4 * i" 4] assms(2) that by (intro peek_fill_out) (simp add: apart_sym)
  show "peek (fill table 0 0x1000 u) (page_entry table i) = 0" if "i < 1024"
    using that by (intro peek_fill_in) simp_all
  show c: "frame_count (fill table 0 0x1000 u) = frame_count u" by (simp add: frame_count_def)
  have "used (fill table 0 0x1000 u) k \<longleftrightarrow> used u k" if "k < frame_count u" for k
  proof (rule used_cong [OF _ _ that])
    fix i
    assume i: "i < unat (frames_bitmap_size u)"
    then have "in_range (frames u) (unat (frames_bitmap_size u)) (frames u + of_nat i)"
      using unat_u32_lt [of "frames_bitmap_size u"] by (simp add: in_range_def unat_of_nat_small)
    then have "\<not> in_range table 0x1000 (frames u + of_nat i)"
      using assms(1) apart_in_range unfolding table_off_def by blast
    then show "mem (fill table 0 0x1000 u) (frames u + of_nat i) = mem u (frames u + of_nat i)"
      by (simp add: fill_mem)
  qed simp
  then show "frame_set (fill table 0 0x1000 u) = frame_set u" using c by (auto simp: frame_set_def)
  show "table_off (fill table 0 0x1000 u) T = table_off u T" by (intro table_off_cong) simp_all
  show "phys_page (fill table 0 0x1000 u) = phys_page u" by (simp add: phys_page_def fun_eq_iff)
qed

lemma copied_cong:
  assumes "copied src table {..<1024} u t"
    and "\<And>i. i < 1024 \<Longrightarrow> peek u (page_entry src i) = peek s (page_entry src i)"
    and "frame_set u = frame_set s" and "phys_page u = phys_page s"
  shows "copied src table {..<1024} s t"
proof -
  have fe: "entry_frame u (page_entry src i) = entry_frame s (page_entry src i)" if "i < 1024" for i
    using assms(2) [OF that] by (simp add: entry_frame_def)
  have "{i \<in> {..<1024}. entry_frame u (page_entry src i) \<noteq> 0} = {i \<in> {..<1024}. entry_frame s (page_entry src i) \<noteq> 0}"
    using fe by auto
  moreover have "copied_entry src table i u t = copied_entry src table i s t" if "i < 1024" for i
    using fe [OF that] assms(2) [OF that] assms(3,4) by (simp add: copied_entry_def)
  ultimately show ?thesis using assms by (auto simp: copied_def)
qed

section \<open>Properties\<close>

text \<open>
  Property C8. \<open>clone_table\<close>, given the room, copies every page of the table: each entry with a frame gets
  a frame of its own that was free, holding the same bytes, writable, accessed and dirty as the source's entry is, and
  present and open to user mode whatever the source's entry is; the entries without a frame stay empty. The source table and every page in
  use keep their contents, so that neither task sees what the other writes.
\<close>

theorem clone_table_copies:
  fixes s u :: "'a kmem"
  assumes "malloc_ap n 0x1000 s = Inr (table, phy, u)"
    and "table_off u src" and "table_off u table" and "apart table 0x1000 src 0x1000"
    and "\<forall>i < 1024. entry_frame u (page_entry src i) \<noteq> 0 \<longrightarrow> entry_frame u (page_entry src i) \<in> frame_set u"
    and "card (frame_set u) + length [i \<leftarrow> [0..<1024]. entry_frame u (page_entry src i) \<noteq> 0] \<le> frame_count u"
  shows "\<exists>t. clone_table n src s = Inr (table, phy, t) \<and> copied src table {..<1024} u t"
proof (intro exI conjI)
  let ?v = "fill table 0 0x1000 u"
  let ?t = "fold (clone_entry src table) indices ?v"
  show "clone_table n src s = Inr (table, phy, ?t)" using assms(1) by (simp add: clone_table_def)
  note tf = table_fill_apart [OF assms(3,4)]
  have fe: "entry_frame ?v (page_entry src i) = entry_frame u (page_entry src i)" if "i < 1024" for i
    using tf(1) [OF that] by (simp add: entry_frame_def)
  have "copied src table (set [0..<1024]) ?v (fold (clone_entry src table) (List.map of_nat [0..<1024]) ?v)"
  proof (rule clone_entries)
    have "[i \<leftarrow> [0..<1024]. entry_frame ?v (page_entry src i) \<noteq> 0] = [i \<leftarrow> [0..<1024]. entry_frame u (page_entry src i) \<noteq> 0]"
      using fe by (intro filter_cong) auto
    then show "card (frame_set ?v) + length [i \<leftarrow> [0..<1024]. entry_frame ?v (page_entry src i) \<noteq> 0] \<le> frame_count ?v"
      using assms(6) tf(3,4) by simp
  qed (use assms(2-5) tf fe in auto)
  then have "copied src table {..<1024} ?v ?t" by (simp add: indices_eq atLeast0LessThan)
  then show "copied src table {..<1024} u ?t" by (rule copied_cong) (use tf in simp_all)
qed


text \<open>A kernel with one page in use: entry 1 of the table at 0x4000 holds frame 2.\<close>

definition one_page :: kernel_memory where
  "one_page = small_kernel ((\<lambda>_. 0)(0x2000 := 0xE0, 0x4004 := 0x07, 0x4005 := 0x20))"

lemma one_page_entries:
  "peek one_page (page_entry 0x4000 1) = 0x2007"
  "i < 1024 \<Longrightarrow> i \<noteq> 1 \<Longrightarrow> peek one_page (page_entry 0x4000 i) = 0"
proof -
  show "peek one_page (page_entry 0x4000 1) = 0x2007" by code_simp
  show "peek one_page (page_entry 0x4000 i) = 0" if "i < 1024" "i \<noteq> 1"
  proof -
    have "mem one_page x = 0" if "in_range (page_entry 0x4000 i) 4 x" for x
    proof -
      have u: "unat (page_entry 0x4000 i) = 0x4000 + 4 * i" using \<open>i < 1024\<close> by (simp add: unat_off)
      then have "0x4000 + 4 * i \<le> unat x" "unat x < 0x4000 + 4 * i + 4"
        using that \<open>i < 1024\<close> by (simp_all add: in_range_interval)
      then have "unat x \<noteq> 0x2000" "unat x \<noteq> 0x4004" "unat x \<noteq> 0x4005" using \<open>i \<noteq> 1\<close> by presburger+
      then have "x \<noteq> 0x2000" "x \<noteq> 0x4004" "x \<noteq> 0x4005" by auto
      then show ?thesis by (simp add: one_page_def small_kernel_def)
    qed
    then have "peek one_page (page_entry 0x4000 i) = load32 (\<lambda>_. 0) (page_entry 0x4000 i)"
      unfolding peek_def by (intro load32_cong) simp
    then show ?thesis by (simp add: load32_def)
  qed
qed

lemma one_page_state:
  "frame_count one_page = 16" "table_off one_page 0x4000" "table_off one_page 0x8000" "frame_set one_page = {0, 1, 2}"
  "malloc_ap 0 0x1000 one_page = Inr (0x8000, 0x8000, one_page\<lparr>placement_address := 0x9000\<rparr>)"
proof -
  show "frame_count one_page = 16" by (simp add: one_page_def small_kernel_ok)
  show "table_off one_page 0x4000" "table_off one_page 0x8000"
    by (simp_all add: one_page_def table_off_def small_kernel_def bitmap_ok_def apart_def)
  have "used one_page k \<longleftrightarrow> k \<in> {0, 1, 2}" if "k < 16" for k
  proof -
    have "\<forall>k < 16. used one_page k = (k \<in> {0, 1, 2})" unfolding all_less_list by code_simp
    with that show ?thesis by blast
  qed
  then show "frame_set one_page = {0, 1, 2}" by (auto simp: frame_set_def \<open>frame_count one_page = 16\<close>)
  show "malloc_ap 0 0x1000 one_page = Inr (0x8000, 0x8000, one_page\<lparr>placement_address := 0x9000\<rparr>)"
    by (simp add: malloc_before_heap one_page_def small_kernel_def page_up_def)
qed

theorem clone_table_copies_witness:
  "\<exists>t. clone_table 0 0x4000 one_page = Inr (0x8000, 0x8000, t)
    \<and> copied 0x4000 0x8000 {..<1024} (one_page\<lparr>placement_address := 0x9000\<rparr>) t"
proof -
  let ?u = "one_page\<lparr>placement_address := 0x9000\<rparr>"
  have u: "peek ?u a = peek one_page a" "frame_set ?u = frame_set one_page" "frame_count ?u = frame_count one_page"
    "table_off ?u T = table_off one_page T" for a T
    by (simp_all add: peek_def frame_set_def frame_count_def used_def table_off_def bitmap_ok_def)
  have e: "entry_frame ?u (page_entry 0x4000 i) = (if i = 1 then 2 else 0)" if "i < 1024" for i
  proof -
    have "unat (frame_of 0x2007) = 2" by code_simp
    then show ?thesis
      using one_page_entries(1) one_page_entries(2) [OF that] by (simp add: entry_frame_def u get_field_0)
  qed
  have "[i \<leftarrow> [0..<1024]. entry_frame ?u (page_entry 0x4000 i) \<noteq> 0] = [i \<leftarrow> [0..<1024]. i = 1]"
    using e by (intro filter_cong) auto
  moreover have "card (set [i \<leftarrow> [0..<1024]. i = (1 :: nat)]) \<le> card {1 :: nat}"
    by (rule card_mono) auto
  then have "length [i \<leftarrow> [0..<1024]. i = (1 :: nat)] \<le> 1"
    using distinct_card [of "[i \<leftarrow> [0..<1024]. i = (1 :: nat)]"] by simp
  ultimately have l: "length [i \<leftarrow> [0..<1024]. entry_frame ?u (page_entry 0x4000 i) \<noteq> 0] \<le> 1" by simp
  show ?thesis
    by (rule clone_table_copies [OF one_page_state(5)])
      (use u one_page_state e l in \<open>auto simp: apart_def\<close>)
qed


section \<open>Sharing the kernel's tables\<close>

lemma slots_of_nat:
  assumes "i < 1024"
  shows "table_slot D (of_nat i) = off D (4 * i)" and "phy_slot D (of_nat i) = off D (0x1000 + 4 * i)"
  using assms by (simp_all add: slots_off unat_of_nat_small)

lemma share_entry:
  fixes s :: "'a kmem"
  assumes src: "apart D 0x2004 src 0x2004" and vm: "apart D 0x2004 (vm_page_dir s) 0x2004" and i: "i < 1024"
  defines "s1 \<equiv> poke (off D (4 * i)) (peek s (off src (4 * i))) s"
  defines "u \<equiv> poke (off D (0x1000 + 4 * i)) (peek s1 (off src (0x1000 + 4 * i))) s1"
  shows "\<And>e. e + 4 \<le> 0x2004 \<Longrightarrow> peek u (off src e) = peek s (off src e)"
    and "\<And>e. e + 4 \<le> 0x2004 \<Longrightarrow> peek u (off (vm_page_dir s) e) = peek s (off (vm_page_dir s) e)"
    and "peek s (off src (4 * i)) \<noteq> 0 \<Longrightarrow> peek s (off (vm_page_dir s) (4 * i)) = peek s (off src (4 * i)) \<Longrightarrow>
      clone_dir_loop n src D (List.map of_nat (i # ks)) s = clone_dir_loop n src D (List.map of_nat ks) u"
    and "same_registers s u" and "vm_page_dir u = vm_page_dir s"
    and "\<And>c. 4 dvd c \<Longrightarrow> c < 0x2004 \<Longrightarrow> peek u (off D c) = (if c = 4 * i then peek s (off src (4 * i))
        else if c = 0x1000 + 4 * i then peek s (off src (0x1000 + 4 * i)) else peek s (off D c))"
    and "\<And>x. \<not> in_range D 0x2004 x \<Longrightarrow> mem u x = mem s x"
proof -
  have out: "peek (poke (off D c) v (w :: 'a kmem)) (off E e) = peek w (off E e)"
    if "apart D 0x2004 E 0x2004" "c + 4 \<le> 0x2004" "e + 4 \<le> 0x2004" for c v w E e
  proof -
    have "apart (off D c) 4 E 0x2004" using that by (intro apart_sub [of D "0x2004"]) simp_all
    then have "apart (off E e) 4 (off D c) 4" using that(3) by (intro apart_sub [of E "0x2004"]) (simp_all add: apart_sym)
    then show ?thesis by (simp add: kernel.rd_wr_apart apart_sym del: poke_frame)
  qed
  show "peek u (off src e) = peek s (off src e)" "peek u (off (vm_page_dir s) e) = peek s (off (vm_page_dir s) e)"
    if "e + 4 \<le> 0x2004" for e
    using out [OF src _ that] out [OF vm _ that] i by (simp_all add: u_def s1_def del: poke_frame)
  show "clone_dir_loop n src D (List.map of_nat (i # ks)) s = clone_dir_loop n src D (List.map of_nat ks) u"
    if "peek s (off src (4 * i)) \<noteq> 0" "peek s (off (vm_page_dir s) (4 * i)) = peek s (off src (4 * i))"
    using that i out [OF src, of "4 * i" "4 * i"] by (simp add: slots_of_nat Let_def u_def s1_def)
  show "same_registers s u" "vm_page_dir u = vm_page_dir s" by (simp_all add: same_registers_def u_def s1_def)
  show "peek u (off D c) = (if c = 4 * i then peek s (off src (4 * i))
      else if c = 0x1000 + 4 * i then peek s (off src (0x1000 + 4 * i)) else peek s (off D c))"
    if "4 dvd c" "c < 0x2004" for c
  proof -
    obtain c' where c': "c = 4 * c'" using \<open>4 dvd c\<close> by (auto elim: dvdE)
    have ap: "peek (poke (off D d) v (w :: 'a kmem)) (off D c) = peek w (off D c)"
      if "d = 4 * d'" "d' \<noteq> c'" "d < 0x2004" for d d' v w
    proof -
      have "apart (off D d) 4 (off D c) 4" using that c' \<open>c < 0x2004\<close> by (intro off_apart_either) auto
      then show ?thesis by (simp add: kernel.rd_wr_apart del: poke_frame)
    qed
    have "peek s1 (off src (0x1000 + 4 * i)) = peek s (off src (0x1000 + 4 * i))"
      using out [OF src] i by (simp add: s1_def)
    then show ?thesis
      using ap [of "4 * i" i] ap [of "0x1000 + 4 * i" "0x400 + i"] i c'
      by (auto simp: peek_poke_same u_def s1_def simp del: poke_frame)
  qed
  show "mem u x = mem s x" if "\<not> in_range D 0x2004 x" for x
    using that i by (simp add: u_def s1_def off_outside(1) [of D "0x2004"])
qed

lemma clone_loop_shares:
  fixes s :: "'a kmem"
  assumes "apart D 0x2004 src 0x2004" and "apart D 0x2004 (vm_page_dir s) 0x2004"
    and "distinct ks" and "set ks \<subseteq> {..<1024}"
    and "\<forall>i \<in> set ks. peek s (off src (4 * i)) = 0 \<or> peek s (off src (4 * i)) = peek s (off (vm_page_dir s) (4 * i))"
  shows "\<exists>t. clone_dir_loop n src D (List.map of_nat ks) s = Inr t \<and> same_registers s t
    \<and> (\<forall>x. \<not> in_range D 0x2004 x \<longrightarrow> mem t x = mem s x) \<and> peek t (off D 0x2000) = peek s (off D 0x2000)
    \<and> (\<forall>i < 1024. let copy = i \<in> set ks \<and> peek s (off src (4 * i)) \<noteq> 0 in
         peek t (off D (4 * i)) = peek s (if copy then off src (4 * i) else off D (4 * i)) \<and>
         peek t (off D (0x1000 + 4 * i)) = peek s (if copy then off src (0x1000 + 4 * i) else off D (0x1000 + 4 * i)))"
  using assms
proof (induction ks arbitrary: s)
  case Nil
  then show ?case by simp
next
  case (Cons i ks)
  have i: "i < 1024" "i \<notin> set ks" "distinct ks" "set ks \<subseteq> {..<1024}" using Cons.prems(3,4) by auto
  show ?case
  proof (cases "peek s (off src (4 * i)) = 0")
    case True
    then have "clone_dir_loop n src D (List.map of_nat (i # ks)) s = clone_dir_loop n src D (List.map of_nat ks) s"
      using i(1) by (simp add: slots_of_nat)
    moreover have "(j \<in> set (i # ks) \<and> peek s (off src (4 * j)) \<noteq> 0) = (j \<in> set ks \<and> peek s (off src (4 * j)) \<noteq> 0)" for j
      using True by auto
    ultimately show ?thesis using Cons.IH [OF Cons.prems(1,2) i(3,4)] Cons.prems(5) by (simp only:) simp
  next
    case False
    then have eq: "peek s (off (vm_page_dir s) (4 * i)) = peek s (off src (4 * i))" using Cons.prems(5) by auto
    obtain u where u: "u = poke (off D (0x1000 + 4 * i)) (peek (poke (off D (4 * i)) (peek s (off src (4 * i))) s) (off src (0x1000 + 4 * i)))
        (poke (off D (4 * i)) (peek s (off src (4 * i))) s)" by simp
    note f = share_entry [OF Cons.prems(1,2) i(1), folded u]
    have pre: "\<forall>j \<in> set ks. peek u (off src (4 * j)) = 0 \<or> peek u (off src (4 * j)) = peek u (off (vm_page_dir u) (4 * j))"
    proof
      fix j
      assume j: "j \<in> set ks"
      then have "4 * j + 4 \<le> 0x2004" using i(4) by auto
      then show "peek u (off src (4 * j)) = 0 \<or> peek u (off src (4 * j)) = peek u (off (vm_page_dir u) (4 * j))"
        using Cons.prems(5) j f(1) [of "4 * j"] f(2) [of "4 * j"] by (simp add: f(5))
    qed
    have "apart D 0x2004 (vm_page_dir u) 0x2004" using Cons.prems(2) by (simp only: f(5))
    from Cons.IH [OF Cons.prems(1) this i(3,4) pre] obtain t where
      t: "clone_dir_loop n src D (List.map of_nat ks) u = Inr t \<and> same_registers u t
        \<and> (\<forall>x. \<not> in_range D 0x2004 x \<longrightarrow> mem t x = mem u x) \<and> peek t (off D 0x2000) = peek u (off D 0x2000)
        \<and> (\<forall>i < 1024. let copy = i \<in> set ks \<and> peek u (off src (4 * i)) \<noteq> 0 in
         peek t (off D (4 * i)) = peek u (if copy then off src (4 * i) else off D (4 * i)) \<and>
         peek t (off D (0x1000 + 4 * i)) = peek u (if copy then off src (0x1000 + 4 * i) else off D (0x1000 + 4 * i)))"
      by blast
    show ?thesis
    proof (intro exI conjI allI impI)
      show "clone_dir_loop n src D (List.map of_nat (i # ks)) s = Inr t" using f(3) [OF False eq] t by simp
      show "same_registers s t" using t f(4) same_registers_trans by blast
      show "mem t x = mem s x" if "\<not> in_range D 0x2004 x" for x using t f(7) that by simp
      show "peek t (off D 0x2000) = peek s (off D 0x2000)" using t f(6) [of "0x2000"] i(1) by simp
      fix j :: nat
      assume j: "j < 1024"
      have sj: "peek u (off src (4 * j)) = peek s (off src (4 * j))"
        "peek u (off src (0x1000 + 4 * j)) = peek s (off src (0x1000 + 4 * j))"
        using f(1) [of "4 * j"] f(1) [of "0x1000 + 4 * j"] j by simp_all
      have dj: "peek u (off D (4 * j)) = peek s (if j = i then off src (4 * j) else off D (4 * j))"
        "peek u (off D (0x1000 + 4 * j)) = peek s (if j = i then off src (0x1000 + 4 * j) else off D (0x1000 + 4 * j))"
        using f(6) [of "4 * j"] f(6) [of "0x1000 + 4 * j"] j i(1) by (auto intro!: dvd_add)
      have tj: "peek t (off D (4 * j)) = peek u (if j \<in> set ks \<and> peek u (off src (4 * j)) \<noteq> 0 then off src (4 * j) else off D (4 * j))"
        "peek t (off D (0x1000 + 4 * j)) = peek u (if j \<in> set ks \<and> peek u (off src (4 * j)) \<noteq> 0
           then off src (0x1000 + 4 * j) else off D (0x1000 + 4 * j))"
        using t j unfolding Let_def by blast+
      show "let copy = j \<in> set (i # ks) \<and> peek s (off src (4 * j)) \<noteq> 0 in
         peek t (off D (4 * j)) = peek s (if copy then off src (4 * j) else off D (4 * j)) \<and>
         peek t (off D (0x1000 + 4 * j)) = peek s (if copy then off src (0x1000 + 4 * j) else off D (0x1000 + 4 * j))"
      proof (cases "j = i")
        case True
        then have "j \<notin> set ks" "j \<in> set (i # ks)" "peek s (off src (4 * j)) \<noteq> 0" using False i(2) by auto
        moreover from this have "peek t (off D (4 * j)) = peek s (off src (4 * j))"
          "peek t (off D (0x1000 + 4 * j)) = peek s (off src (0x1000 + 4 * j))"
          unfolding tj using True dj by simp_all
        ultimately show ?thesis by (simp only: Let_def) simp
      next
        case False
        then show ?thesis by (simp add: Let_def tj sj dj)
      qed
    qed
  qed
qed


lemma clone_dir_kernel_tables:
  fixes s u :: "'a kmem"
  assumes "malloc_ap n 0x2004 s = Inr (D, phy, u)"
    and "apart D 0x2004 src 0x2004" and "apart D 0x2004 (vm_page_dir u) 0x2004"
    and "\<forall>i < 1024. peek u (off src (4 * i)) = 0 \<or> peek u (off src (4 * i)) = peek u (off (vm_page_dir u) (4 * i))"
  shows "\<exists>t. clone_dir n src s = Inr (D, t) \<and> peek t (dir_phy_slot D) = phy + 0x1000
    \<and> (\<forall>i < 1024. peek t (off D (4 * i)) = peek u (off src (4 * i))
        \<and> peek t (off D (0x1000 + 4 * i)) = (if peek u (off src (4 * i)) = 0 then 0 else peek u (off src (0x1000 + 4 * i))))
    \<and> (\<forall>x. \<not> in_range D 0x2004 x \<longrightarrow> mem t x = mem u x) \<and> same_registers u t"
proof -
  let ?v = "poke (dir_phy_slot D) (phy + 0x1000) (fill D 0 0x2004 u)"
  have E: "peek ?v (off E c) = peek u (off E c)" if "apart D 0x2004 E 0x2004" "c + 4 \<le> 0x2004" for E c
  proof -
    have "apart (off E c) 4 D 0x2004" using that by (intro apart_sub [of E "0x2004"]) (simp_all add: apart_sym)
    then have "\<And>x. in_range (off E c) 4 x \<Longrightarrow> \<not> in_range D 0x2004 x" using apart_in_range apart_sym by blast
    then show ?thesis
      by (intro peek_cong) (simp add: slots_as_off off_outside(1) [of D "0x2004"] fill_other_mem)
  qed
  have z: "peek ?v (off D c) = (if c = 0x2000 then phy + 0x1000 else 0)" if "c + 4 \<le> 0x2000 \<or> c = 0x2000" for c
  proof (cases "c = 0x2000")
    case False
    then have "apart (off D 0x2000) 4 (off D c) 4" using that by (intro off_apart_either) auto
    then show ?thesis
      using False that by (simp add: slots_as_off kernel.rd_wr_apart peek_fill_in del: poke_frame)
  qed (simp add: slots_as_off peek_poke_same del: poke_frame)
  have vd: "vm_page_dir ?v = vm_page_dir u" by simp
  have sh: "\<forall>i \<in> set [0..<1024]. peek ?v (off src (4 * i)) = 0 \<or> peek ?v (off src (4 * i)) = peek ?v (off (vm_page_dir ?v) (4 * i))"
    using assms(4) E [OF assms(2)] E [OF assms(3)] unfolding vd by simp
  have apv: "apart D 0x2004 (vm_page_dir ?v) 0x2004" using assms(3) by simp
  have le: "set [0..<1024] \<subseteq> {..<1024 :: nat}" by auto
  from clone_loop_shares [OF assms(2) apv distinct_upt le sh, of n] obtain t where t: "clone_dir_loop n src D (List.map of_nat [0..<1024]) ?v = Inr t" "same_registers ?v t"
    "\<And>x. \<not> in_range D 0x2004 x \<Longrightarrow> mem t x = mem ?v x" "peek t (off D 0x2000) = peek ?v (off D 0x2000)"
    "\<forall>i < 1024. let copy = i \<in> set [0..<1024] \<and> peek ?v (off src (4 * i)) \<noteq> 0 in
         peek t (off D (4 * i)) = peek ?v (if copy then off src (4 * i) else off D (4 * i)) \<and>
         peek t (off D (0x1000 + 4 * i)) = peek ?v (if copy then off src (0x1000 + 4 * i) else off D (0x1000 + 4 * i))"
    by blast
  show ?thesis
  proof (intro exI conjI allI impI)
    show "clone_dir n src s = Inr (D, t)"
      using assms(1) t(1) by (simp add: clone_dir_def Let_def indices_eq)
    show "peek t (dir_phy_slot D) = phy + 0x1000" using t(4) z [of "0x2000"] by (simp add: slots_as_off)
    show "mem t x = mem u x" if "\<not> in_range D 0x2004 x" for x
      using t(3) [OF that] that by (simp add: slots_as_off off_outside(1) [of D "0x2004"] fill_other_mem)
    have "same_registers u ?v" by (simp add: same_registers_def)
    then show "same_registers u t" using t(2) by (rule same_registers_trans)
    fix i :: nat
    assume i: "i < 1024"
    then have e: "peek ?v (off src (4 * i)) = peek u (off src (4 * i))"
      "peek ?v (off src (0x1000 + 4 * i)) = peek u (off src (0x1000 + 4 * i))"
      "peek ?v (off D (4 * i)) = 0" "peek ?v (off D (0x1000 + 4 * i)) = 0"
      using E [OF assms(2), of "4 * i"] E [OF assms(2), of "0x1000 + 4 * i"] z [of "4 * i"] z [of "0x1000 + 4 * i"]
      by auto
    have c: "peek t (off D (4 * i)) = peek ?v (if peek ?v (off src (4 * i)) \<noteq> 0 then off src (4 * i) else off D (4 * i))"
      "peek t (off D (0x1000 + 4 * i)) =
         peek ?v (if peek ?v (off src (4 * i)) \<noteq> 0 then off src (0x1000 + 4 * i) else off D (0x1000 + 4 * i))"
      using t(5) i by (auto simp: Let_def)
    show "peek t (off D (4 * i)) = peek u (off src (4 * i))"
      "peek t (off D (0x1000 + 4 * i)) = (if peek u (off src (4 * i)) = 0 then 0 else peek u (off src (0x1000 + 4 * i)))"
      unfolding c using e by auto
  qed
qed

text \<open>
  Property C21. \<open>clone_dir\<close> of a directory that has no tables but the kernel's makes a directory with these
  very tables: each slot and its physical counterpart is the source's where there is a table and null
  where there is none, the new directory knows the physical address of its own entries, and nothing
  outside the new block changes. So all tasks see one kernel.
\<close>

theorem clone_dir_shares_kernel:
  fixes s u :: "'a kmem"
  assumes "malloc_ap n 0x2004 s = Inr (D, phy, u)"
    and "apart D 0x2004 src 0x2004" and "apart D 0x2004 (vm_page_dir u) 0x2004"
    and "\<forall>i < 1024. peek u (off src (4 * i)) = 0 \<or> peek u (off src (4 * i)) = peek u (off (vm_page_dir u) (4 * i))"
  shows "\<exists>t. clone_dir n src s = Inr (D, t) \<and> peek t (dir_phy_slot D) = phy + 0x1000
    \<and> (\<forall>i < 1024. peek t (off D (4 * i)) = peek u (off src (4 * i))
        \<and> peek t (off D (0x1000 + 4 * i)) = (if peek u (off src (4 * i)) = 0 then 0 else peek u (off src (0x1000 + 4 * i))))
    \<and> (\<forall>x. \<not> in_range D 0x2004 x \<longrightarrow> mem t x = mem u x) \<and> same_registers u t"
  using assms by (rule clone_dir_kernel_tables)

theorem clone_dir_shares_kernel_witness:
  "\<exists>t. clone_dir 0 0 (small_kernel ((\<lambda>_. 0)(12 := 0x55, 0x100C := 0x57))) = Inr (0x8000, t)
    \<and> peek t (off 0x8000 12) = 0x55 \<and> peek t (off 0x8000 0x100C) = 0x57"
proof -
  let ?s = "small_kernel ((\<lambda>_. 0)(12 := 0x55, 0x100C := 0x57))"
  let ?u = "?s\<lparr>placement_address := 0xA004\<rparr>"
  have m: "malloc_ap 0 0x2004 ?s = Inr (0x8000, 0x8000, ?u)"
    by (simp add: malloc_before_heap small_kernel_def page_up_def)
  have v: "vm_page_dir ?u = 0" by (simp add: small_kernel_def)
  have "\<exists>t. clone_dir 0 0 ?s = Inr (0x8000, t) \<and> peek t (dir_phy_slot 0x8000) = 0x8000 + 0x1000
    \<and> (\<forall>i < 1024. peek t (off 0x8000 (4 * i)) = peek ?u (off 0 (4 * i))
        \<and> peek t (off 0x8000 (0x1000 + 4 * i)) = (if peek ?u (off 0 (4 * i)) = 0 then 0 else peek ?u (off 0 (0x1000 + 4 * i))))
    \<and> (\<forall>x. \<not> in_range 0x8000 0x2004 x \<longrightarrow> mem t x = mem ?u x) \<and> same_registers ?u t"
    by (rule clone_dir_shares_kernel [OF m]) (simp_all add: v apart_def)
  then obtain t where t: "clone_dir 0 0 ?s = Inr (0x8000, t)"
    "\<And>i. i < 1024 \<Longrightarrow> peek t (off 0x8000 (4 * i)) = peek ?u (off 0 (4 * i))"
    "\<And>i. i < 1024 \<Longrightarrow> peek t (off 0x8000 (0x1000 + 4 * i)) = (if peek ?u (off 0 (4 * i)) = 0 then 0 else peek ?u (off 0 (0x1000 + 4 * i)))"
    by blast
  have "peek ?u (off 0 12) = 0x55" "peek ?u (off 0 0x100C) = 0x57" by code_simp+
  then show ?thesis using t(1) t(2) [of 3] t(3) [of 3] by (intro exI [of _ t]) simp
qed

section \<open>Freeing all pages of a directory\<close>

text \<open>\<open>fewer_bits\<close>: no bit of memory was set, and nothing outside the given bytes changed.\<close>

definition fewer_bits :: "'a kmem \<Rightarrow> 'a kmem \<Rightarrow> bool" where
  "fewer_bits s t \<longleftrightarrow> (\<forall>x n. bit (mem t x) n \<longrightarrow> bit (mem s x) n)"

lemma fewer_bits_refl: "fewer_bits s s"
  by (simp add: fewer_bits_def)

lemma fewer_bits_trans: "fewer_bits s t \<Longrightarrow> fewer_bits t u \<Longrightarrow> fewer_bits s u"
  by (simp add: fewer_bits_def)

lemma fewer_bits_peek: "fewer_bits s t \<Longrightarrow> bit (peek t a) n \<Longrightarrow> bit (peek s a) n"
  by (auto simp: fewer_bits_def peek_def load32_def bit_simps)

lemma fewer_bits_entry:
  assumes "fewer_bits s t" and "entry_frame s page = 0"
  shows "entry_frame t page = 0"
proof -
  have "\<not> bit (frame_of (peek t page)) n" for n
  proof -
    have "\<not> bit (frame_of (peek s page)) n" using assms(2) by (simp add: entry_frame_0)
    then show ?thesis using fewer_bits_peek [OF assms(1)] by (auto simp: get_field_def bit_simps)
  qed
  then have "frame_of (peek t page) = 0" by (intro bit_word_eqI) simp
  then show ?thesis by (simp add: entry_frame_0)
qed

lemma fewer_bits_poke:
  assumes "\<And>n. bit v n \<Longrightarrow> bit (peek s a) n"
  shows "fewer_bits s (poke a v s)"
proof -
  have "bit (mem s x) n" if "bit (store32 (mem s) a v x) n" for x n
  proof (cases "in_range a 4 x")
    case True
    have "mem s x = store32 (mem s) a (peek s a) x" by (simp add: peek_def store32_load32)
    moreover have "bit (store32 (mem s) a w x) n \<longleftrightarrow> n < 8 \<and>
        bit w (if x = a then n else if x = a + 1 then 8 + n else if x = a + 2 then 16 + n else 24 + n)" for w
      using True by (auto simp: in_range_4 store32_def bit_simps)
    ultimately show ?thesis using that assms by metis
  next
    case False
    with that show ?thesis by (simp add: store32_other)
  qed
  then show ?thesis by (simp add: fewer_bits_def)
qed

lemma free_frame_effect:
  fixes s :: "'a kmem"
  shows "fewer_bits s (free_frame page s)" and "entry_frame (free_frame page s) page = 0"
    and "\<not> in_range page 4 x \<Longrightarrow> \<not> in_range (frames s) 32 x \<Longrightarrow> mem (free_frame page s) x = mem s x"
proof -
  let ?f = "frame_of (peek s page)" and ?c = "clear_frame (frame_of (peek s page)) s"
  let ?b = "INDEX_FROM_BITMAP (?f div 0x1000)"
  have f: "unat ?f < 2 ^ 20" by (rule unat_get_field_less)
  then have b: "unat ?b < 32" by (simp add: INDEX_FROM_BITMAP_def unat_div less_mult_imp_div_less)
  have c: "mem ?c = (mem s)(frames s + ?b := mem s (frames s + ?b) AND NOT (frame_mask (OFFSET_FROM_BITMAP (?f div 0x1000))))"
    by (simp add: clear_frame_def Let_def store8_def load8_def)
  have c1: "fewer_bits s ?c" by (auto simp: fewer_bits_def c bit_simps)
  have t: "free_frame page s = (if ?f = 0 then s else poke page (put_field 12 20 0 (peek ?c page)) ?c)"
    by (simp add: free_frame_def set_page_frame_def)
  have "fewer_bits ?c (poke page (put_field 12 20 0 (peek ?c page)) ?c)"
    by (rule fewer_bits_poke) (simp add: put_field_def bit_simps)
  then show "fewer_bits s (free_frame page s)"
    unfolding t using c1 by (auto intro: fewer_bits_trans fewer_bits_refl)
  show "entry_frame (free_frame page s) page = 0"
    unfolding t by (simp add: entry_frame_def peek_poke_same get_put_same del: poke_frame)
  show "mem (free_frame page s) x = mem s x" if "\<not> in_range page 4 x" "\<not> in_range (frames s) 32 x"
  proof -
    have "x \<noteq> frames s + ?b" using that(2) b by (auto simp: in_range_def)
    then show ?thesis unfolding t using that(1) c by (simp add: store32_other)
  qed
qed

definition free_table :: "u32 \<Rightarrow> nat list \<Rightarrow> 'a kmem \<Rightarrow> 'a kmem" where
  "free_table T js s = fold (\<lambda>j s. free_frame (page_slot T j) s) (List.map of_nat js) s"

lemma free_table_effect:
  fixes s :: "'a kmem"
  assumes "set js \<subseteq> {..<1024}"
  shows "fewer_bits s (free_table T js s) \<and> same_registers s (free_table T js s)
    \<and> (\<forall>j \<in> set js. entry_frame (free_table T js s) (page_entry T j) = 0)
    \<and> (\<forall>x. \<not> in_range T 0x1000 x \<and> \<not> in_range (frames s) 32 x \<longrightarrow> mem (free_table T js s) x = mem s x)"
  using assms
proof (induction js arbitrary: s)
  case Nil
  then show ?case by (simp add: free_table_def fewer_bits_refl)
next
  case (Cons j js)
  have j: "j < 1024" using Cons.prems by simp
  let ?s = "free_frame (page_entry T j) s"
  have t: "free_table T (j # js) s = free_table T js ?s" using j by (simp add: free_table_def slot_of_nat)
  note e = free_frame_effect [where page = "page_entry T j" and s = s]
  have IH: "fewer_bits ?s (free_table T js ?s)" "same_registers ?s (free_table T js ?s)"
    "\<And>i. i \<in> set js \<Longrightarrow> entry_frame (free_table T js ?s) (page_entry T i) = 0"
    "\<And>x. \<not> in_range T 0x1000 x \<Longrightarrow> \<not> in_range (frames s) 32 x \<Longrightarrow> mem (free_table T js ?s) x = mem ?s x"
    using Cons.IH [of ?s] Cons.prems by simp_all
  have "mem ?s x = mem s x" if "\<not> in_range T 0x1000 x" "\<not> in_range (frames s) 32 x" for x
    using e(3) [of x] in_range_off [of T "4 * j" 4 x "0x1000"] j that by auto
  moreover have "entry_frame (free_table T js ?s) (page_entry T j) = 0" using fewer_bits_entry [OF IH(1) e(2)] .
  ultimately show ?case
    unfolding t using IH fewer_bits_trans [OF e(1) IH(1)] same_registers_trans [OF free_frame_registers IH(2)] by auto
qed

text \<open>An entry keeps the bits below its frame number, wherever else in word-aligned tables frames are freed.\<close>

lemma words_apart:
  assumes "4 dvd unat a" and "4 dvd unat b" and "a \<noteq> b"
  shows "apart a 4 b 4"
proof -
  obtain i j where ij: "unat a = 4 * i" "unat b = 4 * j" using assms(1,2) by (elim dvdE)
  have "unat a \<noteq> unat b" using assms(3) by (simp add: word_unat_eq_iff)
  then have "i \<noteq> j" using ij by simp
  moreover have "4 * i < 2 ^ 32" "4 * j < 2 ^ 32" using unat_u32_lt [of a] unat_u32_lt [of b] ij by simp_all
  ultimately show ?thesis
    unfolding apart_def unat_sub_if' ij by (cases "i < j") (simp_all, arith+)
qed

lemma entry_word_aligned:
  assumes "4 dvd unat T" and "j < 1024"
  shows "4 dvd unat (page_entry T j)"
proof -
  have "unat (page_entry T j) = (unat T + 4 * j) mod 2 ^ 32"
    using assms(2) by (simp add: off_def unat_word_ariths unat_of_nat_small)
  moreover have "(4 :: nat) dvd 2 ^ 32" by simp
  ultimately show ?thesis using assms(1) by (metis dvd_add dvd_mod dvd_triv_left)
qed

lemma free_frame_low_bits:
  fixes s :: "'a kmem"
  assumes "apart e 4 (frames s) 32" and "page = e \<or> apart page 4 e 4"
  shows "peek (free_frame page s) e AND 0xFFF = peek s e AND 0xFFF"
proof (cases "frame_of (peek s page) = 0")
  case False
  let ?f = "frame_of (peek s page)"
  let ?c = "clear_frame ?f s" and ?b = "INDEX_FROM_BITMAP (?f div 0x1000)"
  have "unat ?f < 2 ^ 20" by (rule unat_get_field_less)
  then have "unat ?b < 32" by (simp add: INDEX_FROM_BITMAP_def unat_div less_mult_imp_div_less)
  then have "in_range (frames s) 32 (frames s + ?b)" by (simp add: in_range_def)
  then have "frames s + ?b \<noteq> x" if "in_range e 4 x" for x
    using apart_in_range [OF assms(1) [unfolded apart_sym [of e]] that] by auto
  then have c: "peek ?c e = peek s e"
    by (intro peek_cong) (auto simp: clear_frame_def Let_def store8_def)
  have t: "free_frame page s = poke page (put_field 12 20 0 (peek ?c page)) ?c"
    using False by (simp add: free_frame_def set_page_frame_def)
  show ?thesis
  proof (cases "page = e")
    case True
    have "put_field 12 20 0 w AND 0xFFF = w AND 0xFFF" for w :: u32
      by (rule bit_word_eqI) (auto simp: put_field_def bit_simps bit_masks)
    then show ?thesis using t c True by (simp add: peek_poke_same)
  next
    case False
    then have "apart page 4 e 4" using assms(2) by simp
    then show ?thesis using t c by (simp add: kernel.rd_wr_apart)
  qed
qed (simp add: free_frame_def)

lemma free_table_low_bits:
  fixes s :: "'a kmem"
  assumes "4 dvd unat T" and "4 dvd unat e" and "apart e 4 (frames s) 32" and "set js \<subseteq> {..<1024}"
  shows "peek (free_table T js s) e AND 0xFFF = peek s e AND 0xFFF"
  using assms(3,4)
proof (induction js arbitrary: s)
  case (Cons j js)
  have j: "j < 1024" using Cons.prems(2) by simp
  have step: "free_table T (j # js) s = free_table T js (free_frame (page_entry T j) s)"
    using j by (simp add: free_table_def slot_of_nat)
  have "page_entry T j = e \<or> apart (page_entry T j) 4 e 4"
    using words_apart [OF entry_word_aligned [OF assms(1) j] assms(2)] by blast
  from free_frame_low_bits [OF Cons.prems(1) this] show ?case
    unfolding step using Cons.prems same_registersD(4) [OF free_frame_registers [where s = s and page = "page_entry T j"]]
    by (subst Cons.IH) simp_all
qed (simp add: free_table_def)

lemma free_table_dir:
  fixes s :: "'a kmem"
  assumes "apart dir 0x1000 T 0x1000" and "apart dir 0x1000 (frames s) 32" and "k < 1024"
  shows "peek (free_table T [0..<1024] s) (off dir (4 * k)) = peek s (off dir (4 * k))"
proof (rule peek_cong)
  fix x
  assume "in_range (off dir (4 * k)) 4 x"
  then have d: "in_range dir 0x1000 x" by (rule in_range_off) (use assms(3) in simp_all)
  have a: "apart T 0x1000 dir 0x1000" "apart (frames s) 32 dir 0x1000"
    using assms(1,2) apart_sym [of dir "0x1000" T] apart_sym [of dir "0x1000" "frames s"] by simp_all
  have "\<not> in_range T 0x1000 x" "\<not> in_range (frames s) 32 x"
    using apart_in_range [OF a(1) d] apart_in_range [OF a(2) d] by simp_all
  moreover have "set [0..<1024] \<subseteq> {..<1024 :: nat}" by auto
  ultimately show "mem (free_table T [0..<1024] s) x = mem s x" using free_table_effect [where js = "[0..<1024]" and s = s and T = T] by blast
qed

lemma free_all_page_tables:
  fixes s :: "'a kmem"
  assumes "\<forall>i \<in> set is. apart dir 0x1000 (peek s (off dir (4 * i))) 0x1000" and "apart dir 0x1000 (frames s) 32"
    and "set is \<subseteq> {..<1024}"
  defines "t \<equiv> fold (\<lambda>i s. let p_table = peek s (table_slot dir i) in
             fold (\<lambda>j s. free_frame (page_slot p_table j) s) indices s) (List.map of_nat is) s"
  shows "fewer_bits s t \<and> same_registers s t
    \<and> (\<forall>i \<in> set is. \<forall>j < 1024. entry_frame t (page_entry (peek s (off dir (4 * i))) j) = 0)"
  unfolding t_def using assms(1-3)
proof (induction "is" arbitrary: s)
  case Nil
  then show ?case by (simp add: fewer_bits_refl)
next
  case (Cons i "is")
  have i: "i < 1024" using Cons.prems(3) by simp
  let ?T = "peek s (off dir (4 * i))" and ?s = "free_table (peek s (off dir (4 * i))) [0..<1024] s"
  let ?t = "fold (\<lambda>i s. let p_table = peek s (table_slot dir i) in
             fold (\<lambda>j s. free_frame (page_slot p_table j) s) indices s) (List.map of_nat is) ?s"
  have le: "set [0..<1024] \<subseteq> {..<1024 :: nat}" by auto
  have step: "fold (\<lambda>i s. let p_table = peek s (table_slot dir i) in
      fold (\<lambda>j s. free_frame (page_slot p_table j) s) indices s) (List.map of_nat (i # is)) s = ?t"
    using i by (simp add: slots_of_nat free_table_def indices_eq)
  have e: "fewer_bits s ?s" "same_registers s ?s" "\<And>j. j < 1024 \<Longrightarrow> entry_frame ?s (page_entry ?T j) = 0"
    "\<And>x. \<not> in_range ?T 0x1000 x \<Longrightarrow> \<not> in_range (frames s) 32 x \<Longrightarrow> mem ?s x = mem s x"
    using free_table_effect [OF le, of s ?T] by simp_all
  have dir: "peek ?s (off dir (4 * k)) = peek s (off dir (4 * k))" if "k < 1024" for k
    using Cons.prems(1,2) that by (intro free_table_dir) simp_all
  have IH: "fewer_bits ?s ?t \<and> same_registers ?s ?t
    \<and> (\<forall>k \<in> set is. \<forall>j < 1024. entry_frame ?t (page_entry (peek ?s (off dir (4 * k))) j) = 0)"
  proof (rule Cons.IH)
    show "\<forall>k \<in> set is. apart dir 0x1000 (peek ?s (off dir (4 * k))) 0x1000"
    proof
      fix k
      assume "k \<in> set is"
      then show "apart dir 0x1000 (peek ?s (off dir (4 * k))) 0x1000"
        using Cons.prems(1,3) dir [of k] by auto
    qed
    show "apart dir 0x1000 (frames ?s) 32" using Cons.prems(2) same_registersD(4) [OF e(2)] by simp
    show "set is \<subseteq> {..<1024}" using Cons.prems(3) by simp
  qed
  then have tb: "fewer_bits ?s ?t" "same_registers ?s ?t" by simp_all
  have rest: "entry_frame ?t (page_entry (peek s (off dir (4 * k))) j) = 0" if "k \<in> set is" "j < 1024" for k j
  proof -
    have k: "k < 1024" using that(1) Cons.prems(3) by auto
    from IH [THEN conjunct2, THEN conjunct2, rule_format, OF that] show ?thesis by (simp only: dir [OF k])
  qed
  have here: "entry_frame ?t (page_entry ?T j) = 0" if "j < 1024" for j
    using fewer_bits_entry [OF tb(1) e(3) [OF that]] .
  show ?case
    unfolding step using fewer_bits_trans [OF e(1) tb(1)] same_registers_trans [OF e(2) tb(2)] rest here by simp
qed

lemma free_all_page_low_bits:
  fixes s :: "'a kmem"
  assumes "\<forall>i \<in> set is. apart dir 0x1000 (peek s (off dir (4 * i))) 0x1000 \<and> 4 dvd unat (peek s (off dir (4 * i)))"
    and "apart dir 0x1000 (frames s) 32" and "set is \<subseteq> {..<1024}" and "4 dvd unat e" and "apart e 4 (frames s) 32"
  shows "peek (fold (\<lambda>i s. let p_table = peek s (table_slot dir i) in
      fold (\<lambda>j s. free_frame (page_slot p_table j) s) indices s) (List.map of_nat is) s) e AND 0xFFF = peek s e AND 0xFFF"
  using assms(1-3,5)
proof (induction "is" arbitrary: s)
  case (Cons i "is")
  let ?T = "peek s (off dir (4 * i))" and ?s = "free_table (peek s (off dir (4 * i))) [0..<1024] s"
  have i: "i < 1024" using Cons.prems(3) by simp
  have T: "apart dir 0x1000 ?T 0x1000" "4 dvd unat ?T" using Cons.prems(1) by simp_all
  have le: "set [0..<1024] \<subseteq> {..<1024 :: nat}" by auto
  have fr: "frames ?s = frames s" using free_table_effect [OF le, of s ?T] same_registersD(4) by blast
  have step: "fold (\<lambda>i s. let p_table = peek s (table_slot dir i) in
      fold (\<lambda>j s. free_frame (page_slot p_table j) s) indices s) (List.map of_nat (i # is)) s
    = fold (\<lambda>i s. let p_table = peek s (table_slot dir i) in
      fold (\<lambda>j s. free_frame (page_slot p_table j) s) indices s) (List.map of_nat is) ?s"
    using i by (simp add: slots_of_nat free_table_def indices_eq)
  have "\<forall>k \<in> set is. apart dir 0x1000 (peek ?s (off dir (4 * k))) 0x1000 \<and> 4 dvd unat (peek ?s (off dir (4 * k)))"
  proof
    fix k
    assume k: "k \<in> set is"
    then have "k < 1024" using Cons.prems(3) by auto
    from free_table_dir [OF T(1) Cons.prems(2) this]
    show "apart dir 0x1000 (peek ?s (off dir (4 * k))) 0x1000 \<and> 4 dvd unat (peek ?s (off dir (4 * k)))"
      using Cons.prems(1) k by simp
  qed
  then show ?case
    unfolding step using Cons.prems(2-4) free_table_low_bits [OF T(2) assms(4) Cons.prems(4) le]
    by (subst Cons.IH) (simp_all add: fr)
qed simp

lemma entry_without_frame:
  assumes "entry_frame t e = 0" and "peek t e AND 0xFFF = w AND 0xFFF"
  shows "peek t e = w AND 0xFFF"
proof (rule bit_word_eqI)
  fix n :: nat
  assume n: "n < LENGTH(32)"
  show "bit (peek t e) n = bit (w AND 0xFFF) n"
  proof (cases "n < 12")
    case True
    have "bit (peek t e AND 0xFFF) n = bit (w AND 0xFFF) n" by (simp only: assms(2))
    then show ?thesis using True by (auto simp: bit_simps bit_masks)
  next
    case False
    have "\<not> bit (frame_of (peek t e)) (n - 12)" using assms(1) by (simp add: entry_frame_0)
    then have "\<not> bit (peek t e) n" using False n by (auto simp: get_field_def bit_simps)
    then show ?thesis using False by (simp add: bit_simps bit_masks)
  qed
qed

text \<open>
  Property C38. \<open>free_all_page\<close> takes the frame number out of every entry of every table the directory points to, also of
  the tables it shares with the kernel's directory, and treats a null pointer as a table at address 0. The other bits
  of the entry stay: a page that was present is still present, and is now the page of frame 0, for every task that
  shares the table. Nothing else happens but that bits of the bitmap are cleared.
\<close>

theorem free_all_page_empties_kernel:
  fixes s :: "'a kmem"
  assumes "\<forall>i < 1024. apart dir 0x1000 (peek s (off dir (4 * i))) 0x1000" and "apart dir 0x1000 (frames s) 32"
    and "\<forall>i < 1024. 4 dvd unat (peek s (off dir (4 * i))) \<and> apart (peek s (off dir (4 * i))) 0x1000 (frames s) 32"
    and "k < 1024" and "peek s (off dir (4 * k)) = peek s (off (vm_page_dir s) (4 * k))"
  shows "let t = free_all_page dir s in
    (\<forall>i < 1024. \<forall>j < 1024. peek t (page_entry (peek s (off dir (4 * i))) j) = peek s (page_entry (peek s (off dir (4 * i))) j) AND 0xFFF)
    \<and> (\<forall>j < 1024. let e = page_entry (peek s (off (vm_page_dir s) (4 * k))) j in
        frame_of (peek t e) = 0 \<and> valid_of (peek t e) = valid_of (peek s e))
    \<and> fewer_bits s t"
proof -
  let ?t = "free_all_page dir s"
  have a: "\<forall>i \<in> set [0..<1024]. apart dir 0x1000 (peek s (off dir (4 * i))) 0x1000"
    "\<forall>i \<in> set [0..<1024]. apart dir 0x1000 (peek s (off dir (4 * i))) 0x1000 \<and> 4 dvd unat (peek s (off dir (4 * i)))"
    "set [0..<1024] \<subseteq> {..<1024 :: nat}" using assms(1,3) by auto
  have t: "fewer_bits s ?t" "\<forall>i \<in> set [0..<1024]. \<forall>j < 1024. entry_frame ?t (page_entry (peek s (off dir (4 * i))) j) = 0"
    using free_all_page_tables [of "[0..<1024]" dir s] a assms(2) unfolding free_all_page_def indices_eq [symmetric] by blast+
  have words: "peek ?t (page_entry (peek s (off dir (4 * i))) j) = peek s (page_entry (peek s (off dir (4 * i))) j) AND 0xFFF"
    if ij: "i < 1024" "j < 1024" for i j
  proof (rule entry_without_frame)
    let ?T = "peek s (off dir (4 * i))"
    show "entry_frame ?t (page_entry ?T j) = 0" using t(2) ij by simp
    have "apart (page_entry ?T j) 4 (frames s) 32"
      by (rule apart_sub [OF conjunct2 [OF assms(3) [rule_format, OF ij(1)]]]) (use ij in simp_all)
    moreover have "4 dvd unat (page_entry ?T j)" using assms(3) ij by (intro entry_word_aligned) simp_all
    ultimately show "peek ?t (page_entry ?T j) AND 0xFFF = peek s (page_entry ?T j) AND 0xFFF"
      using free_all_page_low_bits [OF a(2) assms(2) a(3)] unfolding free_all_page_def indices_eq [symmetric] by blast
  qed
  have "frame_of (w AND 0xFFF) = 0" "valid_of (w AND 0xFFF) = valid_of w" for w :: u32
    by (rule bit_word_eqI, auto simp: get_field_def bit_simps bit_masks)+
  then show ?thesis unfolding Let_def assms(5) [symmetric] using words assms(4) t(1) by simp
qed

theorem free_all_page_empties_kernel_witness:
  "let s = small_kernel ((\<lambda>_. 0)(0x5001 := 0x40, 0x7001 := 0x40, 0x4004 := 0x07, 0x4005 := 0x20, 0x4001 := 0)) in
    peek (free_all_page 0x5000 (s\<lparr>vm_page_dir := 0x7000\<rparr>)) (page_entry 0x4000 1) = 0x007"
proof -
  let ?m = "(\<lambda>_. 0)(0x5001 := 0x40, 0x7001 := 0x40, 0x4004 := 0x07, 0x4005 := 0x20, 0x4001 := 0) :: memory"
  let ?s = "small_kernel ?m\<lparr>vm_page_dir := 0x7000\<rparr>"
  have p0: "peek ?s (off 0x5000 0) = 0x4000" "peek ?s (off 0x7000 0) = 0x4000" by code_simp+
  have p: "peek ?s (off 0x5000 (4 * i)) = 0" if "i < 1024" "i \<noteq> 0" for i
  proof -
    have "mem ?s x = 0" if "in_range (off 0x5000 (4 * i)) 4 x" for x
    proof -
      have u: "unat (off 0x5000 (4 * i)) = 0x5000 + 4 * i" using \<open>i < 1024\<close> by (simp add: unat_off)
      then have "0x5004 \<le> unat x" "unat x < 0x6000"
        using that \<open>i < 1024\<close> \<open>i \<noteq> 0\<close> by (simp_all add: in_range_interval)
      then have "x \<noteq> 0x5001" "x \<noteq> 0x7001" "x \<noteq> 0x4004" "x \<noteq> 0x4005" by auto
      then show ?thesis by (simp add: small_kernel_def)
    qed
    then have "peek ?s (off 0x5000 (4 * i)) = load32 (\<lambda>_. 0) (off 0x5000 (4 * i))"
      unfolding peek_def by (intro load32_cong) simp
    then show ?thesis by (simp add: load32_def)
  qed
  have a: "apart 0x5000 0x1000 0x4000 0x1000" "apart 0x5000 0x1000 0 0x1000" by (simp_all add: apart_def)
  have 1: "\<forall>i < 1024. apart 0x5000 0x1000 (peek ?s (off 0x5000 (4 * i))) 0x1000"
  proof (intro allI impI)
    fix i :: nat
    assume "i < 1024"
    then show "apart 0x5000 0x1000 (peek ?s (off 0x5000 (4 * i))) 0x1000"
      using p [of i] p0(1) a by (cases "i = 0") simp_all
  qed
  have 2: "apart 0x5000 0x1000 (frames ?s) 32" by (simp add: small_kernel_def apart_def)
  have f: "frames ?s = 0x2000" by (simp add: small_kernel_def)
  have 3: "\<forall>i < 1024. 4 dvd unat (peek ?s (off 0x5000 (4 * i))) \<and> apart (peek ?s (off 0x5000 (4 * i))) 0x1000 (frames ?s) 32"
  proof (intro allI impI)
    fix i :: nat
    assume "i < 1024"
    then show "4 dvd unat (peek ?s (off 0x5000 (4 * i))) \<and> apart (peek ?s (off 0x5000 (4 * i))) 0x1000 (frames ?s) 32"
      unfolding f using p [of i] p0(1) by (cases "i = 0") (simp_all add: apart_def)
  qed
  have v: "vm_page_dir ?s = 0x7000" by simp
  have eq: "peek ?s (off 0x5000 (4 * 0)) = peek ?s (off (vm_page_dir ?s) (4 * 0))" using p0 unfolding v by simp
  have lt: "(0 :: nat) < 1024" "(1 :: nat) < 1024" by simp_all
  note h = free_all_page_empties_kernel [OF 1 2 3 lt(1) eq, unfolded Let_def, THEN conjunct1, rule_format, OF lt]
  have z: "peek ?s (off 0x5000 (4 * 0)) = 0x4000" using p0(1) by simp
  have e: "peek ?s (page_entry 0x4000 1) = 0x2007" by code_simp
  show ?thesis unfolding Let_def using h unfolding z e by simp
qed


end
