(* ===== verification/Globals_Kept.thy ===== *)
theory Globals_Kept
  imports Cloning
begin

text \<open>
  The allocator and the functions that copy tables keep the globals they do not own: the page
  directories, the processor's registers, and whatever the state has been extended with.
\<close>

definition kept :: "'a kmem \<Rightarrow> 'a kmem \<Rightarrow> bool" where
  "kept s t \<longleftrightarrow> kernel_memory.more t = kernel_memory.more s \<and> if_flag t = if_flag s \<and> vm_page_dir t = vm_page_dir s
     \<and> cur_vm_page_dir t = cur_vm_page_dir s \<and> cr3 t = cr3 s \<and> cr0 t = cr0 s"

named_theorems kept_intros

lemma kept_refl [simp, kept_intros]: "kept s s"
  by (simp add: kept_def)

lemma kept_trans: "kept s t \<Longrightarrow> kept t u \<Longrightarrow> kept s u"
  by (simp add: kept_def)

lemma kept_registers: "same_registers s t \<Longrightarrow> kept s t"
  by (simp add: same_registers_def kept_def)

lemma kept_setters [simp]:
  "kept s (poke a v t) = kept s t" "kept s (poke8 a b t) = kept s t" "kept s (set_heap h t) = kept s t"
  "kept s (t\<lparr>mem := m\<rparr>) = kept s t" "kept s (t\<lparr>placement_address := p\<rparr>) = kept s t" "kept s (fill a v n t) = kept s t"
  "kept s (alloc_frame p i w t) = kept s t" "kept s (free_frame p t) = kept s t" "kept s (copy_page_phy a d t) = kept s t"
  "kept s (kprintf f as t) = kept s t"
  by (simp_all add: kept_def set_heap_def copy_page_phy_def)

lemma kept_headers [simp]:
  "kept s (set_magic h v t) = kept s t" "kept s (set_size h v t) = kept s t" "kept s (set_is_hole h b t) = kept s t"
  "kept s (set_footer_magic h v t) = kept s t" "kept s (set_footer_header h v t) = kept s t"
  by (simp_all add: set_magic_def set_size_def set_is_hole_def set_footer_magic_def set_footer_header_def)

lemma kept_if [simp]: "kept s (if b then t else u) = (if b then kept s t else kept s u)"
  by simp

lemma kept_cong: "kept t u \<Longrightarrow> kept s u = kept s t"
  by (auto simp: kept_def)

lemma heap_insert_kept: "heap_insert x v = Inr t \<Longrightarrow> \<forall>s. kept s t = kept s v"
  by (auto simp: heap_insert_def ebind_Inr_iff)

lemma heap_remove_kept: "heap_remove x v = Inr t \<Longrightarrow> \<forall>s. kept s t = kept s v"
  by (auto simp: heap_remove_def ebind_Inr_iff)

definition keeping :: "'a ap_allocator \<Rightarrow> bool" where
  "keeping mal \<longleftrightarrow> (\<forall>n s a p t. mal n s = Inr (a, p, t) \<longrightarrow> kept s t)"

lemma get_page_kept:
  assumes "keeping mal" and "get_page mal a c d s = Inr (p, t)"
  shows "kept s t"
proof (cases "peek s (table_slot d (a div 0x1000 div 1024)) \<noteq> 0 \<or> c = 0")
  case True
  then show ?thesis using assms(2) by (auto simp: get_page_def Let_def split: if_splits)
next
  case False
  then obtain table phy u where u: "mal 0x1000 s = Inr (table, phy, u)" and "kept s t = kept s u"
    using assms(2) by (auto simp: get_page_def Let_def ebind_Inr_iff)
  then show ?thesis using assms(1) u unfolding keeping_def by blast
qed

lemma expand_loop_kept:
  "expand_loop mal new_sz i s = Some r \<Longrightarrow> keeping mal \<longrightarrow> (\<forall>t. r = Inr t \<longrightarrow> kept s t)"
proof (induction mal new_sz i s r rule: expand_loop.raw_induct [rotated, consumes 1])
  case (1 rec mal new_sz i s r)
  show ?case
  proof (intro impI allI)
    fix t
    assume m: "keeping mal" and r: "r = Inr t"
    show "kept s t"
    proof (cases "i < new_sz")
      case False
      then show ?thesis using 1(2) r by simp
    next
      case True
      then obtain p u i' w' where g: "get_page mal (start_address (heap s) + i) 1 (vm_page_dir s) s = Inr (p, u)"
        and rec: "rec mal new_sz (i + 0x1000) (alloc_frame p i' w' u) = Some (Inr t)"
        using 1(2) r by (auto split: sum.splits)
      have "kept s u" using m g by (rule get_page_kept)
      then have "kept s (alloc_frame p i' w' u)" by simp
      moreover have "kept (alloc_frame p i' w' u) t" using 1(1) [OF rec] m by simp
      ultimately show ?thesis by (rule kept_trans)
    qed
  qed
qed

lemma expand_kept:
  assumes "keeping mal" and "expand mal k s = Inr t"
  shows "kept s t"
proof -
  obtain u where "expand_loop mal (round_size k) (end_address (heap s) - start_address (heap s)) s = Some (Inr u)"
    and t: "kept s t = kept s u"
    using assms(2) by (auto simp: expand_def Let_def ebind_Inr_iff split: option.splits)
  then show ?thesis using expand_loop_kept assms(1) by blast
qed

lemma grow_heap_kept:
  assumes "keeping mal" and "grow_heap mal k s = Inr t"
  shows "kept s t"
proof -
  obtain u where e: "expand mal (end_address (heap s) - start_address (heap s) + k) s = Inr u" and t: "\<forall>s. kept s t = kept s u"
    using assms(2) by (auto simp: grow_heap_def Let_def ebind_Inr_iff dest!: heap_insert_kept split: if_splits)
  then show ?thesis using expand_kept [OF assms(1) e] by simp
qed

lemma kept_two_stages:
  assumes "ebind x g = Inr (p, t)" and "\<And>q k u. x = Inr (q, k, u) \<Longrightarrow> kept s u"
    and "\<And>q k u. g (q, k, u) = Inr (p, t) \<Longrightarrow> kept u t"
  shows "kept s t"
proof -
  obtain v where v: "x = Inr v" "g v = Inr (p, t)" using assms(1) by (auto simp: ebind_Inr_iff)
  obtain q k u where "v = (q, k, u)" by (cases v)
  with v assms(2,3) kept_trans show ?thesis by blast
qed

lemma insert_or_not_kept:
  assumes "ebind (if b then heap_insert h v else Inr u) (\<lambda>s. Inr (a, s)) = Inr (p, t)" and "kept s v" and "kept s u"
  shows "kept s t"
  using assms heap_insert_kept by (fastforce simp: ebind_Inr_iff split: if_splits)

lemma take_hole_kept:
  assumes "take_hole sz new_sz pa iter s = Inr (p, t)"
  shows "kept s t"
proof -
  obtain pos where pos: "heap_find iter s = Inr pos"
    using assms unfolding take_hole_def ebind_Inr_iff by blast
  show ?thesis
    using assms unfolding take_hole_def pos ebind_simps Let_def
  proof (rule kept_two_stages, goal_cases)
    case (1 q k u)
    then show ?case by (auto simp: ebind_Inr_iff dest: heap_remove_kept split: if_split_asm)
  next
    case (2 q k u)
    then show ?case unfolding prod.case by (rule insert_or_not_kept) simp_all
  qed
qed


lemma malloc_over_kept:
  assumes "\<And>sz pa s p t. self sz pa s = Inr (p, t) \<Longrightarrow> kept s t" and "malloc_over self m al want s = Inr (a, p, t)"
  shows "kept s t"
proof (cases "kheap s = None")
  case True
  then show ?thesis using assms(2) by (auto simp: malloc_over_def Let_def)
next
  case False
  then obtain b u where u: "self m al s = Inr (b, u)" and "t = u"
    using assms(2) by (auto simp: malloc_over_def ebind_Inr_iff split: if_splits dest!: find_page_same)
  then show ?thesis using assms(1) by blast
qed

lemma alloc_kept:
  fixes s :: "'a kmem"
  shows "alloc n sz pa s = Inr (p, t) \<Longrightarrow> kept s t"
proof (induction n arbitrary: sz pa s p t)
  case (Suc n)
  have k: "keeping (\<lambda>m_size. malloc_over (alloc n :: u32 \<Rightarrow> u8 \<Rightarrow> 'a kmem \<Rightarrow> fault + (u32 \<times> 'a kmem)) m_size 1 True)"
    unfolding keeping_def
  proof (intro allI impI)
    fix m and u v :: "'a kmem" and a q
    assume "malloc_over (alloc n) m 1 True u = Inr (a, q, v)"
    then show "kept u v" by (rule malloc_over_kept [rotated]) (rule Suc.IH)
  qed
  from Suc.prems obtain iter where
    "(if iter = - 1 then ebind (grow_heap (\<lambda>m_size. malloc_over (alloc n) m_size 1 True) (sz + sizeof_header + sizeof_footer) s)
        (\<lambda>s. alloc n sz pa s) else take_hole sz (sz + sizeof_header + sizeof_footer) pa iter s) = Inr (p, t)"
    by (auto simp: alloc_body_def Let_def ebind_Inr_iff)
  then show ?case
    using grow_heap_kept [OF k] Suc.IH take_hole_kept kept_trans by (fastforce simp: ebind_Inr_iff split: if_splits)
qed simp

lemma k_malloc_kept: "k_malloc n m al want s = Inr (a, p, t) \<Longrightarrow> kept s t"
  unfolding k_malloc_def using alloc_kept by (rule malloc_over_kept)

lemma malloc_kept:
  "malloc_s n m s = Inr (a, t) \<Longrightarrow> kept s t"
  "malloc_a n m s = Inr (a, t) \<Longrightarrow> kept s t"
  "malloc_ap n m s = Inr (a, p, t) \<Longrightarrow> kept s t"
  by (auto simp: malloc_s_def malloc_a_def malloc_ap_def ebind_Inr_iff dest: k_malloc_kept)

lemma malloc_ap_keeping: "keeping (malloc_ap n)"
  unfolding keeping_def using malloc_kept(3) by blast

lemma entry_setters_kept [simp]:
  "kept s (set_valid p v t) = kept s t" "kept s (set_rw p v t) = kept s t" "kept s (set_user p v t) = kept s t"
  "kept s (set_accessed p v t) = kept s t" "kept s (set_dirty p v t) = kept s t"
  by (simp_all add: set_valid_def set_rw_def set_user_def set_accessed_def set_dirty_def)

lemma clone_entry_kept [simp]: "kept s (clone_entry src table i t) = kept s t"
  by (simp add: clone_entry_def Let_def)

lemma clone_entries_kept: "kept s (fold (clone_entry src table) is t) = kept s t"
  by (induction "is" arbitrary: t) simp_all

lemma clone_table_kept: "clone_table n src s = Inr (a, p, t) \<Longrightarrow> kept s t"
  by (auto simp: clone_table_def ebind_Inr_iff clone_entries_kept dest: malloc_kept(3))

lemma clone_dir_loop_kept: "clone_dir_loop n src d is s = Inr t \<Longrightarrow> kept s t"
proof (induction "is" arbitrary: s)
  case (Cons i "is")
  show ?case
  proof (cases "peek s (table_slot src i) = 0 \<or> peek s (table_slot (vm_page_dir s) i) = peek s (table_slot src i)")
    case True
    then obtain v where v: "clone_dir_loop n src d is v = Inr t" "kept s v"
      using Cons.prems by (cases "peek s (table_slot src i) = 0") (auto simp: Let_def)
    from kept_trans [OF v(2) Cons.IH [OF v(1)]] show ?thesis .
  next
    case False
    then obtain a p u where u: "clone_table n (peek s (table_slot src i)) s = Inr (a, p, u)"
      and t: "clone_dir_loop n src d is (poke (phy_slot d i) (p OR 0x07) (poke (table_slot d i) a u)) = Inr t"
      using Cons.prems by (auto simp: Let_def ebind_Inr_iff)
    have "kept s (poke (phy_slot d i) (p OR 0x07) (poke (table_slot d i) a u))" using clone_table_kept [OF u] by simp
    from kept_trans [OF this Cons.IH [OF t]] show ?thesis .
  qed
qed simp

lemma clone_dir_kept:
  assumes "clone_dir n src s = Inr (d, t)"
  shows "kept s t"
proof -
  obtain p u where u: "malloc_ap n 0x2004 s = Inr (d, p, u)"
    and t: "clone_dir_loop n src d indices (poke (dir_phy_slot d) (p + 0x1000) (fill d 0 0x2004 u)) = Inr t"
    using assms by (auto simp: clone_dir_def Let_def ebind_Inr_iff)
  have "kept s (poke (dir_phy_slot d) (p + 0x1000) (fill d 0 0x2004 u))" using malloc_kept(3) [OF u] by simp
  from kept_trans [OF this clone_dir_loop_kept [OF t]] show ?thesis .
qed

end
