(* ===== verification/Heap_Front.thy ===== *)
theory Heap_Front
  imports Heap_Aligned Globals_Kept
begin

text \<open>
  One allocation after the other from the heap that \<open>init_paging\<close> leaves: as long as the large rest of the first hole
  is listed first, each block is cut from it, and the new rest is again listed first. This is what the calls of
  \<open>main\<close> after \<open>init_paging\<close> meet.
\<close>

section \<open>The hole that is listed first\<close>

text \<open>
  The index of the heap at 0xC0000000 lists first the hole at \<open>hp\<close>, of \<open>T\<close> bytes, which reaches the end of the heap
  (and past it, by 12 bytes for every aligned block). At most \<open>c\<close> blocks have been cut.
\<close>

definition heap_front :: "nat \<Rightarrow> u32 \<Rightarrow> nat \<Rightarrow> 'a kmem \<Rightarrow> bool" where
  "heap_front c hp T s \<longleftrightarrow> kheap s \<noteq> None \<and> end_address (heap s) = 0xC0100000
     \<and> array (index (heap s)) = 0xC0000000 \<and> cmp_fun (index (heap s)) = header_cmp_less
     \<and> cur (index (heap s)) \<noteq> 0 \<and> unat (cur (index (heap s))) \<le> c \<and> 0x20000 \<le> capacity s + c \<and> capacity s \<le> 0x20000
     \<and> peek s 0xC0000000 = hp \<and> unat (header_size s hp) = T
     \<and> 0xC0080000 \<le> unat hp \<and> 0xC0100000 \<le> unat hp + T \<and> unat hp + T \<le> 0xC0100000 + 12 * c"

lemma heap_front_cong:
  assumes "heap_front c hp T s" and "kheap t = kheap s"
    and "\<And>x. 0xC0000000 \<le> unat x \<Longrightarrow> unat x < 0xC0000004 \<Longrightarrow> mem t x = mem s x"
    and "\<And>x. unat hp + 8 \<le> unat x \<Longrightarrow> unat x < unat hp + 12 \<Longrightarrow> mem t x = mem s x" and "unat hp \<le> 0xC00F0000"
  shows "heap_front c hp T t"
proof -
  have "peek t 0xC0000000 = peek s 0xC0000000"
    by (intro peek_cong assms(3)) (simp_all add: in_range_interval)
  moreover have "header_size t hp = header_size s hp"
  proof -
    have "unat (hp + 8) = unat hp + 8" using assms(5) by (simp add: unat_word_ariths)
    then show ?thesis
      unfolding header_size_def using assms(5) by (intro peek_cong assms(4)) (simp_all add: in_range_interval)
  qed
  ultimately show ?thesis using assms(1) kheap_heap [OF assms(2)] by (simp add: heap_front_def capacity_def assms(2))
qed

lemma front_word:
  assumes "heap_front c hp T s" and "c < 0x1000"
  shows "index_words s ! 0 = hp" and "0 < capacity s"
proof -
  have c: "0 < capacity s" "peek s (array (index (heap s))) = hp" using assms by (auto simp: heap_front_def)
  then show "0 < capacity s" by simp
  show "index_words s ! 0 = hp"
    using slots_nth [of 0 "capacity s" "mem s" "index (heap s)"] c by (simp add: index_words_def slot_def peek_def)
qed

lemma front_fits:
  assumes "heap_front c hp T s" and "c < 0x1000" and "unat sz + 20 \<le> T" and "pa = 0 \<or> \<not> low_bit_set (hp + 12)"
  shows "first_fit (sz + 20) pa s = Some 0"
proof -
  have T: "unat (header_size s hp) = T" using assms(1) by (simp add: heap_front_def)
  then have "T < 2 ^ 32" using unat_u32_lt [of "header_size s hp"] by simp
  then have "unat (sz + 20) = unat sz + 20" using assms(3) by (simp add: unat_word_ariths)
  then show ?thesis
    using front_word [OF assms(1,2)] assms(3,4) T by (auto simp: first_fit_Some hole_fits_def Let_def sizeof_header_def word_le_nat_alt)
qed

lemma front_index:
  assumes "slots (mem t) (index (heap t)) (unat (cur (index (heap t)))) = x # xs" and "array (index (heap t)) = 0xC0000000"
  shows "peek t 0xC0000000 = x"
proof -
  have "0 < unat (cur (index (heap t)))" using assms(1) by (metis length_slots length_greater_0_conv list.distinct(1))
  then show ?thesis
    using slots_nth [of 0 "unat (cur (index (heap t)))" "mem t" "index (heap t)"] assms by (simp add: slot_def peek_def)
qed

section \<open>Cutting the next block\<close>

lemma set_heap_shape:
  assumes "t = set_heap h (s\<lparr>mem := mem t\<rparr>)"
  shows "t = s\<lparr>mem := mem t, kheap := kheap t\<rparr>"
proof -
  note t = assms [unfolded set_heap_def]
  have "kheap t = Some h" by (subst t) simp
  then show ?thesis using t by (rule ssubst)
qed

lemma front_off_index:
  assumes "heap_front c hp T s" and "c < 0x1000" and "in_range hp T x"
  shows "\<not> in_range (array (index (heap s))) (4 * capacity s) x" and "unat hp \<le> unat x" "unat x < unat hp + T"
proof -
  have h: "array (index (heap s)) = 0xC0000000" "capacity s \<le> 0x20000" "0xC0080000 \<le> unat hp" "unat hp + T < 2 ^ 32"
    using assms(1,2) by (simp_all add: heap_front_def)
  then show x: "unat hp \<le> unat x" "unat x < unat hp + T" using assms(3) by (simp_all add: in_range_interval)
  then show "\<not> in_range (array (index (heap s))) (4 * capacity s) x" using h by (simp add: in_range_interval)
qed

lemma front_unaligned:
  fixes s :: "'a kmem"
  assumes f: "heap_front c hp T s" and c: "c < 0x1000" and S: "S = unat sz" "S \<le> 0x20000" and room: "unat hp + S \<le> 0xC00A0000"
  obtains t where "alloc (Suc n) sz 0 s = Inr (off hp 12, t)" and "heap_front (Suc c) (off hp (S + 20)) (T - (S + 20)) t"
    and "t = s\<lparr>mem := mem t, kheap := kheap t\<rparr>"
    and "\<And>x. unat x < 0xC0000000 \<or> 0xC0080000 \<le> unat x \<and> unat x < unat hp \<or> unat hp + 12 \<le> unat x \<and> unat x < unat hp + S + 12
      \<or> unat hp + S + 32 \<le> unat x \<and> unat x < 0xC00C0000 \<or> 0xC0110000 \<le> unat x \<Longrightarrow> mem t x = mem s x"
proof -
  let ?a = "index (heap s)"
  have h: "array ?a = 0xC0000000" "cmp_fun ?a = header_cmp_less" "cur ?a \<noteq> 0" "unat (cur ?a) \<le> c" "0x20000 \<le> capacity s + c"
    "capacity s \<le> 0x20000" "unat (header_size s hp) = T" "0xC0080000 \<le> unat hp" "0xC0100000 \<le> unat hp + T"
    "unat hp + T \<le> 0xC0100000 + 12 * c" "end_address (heap s) = 0xC0100000"
    using f by (simp_all add: heap_front_def)
  have T: "S + 60 \<le> T" "2 * S + 80 \<le> T" "T < 0x90000" "unat hp + T < 0xC0110000" using h c S room by linarith+
  have fit: "first_fit (sz + 20) 0 s = Some 0" using T S by (intro front_fits [OF f c]) simp_all
  have "0 < unat (cur ?a)" using h(3) by (simp add: unat_gt_0)
  then have cs: "can_split sz 0 s"
    using front_word [OF f c] h c T S fit front_off_index(1) [OF f c] by (simp add: can_split_def Let_def)
  have ft: "T - (S + 20) + 8 \<le> S + 20 \<or> S + 40 \<le> T - (S + 20)" using T(2) by arith
  obtain t where t: "alloc (Suc n) sz 0 s = Inr (off hp 12, t)" "unat (header_size t (off hp (S + 20))) = T - (S + 20)"
    "slots (mem t) (index (heap t)) (unat (cur (index (heap t)))) =
        off hp (S + 20) # take 0 (index_words s) @ drop (0 + 1) (take (unat (cur ?a) + 1) (index_words s))"
    "capacity t = capacity s - 1"
    "\<And>x. \<not> in_range hp T x \<Longrightarrow> \<not> in_range (array ?a) (4 * capacity s) x \<Longrightarrow> mem t x = mem s x"
    "\<And>i. (12 \<le> i \<and> i < S + 12 \<or> S + 32 \<le> i) \<Longrightarrow> i + S + 28 < T \<Longrightarrow> mem t (off hp i) = mem s (off hp i)"
    "t = set_heap ((heap s)\<lparr>index := ?a\<lparr>arr_size := arr_size ?a - 1, cur := cur ?a + 1\<rparr>\<rparr>) (s\<lparr>mem := mem t\<rparr>)"
    using alloc_split_result [OF cs front_word(1) [OF f c, symmetric] S(1) h(7) [symmetric] ft, of n] by blast
  have hp: "heap t = (heap s)\<lparr>index := ?a\<lparr>arr_size := arr_size ?a - 1, cur := cur ?a + 1\<rparr>\<rparr>" "kheap t \<noteq> None"
    by (subst t(7), simp)+
  have cn: "unat (cur ?a + 1) = unat (cur ?a) + 1" using h(4) c by (simp add: unat_word_ariths)
  have uo: "unat (off hp (S + 20)) = unat hp + S + 20" using room by (subst unat_off) simp_all
  have pk: "peek t 0xC0000000 = off hp (S + 20)" by (rule front_index [OF t(3)]) (simp add: hp h)
  show ?thesis
  proof (rule that [OF t(1)])
    show "heap_front (Suc c) (off hp (S + 20)) (T - (S + 20)) t"
    proof -
      have "0x20000 \<le> capacity s - 1 + Suc c" "capacity s - 1 \<le> 0x20000" using h(5,6) by arith+
      then show ?thesis
        using hp h t(2,4) pk T(1) by (simp add: heap_front_def cn uo unat_eq_zero [symmetric] del: unat_eq_zero)
    qed
    show "t = s\<lparr>mem := mem t, kheap := kheap t\<rparr>" by (rule set_heap_shape [OF t(7)])
    fix x :: u32
    assume x: "unat x < 0xC0000000 \<or> 0xC0080000 \<le> unat x \<and> unat x < unat hp \<or> unat hp + 12 \<le> unat x \<and> unat x < unat hp + S + 12
      \<or> unat hp + S + 32 \<le> unat x \<and> unat x < 0xC00C0000 \<or> 0xC0110000 \<le> unat x"
    show "mem t x = mem s x"
    proof (cases "in_range hp T x")
      case True
      note b = front_off_index(2,3) [OF f c True]
      obtain i where i: "unat x = unat hp + i" using b(1) le_Suc_ex by blast
      have o: "off hp i = x" using i unat_u32_lt [of x] by (simp add: word_unat_eq_iff unat_off)
      have "mem t (off hp i) = mem s (off hp i)" by (rule t(6)) (use x b i h(8,9) S(2) T in arith)+
      then show ?thesis by (simp only: o)
    next
      case False
      then show ?thesis using x h(1,6,8) T(4) by (intro t(5)) (auto simp: in_range_interval)
    qed
  qed
qed

lemma front_aligned:
  fixes s :: "'a kmem"
  assumes f: "heap_front c hp T s" and c: "c < 0x1000" and S: "S = unat sz" "S \<le> 0x20000" and room: "unat hp + S + 0x1000 \<le> 0xC00A0000"
    and al: "(hp + 12) AND 0xFFF \<noteq> 0" "\<not> low_bit_set (hp + 12)" "G = gap hp" "20 \<le> G"
  obtains t where "alloc (Suc n) sz 1 s = Inr (off hp (G + 12), t)" and "heap_front (Suc c) (off hp (G + S + 20)) (T - (G - 12) - (S + 20)) t"
    and "t = s\<lparr>mem := mem t, kheap := kheap t\<rparr>"
    and "\<And>x. unat x < 0xC0000000 \<or> 0xC0080000 \<le> unat x \<and> unat x < unat hp \<or> unat hp + G + 12 \<le> unat x \<and> unat x < unat hp + G + S + 12
      \<or> unat hp + G + S + 32 \<le> unat x \<and> unat x < 0xC00C0000 \<or> 0xC0110000 \<le> unat x \<Longrightarrow> mem t x = mem s x"
proof -
  let ?a = "index (heap s)" and ?T = "T - (G - 12)"
  have h: "array ?a = 0xC0000000" "cmp_fun ?a = header_cmp_less" "cur ?a \<noteq> 0" "unat (cur ?a) \<le> c" "0x20000 \<le> capacity s + c"
    "capacity s \<le> 0x20000" "unat (header_size s hp) = T" "0xC0080000 \<le> unat hp" "0xC0100000 \<le> unat hp + T"
    "unat hp + T \<le> 0xC0100000 + 12 * c" "end_address (heap s) = 0xC0100000"
    using f by (simp_all add: heap_front_def)
  have G: "G \<le> 0x1000" by (simp add: al(3) gap_le)
  have T: "G + S + 60 \<le> T" "2 * S + G + 80 \<le> T" "T < 0x90000" "unat hp + T < 0xC0110000" using h c S room G by linarith+
  have fit: "first_fit (sz + 20) 1 s = Some 0" using T S al(2) by (intro front_fits [OF f c]) simp_all
  have cs: "can_align sz 0 s"
    using front_word [OF f c] h c T S fit al front_off_index(1) [OF f c] by (simp add: can_align_def Let_def)
  have ft: "?T - (S + 20) + 8 \<le> S + 20 \<or> S + 40 \<le> ?T - (S + 20)" using T(2) by arith
  obtain t where t: "alloc (Suc n) sz 1 s = Inr (off hp (G + 12), t)"
    "G + S + 20 + unat (header_size t (off hp (G + S + 20))) = T + 12"
    "slots (mem t) (index (heap t)) (unat (cur (index (heap t)))) = off hp (G + S + 20) # take (unat (cur ?a)) (index_words s)"
    "capacity t = capacity s"
    "\<And>x. \<not> in_range hp T x \<Longrightarrow> \<not> in_range (array ?a) (4 * capacity s) x \<Longrightarrow> mem t x = mem s x"
    "\<And>i. G + S + 32 \<le> i \<and> i + S + 16 < T \<or> G + 12 \<le> i \<and> i < G + S + 12 \<and> i + S + 16 < T \<Longrightarrow> mem t (off hp i) = mem s (off hp i)"
    "t = set_heap ((heap s)\<lparr>index := ?a\<lparr>cur := cur ?a + 1\<rparr>\<rparr>) (s\<lparr>mem := mem t\<rparr>)"
    using alloc_aligned_result [OF cs front_word(1) [OF f c, symmetric] al(3) S(1) h(7) [symmetric] ft, of n] by blast
  have hp: "heap t = (heap s)\<lparr>index := ?a\<lparr>cur := cur ?a + 1\<rparr>\<rparr>" "kheap t \<noteq> None"
    by (subst t(7), simp)+
  have cn: "unat (cur ?a + 1) = unat (cur ?a) + 1" using h(4) c by (simp add: unat_word_ariths)
  have uo: "unat (off hp (G + S + 20)) = unat hp + G + S + 20" using room G by (subst unat_off) simp_all
  have pk: "peek t 0xC0000000 = off hp (G + S + 20)" by (rule front_index [OF t(3)]) (simp add: hp h)
  show ?thesis
  proof (rule that [OF t(1)])
    show "heap_front (Suc c) (off hp (G + S + 20)) (?T - (S + 20)) t"
    proof -
      have "unat (header_size t (off hp (G + S + 20))) = ?T - (S + 20)" using t(2) al(4) T(1) by arith
      moreover have "unat hp + G + S + 20 + (?T - (S + 20)) = unat hp + T + 12" using T(1) al(4) by arith
      ultimately show ?thesis
        using hp h t(4) pk by (simp add: heap_front_def cn uo unat_eq_zero [symmetric] del: unat_eq_zero)
    qed
    show "t = s\<lparr>mem := mem t, kheap := kheap t\<rparr>" by (rule set_heap_shape [OF t(7)])
    fix x :: u32
    assume x: "unat x < 0xC0000000 \<or> 0xC0080000 \<le> unat x \<and> unat x < unat hp \<or> unat hp + G + 12 \<le> unat x \<and> unat x < unat hp + G + S + 12
      \<or> unat hp + G + S + 32 \<le> unat x \<and> unat x < 0xC00C0000 \<or> 0xC0110000 \<le> unat x"
    show "mem t x = mem s x"
    proof (cases "in_range hp T x")
      case True
      note b = front_off_index(2,3) [OF f c True]
      obtain i where i: "unat x = unat hp + i" using b(1) le_Suc_ex by blast
      have o: "off hp i = x" using i unat_u32_lt [of x] by (simp add: word_unat_eq_iff unat_off)
      have "mem t (off hp i) = mem s (off hp i)" by (rule t(6)) (use x b i h(8,9) S(2) T in arith)
      then show ?thesis by (simp only: o)
    next
      case False
      then show ?thesis using x h(1,6,8) T(4) by (intro t(5)) (auto simp: in_range_interval)
    qed
  qed
qed

end
