(* ===== verification/Paging_Start.thy ===== *)
theory Paging_Start
  imports Heap_Front
begin

text \<open>
  \<open>init_paging\<close> of \<open>src/src/page.c\<close> as a whole: the tables, the heap of \<open>src/src/kheap.c\<close> on the pages they map,
  and the copy of the kernel's directory, cut from that heap, to which the processor is switched.
\<close>

section \<open>What the heap's writes leave alone\<close>

lemma peek_within:
  assumes "\<And>x. unat D \<le> unat x \<Longrightarrow> unat x < unat D + n \<Longrightarrow> mem t x = mem s x" and "c + 4 \<le> n" and "unat D + n \<le> 2 ^ 32"
  shows "peek t (off D c) = peek s (off D c)"
proof (rule peek_cong)
  fix x assume x: "in_range (off D c) 4 x"
  have "unat (off D c) = unat D + c" using assms(2,3) by (intro unat_off) simp
  then show "mem t x = mem s x" using x assms(2,3) by (intro assms(1)) (simp_all add: in_range_interval)
qed

lemma kernel_tables_within:
  assumes "kernel_tables D N s" and "\<And>x. unat D \<le> unat x \<Longrightarrow> unat x < unat D + 0x6000 \<Longrightarrow> mem t x = mem s x"
    and "vm_page_dir t = vm_page_dir s" and "placement_address t = placement_address s"
  shows "kernel_tables D N t"
proof -
  have d: "unat D + 0x6000 = N * 0x1000" "N \<le> 1024" using assms(1) by (simp_all add: kernel_tables_def)
  have k: "peek t (off D c) = peek s (off D c)" if "c + 4 \<le> 0x6000" for c
  proof (rule peek_within [OF assms(2) that])
    show "unat D + 0x6000 \<le> 2 ^ 32" using d by simp
  qed
  have "peek t (page_entry (off D 0x5000) j) = peek s (page_entry (off D 0x5000) j)" if "j < N" for j
    using k [of "0x5000 + 4 * j"] that d(2) by (simp add: off_off)
  moreover have "peek t (page_entry (off D 0x3000) j) = peek s (page_entry (off D 0x3000) j)" if "j < 256" for j
    using k [of "0x3000 + 4 * j"] that by (simp add: off_off)
  moreover have "peek t (off D (4 * i)) = peek s (off D (4 * i))" if "i < 1024" for i
    using k [of "4 * i"] that by simp
  ultimately show ?thesis using assms(1,3,4) k [of 0] k [of "0xC00"] k [of "0x1000"] k [of "0x1C00"] k [of "0x2000"]
    by (simp add: kernel_tables_def)
qed

lemma kernel_tables_cong:
  assumes "kernel_tables D N s" and "\<And>x. unat x < 0x400000 \<Longrightarrow> mem t x = mem s x"
    and "vm_page_dir t = vm_page_dir s" and "placement_address t = placement_address s"
  shows "kernel_tables D N t"
proof (rule kernel_tables_within [OF assms(1) _ assms(3,4)])
  have "unat D + 0x6000 = N * 0x1000" "N \<le> 1024" using assms(1) by (simp_all add: kernel_tables_def)
  then show "mem t x = mem s x" if "unat x < unat D + 0x6000" for x using that by (intro assms(2)) linarith
qed

lemma frame_set_cong:
  assumes "frames t = frames s" and "frames_bitmap_size t = frames_bitmap_size s"
    and "\<And>i. i < unat (frames_bitmap_size s) \<Longrightarrow> mem t (frames s + of_nat i) = mem s (frames s + of_nat i)"
  shows "frame_set t = frame_set s"
proof -
  have "frame_count t = frame_count s" by (simp add: frame_count_def assms(2))
  then show ?thesis using used_cong [OF assms(3,1)] by (auto simp: frame_set_def)
qed

section \<open>The first blocks of the heap\<close>

text \<open>The heap right after \<open>create_heap\<close>.\<close>

definition fresh_heap :: "'a kmem \<Rightarrow> bool" where
  "fresh_heap s \<longleftrightarrow> (\<exists>h. kheap s = Some h \<and> end_address h = 0xC0100000
     \<and> index h = \<lparr>array = 0xC0000000, arr_size = 0x20000, cur = 1, cmp_fun = header_cmp_less\<rparr>
     \<and> slots (mem s) (index h) 0x20000 = 0xC0080000 # replicate 0x1FFFF 0) \<and> header_size s 0xC0080000 = 0x80000"

lemma fresh_aligned:
  assumes "fresh_heap s" and "unat sz \<le> 0x10000"
  shows "can_align sz 0 s" and "index_words s ! 0 = 0xC0080000" and "gap 0xC0080000 = 0xFF4"
proof -
  have g: "(0xC0080000 + 12 :: u32) AND 0xFFF = 12" by code_simp
  then show gap: "gap 0xC0080000 = 0xFF4" by (simp add: gap_def)
  have h: "index (heap s) = \<lparr>array = 0xC0000000, arr_size = 0x20000, cur = 1, cmp_fun = header_cmp_less\<rparr>"
    "index_words s = 0xC0080000 # replicate 0x1FFFF 0" and sz: "header_size s 0xC0080000 = 0x80000"
    using assms(1) by (auto simp: fresh_heap_def heap_def index_words_def capacity_def)
  have cap: "capacity s = 0x20000" by (simp add: capacity_def h)
  show w: "index_words s ! 0 = 0xC0080000" by (simp add: h)
  have n: "unat (sz + 20) = unat sz + 20" using assms(2) by (simp add: unat_word_ariths)
  have "\<not> low_bit_set 0xC008000C" by code_simp
  then have fit: "first_fit (sz + 20) 1 s = Some 0"
    using assms(2) n by (simp add: first_fit_Some cap w hole_fits_def Let_def sizeof_header_def sz word_le_nat_alt)
  have ap: "apart 0xC0000000 0x80000 0xC0080000 0x80000" by (simp add: apart_def)
  have "\<not> in_range 0xC0000000 0x80000 x" if "in_range 0xC0080000 0x80000 x" for x
    using ap that by (rule apart_in_range)
  then show "can_align sz 0 s"
    using assms(2) fit g gap by (simp add: can_align_def Let_def h(1) cap w sz)
qed

lemma fresh_front:
  assumes "fresh_heap s"
  shows "heap_front 1 0xC0080000 0x80000 s"
proof -
  obtain h where h: "kheap s = Some h" "end_address h = 0xC0100000"
    "index h = \<lparr>array = 0xC0000000, arr_size = 0x20000, cur = 1, cmp_fun = header_cmp_less\<rparr>"
    "slots (mem s) (index h) 0x20000 = 0xC0080000 # replicate 0x1FFFF 0" and z: "header_size s 0xC0080000 = 0x80000"
    using assms by (auto simp: fresh_heap_def)
  have "peek s 0xC0000000 = 0xC0080000"
    using slots_nth [of 0 "0x20000" "mem s" "index h"] h(3,4) by (simp add: slot_def peek_def)
  then show ?thesis using h z by (simp add: heap_front_def heap_def capacity_def)
qed

text \<open>Where the heap's pages are: \<open>find_page\<close> reads the entry of the table the heap got first.\<close>

lemma heap_page_frame:
  assumes "kernel_tables D N s" and "i < 256" and "r < 0x1000" and E: "peek s (table_slot E 768) = off D 0x3000"
  shows "\<exists>page. find_page (off KHEAP_START (i * 0x1000 + r)) E s = Inr (page, s) \<and> frame_of (peek s page) = of_nat (N + i)"
proof -
  let ?a = "off KHEAP_START (i * 0x1000 + r)"
  have ua: "unat ?a = (768 * 1024 + i) * 0x1000 + r" using assms(2,3) by (subst unat_off) (simp_all add: KHEAP_START_def)
  have q: "unat ?a div 0x1000 = 768 * 1024 + i" unfolding ua using assms(3) by simp
  then have i1: "?a div 0x1000 div 1024 = 768" using assms(2)
    by (intro word_unat_eq_iff [THEN iffD2]) (simp add: unat_div)
  have "unat ?a div 0x1000 mod 1024 = i" unfolding q using assms(2) by (simp only: mod_mult_self3) simp
  then have i2: "?a div 0x1000 mod 1024 = of_nat i"
    using assms(2) by (intro word_unat_eq_iff [THEN iffD2]) (simp add: unat_div unat_mod unat_of_nat_small)
  have k: "peek s (table_slot E 768) = off D 0x3000" "peek s (page_entry (off D 0x3000) i) = entry_word 0 0 1 (of_nat (N + i))"
    "unat D + 0x6000 = N * 0x1000" "N \<le> 1024"
    using assms(1,2) E by (simp_all add: kernel_tables_def)
  have "unat (off D 0x3000) \<noteq> 0" using k(3,4) by (simp add: unat_off)
  then have "off D 0x3000 \<noteq> 0" by auto
  then have "find_page ?a E s = Inr (page_entry (off D 0x3000) i, s)"
    unfolding find_page_def using get_page_finds [of s E ?a] k(1) assms(2) by (simp add: i1 i2 slot_of_nat)
  moreover have "take_bit 20 (of_nat (N + i) :: u32) = of_nat (N + i)"
    using k(4) assms(2) by (intro take_bit_small) (simp add: unat_of_nat_small del: of_nat_add)
  ultimately show ?thesis using k(2) by (simp add: entry_word_fields)
qed

lemma fresh_directory:
  fixes s :: "'a kmem"
  assumes f: "fresh_heap s" and k: "kernel_tables D N s" and d: "cur_vm_page_dir s = D"
  obtains t where "malloc_ap (Suc n) 0x2004 s = Inr (0xC0081000, of_nat (N + 0x81) * 0x1000, t)"
    and "t = set_heap ((heap s)\<lparr>index := (index (heap s))\<lparr>cur := 2\<rparr>\<rparr>) (s\<lparr>mem := mem t\<rparr>)"
    and "kernel_tables D N t" and "slots (mem t) (index (heap t)) 2 = [0xC008300C, 0xC0080000]"
    and "header_size t 0xC0080000 = 0xFE8" and "header_size t 0xC008300C = 0x7D000"
    and "\<And>x. unat x < 0xC0000000 \<Longrightarrow> mem t x = mem s x"
    and "heap_front 2 0xC008300C 0x7D000 t" and "\<And>x. 0xC0083018 \<le> unat x \<Longrightarrow> unat x < 0xC00C0000 \<Longrightarrow> mem t x = mem s x"
proof -
  have sz: "unat (0x2004 :: u32) \<le> 0x10000" by simp
  note fa = fresh_aligned [OF f sz]
  have T: "0x80000 = unat (header_size s 0xC0080000)" and h: "kheap s \<noteq> None" "cur (index (heap s)) = 1"
    "array (index (heap s)) = 0xC0000000" "capacity s = 0x20000"
    using f by (auto simp: fresh_heap_def heap_def capacity_def)
  obtain t where t: "alloc (Suc n) 0x2004 1 s = Inr (off 0xC0080000 (0xFF4 + 12), t)"
    "unat (header_size t 0xC0080000) = 0xFF4 - 12"
    "0xFF4 + 0x2004 + 20 + unat (header_size t (off 0xC0080000 (0xFF4 + 0x2004 + 20))) = 0x80000 + 12"
    "slots (mem t) (index (heap t)) (unat (cur (index (heap t)))) = off 0xC0080000 (0xFF4 + 0x2004 + 20) # take (unat (cur (index (heap s)))) (index_words s)"
    "\<forall>x. \<not> in_range 0xC0080000 0x80000 x \<and> \<not> in_range (array (index (heap s))) (4 * capacity s) x \<longrightarrow> mem t x = mem s x"
    "t = set_heap ((heap s)\<lparr>index := (index (heap s))\<lparr>cur := cur (index (heap s)) + 1\<rparr>\<rparr>) (s\<lparr>mem := mem t\<rparr>)"
    using alloc_aligned_result [OF fa(1) fa(2) [symmetric] fa(3) [symmetric] _ T, of "0x2004" n] by auto
  have low: "mem t x = mem s x" if "unat x < 0xC0000000" for x
    using that t(5) by (simp add: h in_range_interval)
  have g12: "(0xC0080000 + 12 :: u32) AND 0xFFF \<noteq> 0" "\<not> low_bit_set (0xC0080000 + 12)" by code_simp+
  have front: "heap_front 2 0xC008300C 0x7D000 t" and far: "\<And>x. 0xC0083018 \<le> unat x \<Longrightarrow> unat x < 0xC00C0000 \<Longrightarrow> mem t x = mem s x"
  proof -
    have p: "(1 :: nat) < 0x1000" "0x2004 = unat (0x2004 :: u32)" "(0x2004 :: nat) \<le> 0x20000"
      "unat (0xC0080000 :: u32) + 0x2004 + 0x1000 \<le> 0xC00A0000" "(20 :: nat) \<le> 0xFF4" by simp_all
    obtain u where u: "alloc (Suc n) 0x2004 1 s = Inr (off 0xC0080000 (0xFF4 + 12), u)"
      "heap_front (Suc 1) (off 0xC0080000 (0xFF4 + 0x2004 + 20)) (0x80000 - (0xFF4 - 12) - (0x2004 + 20)) u"
      "\<And>x. unat (0xC0080000 :: u32) + 0xFF4 + 0x2004 + 32 \<le> unat x \<and> unat x < 0xC00C0000 \<Longrightarrow> mem u x = mem s x"
      using front_aligned [OF fresh_front [OF f] p(1-4) g12 fa(3) [symmetric] p(5), of n] by metis
    have eq: "u = t" using u(1) t(1) by simp
    show "heap_front 2 0xC008300C 0x7D000 t" using u(2) by (simp add: eq off_def numeral_2_eq_2)
    show "mem t x = mem s x" if "0xC0083018 \<le> unat x" "unat x < 0xC00C0000" for x
      using u(3) [of x] that by (simp add: eq)
  qed
  have c: "cur (index (heap s)) + 1 = 2" by (simp add: h)
  have t2: "t = set_heap ((heap s)\<lparr>index := (index (heap s))\<lparr>cur := 2\<rparr>\<rparr>) (s\<lparr>mem := mem t\<rparr>)" using t(6) unfolding c .
  have "vm_page_dir t = vm_page_dir s" "placement_address t = placement_address s" "cur_vm_page_dir t = D" "cur (index (heap t)) = 2"
    by (subst t2, simp add: set_heap_def heap_def d)+
  note r = this
  have kt: "kernel_tables D N t" using low by (intro kernel_tables_cong [OF k _ r(1,2)]) simp
  have "(0x81 :: nat) < 256" "(0 :: nat) < 0x1000" by simp_all
  from heap_page_frame [OF kt this, of D] kt obtain page where page: "find_page 0xC0081000 D t = Inr (page, t)" "frame_of (peek t page) = of_nat (N + 0x81)"
    by (auto simp: off_def KHEAP_START_def kernel_tables_def slots_as_off)
  show ?thesis
  proof (rule that)
    have "(0xC0081000 :: u32) AND 0xFFF = 0" by code_simp
    moreover have "off 0xC0080000 (0xFF4 + 12) = 0xC0081000" by (simp add: off_def)
    ultimately show "malloc_ap (Suc n) 0x2004 s = Inr (0xC0081000, of_nat (N + 0x81) * 0x1000, t)"
      using t(1) page h(1) r(3) by (simp add: malloc_ap_def k_malloc_def malloc_over_def del: alloc.simps of_nat_add not_None_eq)
    have "take 1 (index_words s) = [index_words s ! 0]" using h(4) by (simp add: take_Suc_conv_app_nth)
    then show "slots (mem t) (index (heap t)) 2 = [0xC008300C, 0xC0080000]"
      using t(4) r(4) fa(2) by (simp add: h off_def)
    show "header_size t 0xC0080000 = 0xFE8" "header_size t 0xC008300C = 0x7D000"
      using t(2,3) by (simp_all add: off_def word_unat_eq_iff)
  qed (use t2 kt low front far in auto)
qed

section \<open>The whole of \<open>init_paging\<close>\<close>

text \<open>The globals and the memory below the heap that the steps after \<open>paging_tables\<close> keep.\<close>

definition low_kept :: "'a kmem \<Rightarrow> 'a kmem \<Rightarrow> bool" where
  "low_kept s t \<longleftrightarrow> vm_page_dir t = vm_page_dir s \<and> placement_address t = placement_address s \<and> frames t = frames s
     \<and> frames_bitmap_size t = frames_bitmap_size s \<and> phys t = phys s \<and> kernel_memory.more t = kernel_memory.more s
     \<and> (\<forall>x. unat x < 0xC0000000 \<longrightarrow> mem t x = mem s x)"

lemma low_kept_trans: "low_kept s t \<Longrightarrow> low_kept t u \<Longrightarrow> low_kept s u"
  by (simp add: low_kept_def)

lemma low_kept_tables: "low_kept s t \<Longrightarrow> kernel_tables D N s \<Longrightarrow> kernel_tables D N t"
  by (rule kernel_tables_cong) (simp_all add: low_kept_def)

lemma heap_started:
  fixes s :: "'a kmem"
  assumes "kernel_tables D N s"
  obtains h u where "create_heap KHEAP_START (KHEAP_START + KHEAP_INITIAL_SIZE) 0xCFFFF000 0 0 (switch_page_directory D s) = Inr (h, u)"
    and "fresh_heap (u\<lparr>kheap := Some h\<rparr>)" and "low_kept s (u\<lparr>kheap := Some h\<rparr>)" and "cur_vm_page_dir u = D"
    and "cr0 u = cr0 s OR 0x80000000" and "\<And>x. 0xC008000C \<le> unat x \<Longrightarrow> mem u x = mem s x"
proof -
  define t where "t = switch_page_directory D s"
  obtain h u where ch: "create_heap KHEAP_START (KHEAP_START + KHEAP_INITIAL_SIZE) 0xCFFFF000 0 0 t = Inr (h, u)"
    and h: "end_address h = 0xC0100000" "index h = \<lparr>array = 0xC0000000, arr_size = 0x20000, cur = 1, cmp_fun = header_cmp_less\<rparr>"
      "slots (mem u) (index h) 0x20000 = 0xC0080000 # replicate 0x1FFFF 0" "header_size u 0xC0080000 = 0x80000"
    and u: "u = t\<lparr>mem := mem u\<rparr>" and low: "\<And>x. \<not> in_range 0xC0000000 0x8000C x \<Longrightarrow> mem u x = mem t x"
    using create_heap_one_hole [of "0xCFFFF000" 0 0 t] by auto
  have g: "vm_page_dir u = vm_page_dir s" "placement_address u = placement_address s" "frames u = frames s"
    "frames_bitmap_size u = frames_bitmap_size s" "phys u = phys s" "kernel_memory.more u = kernel_memory.more s"
    "cur_vm_page_dir u = D" "cr0 u = cr0 s OR 0x80000000"
    by (subst u, simp add: t_def switch_page_directory_def Let_def)+
  have m: "mem t = mem s" by (simp add: t_def switch_page_directory_def Let_def)
  show ?thesis
  proof (rule that)
    have "header_size (u\<lparr>kheap := Some h\<rparr>) 0xC0080000 = header_size u 0xC0080000" by (simp add: header_size_def peek_def)
    then show "fresh_heap (u\<lparr>kheap := Some h\<rparr>)" using h by (simp add: fresh_heap_def)
    show "low_kept s (u\<lparr>kheap := Some h\<rparr>)" using low g m by (simp add: low_kept_def in_range_interval)
    show "mem u x = mem s x" if "0xC008000C \<le> unat x" for x using low [of x] that m by (simp add: in_range_interval)
  qed (use ch g in \<open>simp_all add: t_def\<close>)
qed

lemma kernel_tables_last:
  assumes "kernel_tables D N t"
  shows "peek t (off D 0xFFC) = 0"
proof -
  have "\<forall>i < 1024. i \<noteq> 0 \<and> i \<noteq> 768 \<longrightarrow> peek t (off D (4 * i)) = 0" using assms unfolding kernel_tables_def by blast
  from this [THEN spec, of 1023] show ?thesis by simp
qed

text \<open>The copy of the directory: the kernel's tables, in the heap's second page.\<close>

lemma directory_copied:
  fixes s :: "'a kmem"
  assumes f: "fresh_heap s" and k: "kernel_tables D N s" and d: "cur_vm_page_dir s = D"
  obtains t where "clone_dir (Suc n) D s = Inr (0xC0081000, t)" and "low_kept s t" and "cr0 t = cr0 s"
    and "slots (mem t) (index (heap t)) 2 = [0xC008300C, 0xC0080000]" and "end_address (heap t) = 0xC0100000"
    and "header_size t 0xC0080000 = 0xFE8" and "header_size t 0xC008300C = 0x7D000"
    and "peek t (dir_phy_slot 0xC0081000) = of_nat (N + 0x82) * 0x1000"
    and "\<And>i. i < 1024 \<Longrightarrow> peek t (off 0xC0081000 (4 * i)) = peek t (off D (4 * i))"
    and "peek t 0xC0082000 = off D 0x5000 OR 0x7" and "peek t (0xC0082000 + 0xC00) = off D 0x3000 OR 0x7"
    and "peek t 0xC0082FFC = 0"
    and "heap_front 2 0xC008300C 0x7D000 t" and "\<And>x. 0xC0083018 \<le> unat x \<Longrightarrow> unat x < 0xC00C0000 \<Longrightarrow> mem t x = mem s x"
proof -
  obtain u where m: "malloc_ap (Suc n) 0x2004 s = Inr (0xC0081000, of_nat (N + 0x81) * 0x1000, u)"
    and u: "u = set_heap ((heap s)\<lparr>index := (index (heap s))\<lparr>cur := 2\<rparr>\<rparr>) (s\<lparr>mem := mem u\<rparr>)" and ku: "kernel_tables D N u"
    and hu: "slots (mem u) (index (heap u)) 2 = [0xC008300C, 0xC0080000]" "header_size u 0xC0080000 = 0xFE8" "header_size u 0xC008300C = 0x7D000"
    and low: "\<And>x. unat x < 0xC0000000 \<Longrightarrow> mem u x = mem s x"
    and fr: "heap_front 2 0xC008300C 0x7D000 u" and far: "\<And>x. 0xC0083018 \<le> unat x \<Longrightarrow> unat x < 0xC00C0000 \<Longrightarrow> mem u x = mem s x"
    using fresh_directory [OF f k d, of n] by metis
  have h: "end_address (heap s) = 0xC0100000" "array (index (heap s)) = 0xC0000000" using f by (auto simp: fresh_heap_def heap_def)
  have "vm_page_dir u = vm_page_dir s" "placement_address u = placement_address s" "frames u = frames s"
    "frames_bitmap_size u = frames_bitmap_size s" "phys u = phys s" "kernel_memory.more u = kernel_memory.more s"
    "cr0 u = cr0 s" "end_address (heap u) = 0xC0100000" "array (index (heap u)) = 0xC0000000"
    by (subst u, simp add: set_heap_def heap_def h [unfolded heap_def])+
  note g = this
  have Dv: "vm_page_dir u = D" "unat D + 0x6000 = N * 0x1000" "N \<le> 1024" using ku by (simp_all add: kernel_tables_def)
  then have dlow: "unat D \<le> 0x3FA000" by linarith
  have "apart D 0x2004 0xC0081000 0x2004" using dlow by (intro apart_unat) simp_all
  then have ap: "apart 0xC0081000 0x2004 D 0x2004" by (simp add: apart_sym)
  have apv: "apart 0xC0081000 0x2004 (vm_page_dir u) 0x2004" using ap by (simp only: Dv)
  have self: "\<forall>i < 1024. peek u (off D (4 * i)) = 0 \<or> peek u (off D (4 * i)) = peek u (off (vm_page_dir u) (4 * i))"
    by (simp only: Dv simp_thms)
  from clone_dir_kernel_tables [OF m ap apv self] obtain t where t: "clone_dir (Suc n) D s = Inr (0xC0081000, t)"
    "peek t (dir_phy_slot 0xC0081000) = of_nat (N + 0x81) * 0x1000 + 0x1000"
    "\<And>i. i < 1024 \<Longrightarrow> peek t (off 0xC0081000 (4 * i)) = peek u (off D (4 * i))"
    "\<And>i. i < 1024 \<Longrightarrow> peek t (off 0xC0081000 (0x1000 + 4 * i)) = (if peek u (off D (4 * i)) = 0 then 0 else peek u (off D (0x1000 + 4 * i)))"
    "\<And>x. \<not> in_range 0xC0081000 0x2004 x \<Longrightarrow> mem t x = mem u x" "same_registers u t" by blast
  note r = same_registersD [OF t(6)]
  have lk: "low_kept s t"
    using low t(5) g r by (simp add: low_kept_def in_range_interval)
  have kt: "peek u (off D 0) = off D 0x5000" "peek u (off D 0xC00) = off D 0x3000"
    "peek u (off D 0x1000) = off D 0x5000 OR 0x7" "peek u (off D 0x1C00) = off D 0x3000 OR 0x7"
    using ku by (simp_all add: kernel_tables_def)
  have nz: "off D 0x5000 \<noteq> 0" "off D 0x3000 \<noteq> 0"
    using unat_off [of D "0x5000"] unat_off [of D "0x3000"] dlow by auto
  have same: "peek t a = peek u a" if "unat a + 4 \<le> 0xC0081000 \<or> 0xC0083004 \<le> unat a \<and> unat a + 4 \<le> 2 ^ 32" for a
  proof (rule peek_cong)
    fix x assume "in_range a 4 x"
    then show "mem t x = mem u x" using that by (intro t(5)) (auto simp: in_range_interval)
  qed
  have hp: "heap t = heap u" by (rule kheap_heap [OF r(3)])
  have ft: "heap_front 2 0xC008300C 0x7D000 t"
    by (rule heap_front_cong [OF fr r(3)]) (auto intro!: t(5) simp: in_range_interval)
  have ff: "mem t x = mem s x" if "0xC0083018 \<le> unat x" "unat x < 0xC00C0000" for x
    using t(5) [of x] far [OF that] that by (simp add: in_range_interval)
  show ?thesis
  proof (rule that)
    have "slots (mem t) (index (heap u)) 2 = slots (mem u) (index (heap u)) 2"
      by (rule slots_cong [of _ 2]) (auto simp: g intro!: t(5) simp: in_range_interval)
    then show "slots (mem t) (index (heap t)) 2 = [0xC008300C, 0xC0080000]" using hu(1) by (simp add: hp)
    show "header_size t 0xC0080000 = 0xFE8" "header_size t 0xC008300C = 0x7D000"
      using hu(2,3) same [of "0xC0080008"] same [of "0xC0083014"] by (simp_all add: header_size_def)
    show "peek t (dir_phy_slot 0xC0081000) = of_nat (N + 0x82) * 0x1000" using t(2) by (simp add: algebra_simps)
    show "peek t (off 0xC0081000 (4 * i)) = peek t (off D (4 * i))" if "i < 1024" for i
      using t(3) [OF that] same [of "off D (4 * i)"] that dlow by (simp add: unat_off)
    show "peek t 0xC0082000 = off D 0x5000 OR 0x7" "peek t (0xC0082000 + 0xC00) = off D 0x3000 OR 0x7"
      using t(4) [of 0] t(4) [of 768] kt nz by (simp_all add: off_def)
    show "peek t 0xC0082FFC = 0" using t(4) [of 1023] kernel_tables_last [OF ku] by (simp add: off_def)
  qed (use t(1) lk r g hp ft ff in simp_all)
qed

text \<open>
  The state that \<open>init_paging\<close> leaves, with the kernel's directory at \<open>D\<close>: what is in the directory that is used, and
  which hole the heap lists first.
\<close>

definition paging_on :: "u32 \<Rightarrow> nat \<Rightarrow> 'a kmem \<Rightarrow> bool" where
  "paging_on D N t \<longleftrightarrow> kernel_tables D N t \<and> cur_vm_page_dir t = 0xC0081000
     \<and> (\<forall>i < 1024. peek t (off 0xC0081000 (4 * i)) = peek t (off D (4 * i)))
     \<and> peek t 0xC0082000 = off D 0x5000 OR 0x7 \<and> peek t (0xC0082000 + 0xC00) = off D 0x3000 OR 0x7
     \<and> cr3 t = of_nat (N + 0x82) * 0x1000 \<and> heap_front 2 0xC008300C 0x7D000 t
     \<and> frame_set t = {..<N + 256} \<and> frame_count t = 4096 \<and> unat (frames t) + 0x200 \<le> unat D"

lemma paging_on_maps:
  assumes "paging_on D N t"
  shows "unat a < N * 0x1000 \<Longrightarrow> mmu t 0xC0082000 a = Some a"
    and "i < 256 \<Longrightarrow> r < 0x1000 \<Longrightarrow> mmu t 0xC0082000 (off KHEAP_START (i * 0x1000 + r)) = Some (off (of_nat (N + i) * 0x1000) r)"
    and "mmu t 0xC0082000 0xC0082000 = Some (cr3 t)"
proof -
  have k: "kernel_tables D N t" "peek t 0xC0082000 = off D 0x5000 OR 0x7" "peek t (0xC0082000 + 0xC00) = off D 0x3000 OR 0x7"
    "cr3 t = of_nat (N + 0x82) * 0x1000" using assms by (simp_all add: paging_on_def)
  then have dN: "unat D + 0x6000 = N * 0x1000" "N \<le> 1024" "0x1000 dvd unat D" by (simp_all add: kernel_tables_def)
  have al: "0x1000 dvd unat (off D 0x5000)" "0x1000 dvd unat (off D 0x3000)" using dN by (simp_all add: unat_off)
  have ent: "\<And>j. j < N \<Longrightarrow> peek t (page_entry (off D 0x5000) j) = entry_word 0 0 1 (of_nat j)"
    "\<And>j. j < 256 \<Longrightarrow> peek t (page_entry (off D 0x3000) j) = entry_word 0 0 1 (of_nat (N + j))"
    using k(1) by (simp_all add: kernel_tables_def)
  note maps = maps_through [OF k(2,3) al ent(1) dN(2) ent(2)]
  show "unat a < N * 0x1000 \<Longrightarrow> mmu t 0xC0082000 a = Some a"
    and "i < 256 \<Longrightarrow> r < 0x1000 \<Longrightarrow> mmu t 0xC0082000 (off KHEAP_START (i * 0x1000 + r)) = Some (off (of_nat (N + i) * 0x1000) r)"
    using maps by blast+
  have "off KHEAP_START (0x82 * 0x1000 + 0) = 0xC0082000" by (simp add: off_def KHEAP_START_def)
  then show "mmu t 0xC0082000 0xC0082000 = Some (cr3 t)" using maps(2) [of "0x82" 0] by (simp add: k(4) off_0 del: of_nat_add)
qed

lemma init_paging_result:
  fixes s :: "'a kmem"
  assumes "kheap s = None" and "placement_address s \<le> 0x3F0000"
  obtains D N t where "init_paging (Suc n) isrs s = Inr (register_interrupt_handler 14 Page_fault isrs, t)"
    and "paging_on D N t" and "placement_address s < D" and "cr0 t = cr0 s OR 0x80000000" and "if_flag t"
    and "slots (mem t) (index (heap t)) 2 = [0xC008300C, 0xC0080000]" and "header_size t 0xC0080000 = 0xFE8"
    and "\<And>x. x < placement_address s \<Longrightarrow> mem t x = mem s x"
    and "\<And>x. 0xC0083018 \<le> unat x \<Longrightarrow> unat x < 0xC00C0000 \<Longrightarrow> mem t x = mem s x"
    and "kernel_memory.more t = kernel_memory.more s" and "frames t = placement_address s" and "peek t 0xC0082FFC = 0"
proof -
  obtain D N t0 where run: "paging_tables (Suc n) s = Inr t0" and k0: "kernel_tables D N t0"
    and D: "placement_address s < D" and fr: "frame_set t0 = {..<N + 256}" "frame_count t0 = 4096"
    and low0: "\<And>x. x < placement_address s \<or> 0x400000 \<le> unat x \<Longrightarrow> mem t0 x = mem s x" and c0: "cr0 t0 = cr0 s"
    and f0: "frames t0 = placement_address s" "kernel_memory.more t0 = kernel_memory.more s" "unat (placement_address s) + 0x200 \<le> unat D"
    using paging_tables_result [OF assms, of "Suc n"] by metis
  obtain h u where ch: "create_heap KHEAP_START (KHEAP_START + KHEAP_INITIAL_SIZE) 0xCFFFF000 0 0 (switch_page_directory D t0) = Inr (h, u)"
    and fh: "fresh_heap (u\<lparr>kheap := Some h\<rparr>)" and lk: "low_kept t0 (u\<lparr>kheap := Some h\<rparr>)" and cu: "cur_vm_page_dir u = D"
    and cr: "cr0 u = cr0 t0 OR 0x80000000" and hu: "\<And>x. 0xC008000C \<le> unat x \<Longrightarrow> mem u x = mem t0 x"
    using heap_started [OF k0] by metis
  let ?u = "u\<lparr>kheap := Some h\<rparr>"
  have ku: "kernel_tables D N ?u" by (rule low_kept_tables [OF lk k0])
  then have vm: "vm_page_dir t0 = D" "vm_page_dir ?u = D" using k0 by (simp_all add: kernel_tables_def)
  have "cur_vm_page_dir ?u = D" using cu by simp
  from directory_copied [OF fh ku this, of n] obtain v where v: "clone_dir (Suc n) D ?u = Inr (0xC0081000, v)" "low_kept ?u v" "cr0 v = cr0 ?u"
    "slots (mem v) (index (heap v)) 2 = [0xC008300C, 0xC0080000]" "end_address (heap v) = 0xC0100000"
    "header_size v 0xC0080000 = 0xFE8" "header_size v 0xC008300C = 0x7D000"
    "peek v (dir_phy_slot 0xC0081000) = of_nat (N + 0x82) * 0x1000"
    "\<And>i. i < 1024 \<Longrightarrow> peek v (off 0xC0081000 (4 * i)) = peek v (off D (4 * i))"
    "peek v 0xC0082000 = off D 0x5000 OR 0x7" "peek v (0xC0082000 + 0xC00) = off D 0x3000 OR 0x7"
    "peek v 0xC0082FFC = 0" "heap_front 2 0xC008300C 0x7D000 v" "\<And>x. 0xC0083018 \<le> unat x \<Longrightarrow> unat x < 0xC00C0000 \<Longrightarrow> mem v x = mem ?u x" by blast
  define t where "t = switch_page_directory 0xC0081000 (v\<lparr>cur_vm_page_dir := 0xC0081000\<rparr>)"
  have all: "init_paging (Suc n) isrs s = Inr (register_interrupt_handler 14 Page_fault isrs, t)"
    using ch v(1) vm by (simp add: init_paging_def Let_def run t_def)
  have kv: "kernel_tables D N v" by (rule low_kept_tables [OF v(2) ku])
  have lv: "low_kept t0 v" by (rule low_kept_trans [OF lk v(2)])
  have g: "mem t = mem v" "peek t = peek v" "heap t = heap v" "header_size t = header_size v" "mmu t = mmu v" "cur_vm_page_dir t = 0xC0081000" "if_flag t"
    "vm_page_dir t = D" "placement_address t = off D 0x6000" "cr3 t = of_nat (N + 0x82) * 0x1000" "cr0 t = cr0 s OR 0x80000000"
    using kv v(3,8) cr c0
    by (simp_all add: t_def switch_page_directory_def Let_def kernel_tables_def heap_def fun_eq_iff header_size_def peek_def mmu_def or.assoc)
  have fs: "frame_set t = {..<N + 256}"
  proof -
    have b: "unat (frames_bitmap_size t0) = 0x200" using fr(2) by (simp add: frame_count_def)
    have "mem t (frames t0 + of_nat i) = mem t0 (frames t0 + of_nat i)" if "i < 0x200" for i
    proof -
      have "unat (frames t0 + of_nat i) < 0xC0000000"
        using that assms(2) by (simp add: f0 word_le_nat_alt unat_word_ariths unat_of_nat_small)
      then show ?thesis using lv by (simp add: g low_kept_def)
    qed
    moreover have "frames t = frames t0" "frames_bitmap_size t = frames_bitmap_size t0"
      using lv by (simp_all add: low_kept_def t_def switch_page_directory_def Let_def)
    ultimately show ?thesis using frame_set_cong [of t t0] fr(1) b by simp
  qed
  have ft: "heap_front 2 0xC008300C 0x7D000 t"
    by (rule heap_front_cong [OF v(13)]) (simp_all add: t_def switch_page_directory_def Let_def)
  have kt: "kernel_tables D N t"
    using kv by (rule kernel_tables_cong) (simp_all add: t_def switch_page_directory_def Let_def)
  have fc: "frame_count t = 4096" "frames t = placement_address s" "kernel_memory.more t = kernel_memory.more s"
    using lv fr(2) f0 by (simp_all add: low_kept_def t_def switch_page_directory_def Let_def frame_count_def)
  show ?thesis
  proof (rule that [OF all])
    show "paging_on D N t" using kt ft fs fc v(9-11) f0(3) g by (simp add: paging_on_def)
    show "slots (mem t) (index (heap t)) 2 = [0xC008300C, 0xC0080000]" "header_size t 0xC0080000 = 0xFE8" using v(4,6) by (simp_all add: g)
    show "mem t x = mem s x" if "x < placement_address s" for x
    proof -
      have "unat x < 0xC0000000" using that assms(2) by (simp add: word_le_nat_alt word_less_nat_alt)
      then show ?thesis using lv low0 [of x] that by (simp add: low_kept_def g)
    qed
    show "mem t x = mem s x" if "0xC0083018 \<le> unat x" "unat x < 0xC00C0000" for x
      using v(14) [OF that] hu [of x] low0 [of x] that by (simp add: g)
  qed (use D g fc v(12) in simp_all)
qed

text \<open>
  Property C6. \<open>init_paging\<close> returns for every end of the boot modules below 0x3F0000, with the handler of page faults
  registered, paging and interrupts switched on and a heap of two holes. The processor runs on a copy of the
  kernel's directory that has the kernel's own tables and lies in the heap: \<open>cr3\<close> is the physical address to
  which this directory maps its table of physical addresses. It maps every address the kernel has used to itself
  and the heap's pages to the frames after these; no other frame is used, and the memory below the end of the modules is as it was.
\<close>

theorem init_paging_completes:
  fixes s :: "'a kmem"
  assumes "kheap s = None" and "placement_address s \<le> 0x3F0000"
  shows "\<exists>t N. init_paging (Suc n) isrs s = Inr (register_interrupt_handler 14 Page_fault isrs, t)
    \<and> placement_address s < placement_address t \<and> unat (placement_address t) = N * 0x1000 \<and> cr0 t = cr0 s OR 0x80000000 \<and> if_flag t
    \<and> slots (mem t) (index (heap t)) 2 = [0xC008300C, 0xC0080000] \<and> end_address (heap t) = 0xC0100000
    \<and> header_size t 0xC0080000 = 0xFE8 \<and> header_size t 0xC008300C = 0x7D000
    \<and> cur_vm_page_dir t = 0xC0081000
    \<and> (\<forall>i < 1024. peek t (off (cur_vm_page_dir t) (4 * i)) = peek t (off (vm_page_dir t) (4 * i)))
    \<and> mmu t (phy_slot (cur_vm_page_dir t) 0) (phy_slot (cur_vm_page_dir t) 0) = Some (cr3 t)
    \<and> (\<forall>a < placement_address t. mmu t (phy_slot (cur_vm_page_dir t) 0) a = Some a)
    \<and> (\<forall>i < 256. \<forall>r < 0x1000. mmu t (phy_slot (cur_vm_page_dir t) 0) (off KHEAP_START (i * 0x1000 + r))
          = Some (off (of_nat (N + i) * 0x1000) r))
    \<and> frame_set t = {..<N + 256} \<and> (\<forall>x < placement_address s. mem t x = mem s x)"
proof -
  obtain D N t where run: "init_paging (Suc n) isrs s = Inr (register_interrupt_handler 14 Page_fault isrs, t)"
    and on: "paging_on D N t" and D: "placement_address s < D" and r: "cr0 t = cr0 s OR 0x80000000" "if_flag t"
      "slots (mem t) (index (heap t)) 2 = [0xC008300C, 0xC0080000]" "header_size t 0xC0080000 = 0xFE8"
    and low: "\<And>x. x < placement_address s \<Longrightarrow> mem t x = mem s x"
    using init_paging_result [OF assms, of n isrs] by metis
  have k: "unat D + 0x6000 = N * 0x1000" "N \<le> 1024" "vm_page_dir t = D" "placement_address t = off D 0x6000"
    using on by (simp_all add: paging_on_def kernel_tables_def)
  have up: "unat (off D 0x6000) = N * 0x1000" using k by (subst unat_off) simp_all
  have "unat (header_size t 0xC008300C) = 0x7D000" "end_address (heap t) = 0xC0100000"
    using on by (simp_all add: paging_on_def heap_front_def)
  then have h: "header_size t 0xC008300C = 0x7D000" "end_address (heap t) = 0xC0100000" by (simp_all add: word_unat_eq_iff)
  have d: "phy_slot 0xC0081000 0 = 0xC0082000" by (simp add: phy_slot_def)
  show ?thesis
    using run r h low on D k up paging_on_maps [OF on]
    by (intro exI [of _ t] exI [of _ N]) (simp add: paging_on_def d word_less_nat_alt)
qed


theorem init_paging_completes_witness:
  "\<exists>isrs t. init_paging 1 \<lparr>interrupt_handler = \<lambda>_. None, isr_ports = [], unhandled = []\<rparr> (small_kernel (\<lambda>_. 0)) = Inr (isrs, t)
    \<and> mmu t 0xC0082000 0x1234 = Some 0x1234 \<and> mmu t 0xC0082000 0xC0082000 = Some (cr3 t)"
proof -
  have s: "kheap (small_kernel (\<lambda>_. 0)) = None" "placement_address (small_kernel (\<lambda>_. 0)) \<le> 0x3F0000"
    by (simp_all add: small_kernel_def)
  obtain t N where t: "init_paging (Suc 0) \<lparr>interrupt_handler = \<lambda>_. None, isr_ports = [], unhandled = []\<rparr> (small_kernel (\<lambda>_. 0))
      = Inr (register_interrupt_handler 14 Page_fault \<lparr>interrupt_handler = \<lambda>_. None, isr_ports = [], unhandled = []\<rparr>, t)"
    "placement_address (small_kernel (\<lambda>_. 0)) < placement_address t" "cur_vm_page_dir t = 0xC0081000"
    "mmu t (phy_slot (cur_vm_page_dir t) 0) (phy_slot (cur_vm_page_dir t) 0) = Some (cr3 t)"
    "\<forall>a < placement_address t. mmu t (phy_slot (cur_vm_page_dir t) 0) a = Some a"
    using init_paging_completes [OF s, of 0] by blast
  have "0x1234 < placement_address (small_kernel (\<lambda>_. 0))" by (simp add: small_kernel_def)
  then have "0x1234 < placement_address t" using t(2) by (rule order.strict_trans)
  moreover have "phy_slot 0xC0081000 0 = 0xC0082000" by (simp add: phy_slot_def)
  ultimately show ?thesis using t by auto
qed

section \<open>Freeing a block\<close>

lemma kfree_faults:
  assumes "cr0 s AND 0x80000000 \<noteq> 0" and "peek s (off (cur_vm_page_dir s) (4 * 1023)) = 0"
  shows "kfree p s = Inl Hang"
  using assms by (simp add: kfree_def free_def Let_def faults_def sizeof_header_def table_slot_def off_def)

text \<open>
  Property C37. \<open>if (p = 0) return;\<close> in \<open>free\<close> assigns, so \<open>kfree\<close> looks for the header of the null pointer, at 0xFFFFFFF4,
  whatever block it is given. In the kernel that \<open>init_paging\<close> leaves, the processor finds no page at that address in
  the directory it uses, so no call of \<open>kfree\<close> returns: it ends in the handler of page faults, which spins.
\<close>

theorem kfree_never_returns:
  fixes s :: "'a kmem"
  assumes "kheap s = None" and "placement_address s \<le> 0x3F0000"
  shows "\<exists>t. init_paging (Suc n) isrs s = Inr (register_interrupt_handler 14 Page_fault isrs, t)
    \<and> mmu t (phy_slot (cur_vm_page_dir t) 0) (0 - sizeof_header) = None
    \<and> (\<forall>p. kfree p t = Inl Hang) \<and> (\<forall>reg. fst (page_fault (0 - sizeof_header) reg t) = Hang)"
proof -
  obtain D N t where run: "init_paging (Suc n) isrs s = Inr (register_interrupt_handler 14 Page_fault isrs, t)"
    and on: "paging_on D N t" and cr: "cr0 t = cr0 s OR 0x80000000" and z: "peek t 0xC0082FFC = 0"
    using init_paging_result [OF assms, of n isrs] by metis
  have d: "cur_vm_page_dir t = 0xC0081000" "kernel_tables D N t"
    and same: "\<forall>i < 1024. peek t (off 0xC0081000 (4 * i)) = peek t (off D (4 * i))"
    using on by (simp_all add: paging_on_def)
  have "peek t (off (cur_vm_page_dir t) (4 * 1023)) = 0" using kernel_tables_last [OF d(2)] same [THEN spec, of 1023] by (simp add: d(1))
  moreover have "cr0 t AND 0x80000000 \<noteq> 0"
  proof
    assume "cr0 t AND 0x80000000 = 0"
    then have "\<not> bit (cr0 t AND 0x80000000) 31" by simp
    then show False by (simp add: cr bit_simps)
  qed
  ultimately have "\<forall>p. kfree p t = Inl Hang" using kfree_faults by blast
  moreover have "mmu t (phy_slot (cur_vm_page_dir t) 0) (0 - sizeof_header) = None"
    using z by (simp add: d(1) phy_slot_def sizeof_header_def mmu_def Let_def get_field_def)
  ultimately show ?thesis using run by (intro exI [of _ t]) (simp add: page_fault_def)
qed

theorem kfree_never_returns_witness:
  "\<exists>isrs t. init_paging 1 \<lparr>interrupt_handler = \<lambda>_. None, isr_ports = [], unhandled = []\<rparr> (small_kernel (\<lambda>_. 0)) = Inr (isrs, t)
    \<and> kfree 0xC0081000 t = Inl Hang"
proof -
  have s: "kheap (small_kernel (\<lambda>_. 0)) = None" "placement_address (small_kernel (\<lambda>_. 0)) \<le> 0x3F0000"
    by (simp_all add: small_kernel_def)
  show ?thesis
    using kfree_never_returns [OF s, of 0 "\<lparr>interrupt_handler = \<lambda>_. None, isr_ports = [], unhandled = []\<rparr>"] by auto
qed

end
