(* ===== verification/Tasking.thy ===== *)
theory Tasking
  imports Cloning
begin

text \<open>
  \<open>src/src/task.c\<close> and the interrupt routine of \<open>src/src/timer.c\<close>: the list of tasks, the move of the
  boot stack, \<open>fork\<close>, the switch of tasks on every tick of the timer, and the two ways to end a task.

  The tasks are \<open>pcb_t\<close> structs of 56 bytes in memory: \<open>pid\<close> at 0, \<open>esp\<close> at 4, \<open>ebp\<close> at 8, \<open>eip\<close> at 12,
  \<open>state\<close> at 16, the unused \<open>context\<close> at 20, \<open>page_dir\<close> at 44, \<open>next\<close> at 48 and \<open>time\<close> at 52. The state
  adds the globals of \<open>task.c\<close> and \<open>timer.c\<close> and the registers the code reads and writes.

  \<open>read_eip\<close> returns twice: once with the address after the call, and once more, with 0x12345 in its
  place, when a switch jumps to the address it gave. Its result is the argument \<open>eip\<close> of the
  functions that call it. A function that switches ends with a jump, the outcome \<open>Jump\<close>.
\<close>

section \<open>State\<close>

record task_memory = kernel_memory +
  cur_task :: u32
  head_task :: u32
  next_pid :: u32
  initial_esp :: u32
  esp :: u32
  ebp :: u32
  tick :: u32

type_synonym 'a tasking = "'a task_memory_scheme"

datatype 'a control = Return 'a | Jump u32

definition TASK_RUNNABLE :: u32 where "TASK_RUNNABLE = 2"
definition RESUMED :: u32 where "RESUMED = 0x12345"
definition sizeof_pcb :: u32 where "sizeof_pcb = 56"

definition pcb_pid :: "'a kmem \<Rightarrow> u32 \<Rightarrow> u32" where "pcb_pid s t = peek s (off t 0)"
definition pcb_esp :: "'a kmem \<Rightarrow> u32 \<Rightarrow> u32" where "pcb_esp s t = peek s (off t 4)"
definition pcb_ebp :: "'a kmem \<Rightarrow> u32 \<Rightarrow> u32" where "pcb_ebp s t = peek s (off t 8)"
definition pcb_eip :: "'a kmem \<Rightarrow> u32 \<Rightarrow> u32" where "pcb_eip s t = peek s (off t 12)"
definition pcb_state :: "'a kmem \<Rightarrow> u32 \<Rightarrow> u32" where "pcb_state s t = peek s (off t 16)"
definition pcb_page_dir :: "'a kmem \<Rightarrow> u32 \<Rightarrow> u32" where "pcb_page_dir s t = peek s (off t 44)"
definition pcb_next :: "'a kmem \<Rightarrow> u32 \<Rightarrow> u32" where "pcb_next s t = peek s (off t 48)"
definition pcb_time :: "'a kmem \<Rightarrow> u32 \<Rightarrow> u32" where "pcb_time s t = peek s (off t 52)"

definition set_pid :: "u32 \<Rightarrow> u32 \<Rightarrow> 'a kmem \<Rightarrow> 'a kmem" where "set_pid t = poke (off t 0)"
definition set_esp :: "u32 \<Rightarrow> u32 \<Rightarrow> 'a kmem \<Rightarrow> 'a kmem" where "set_esp t = poke (off t 4)"
definition set_ebp :: "u32 \<Rightarrow> u32 \<Rightarrow> 'a kmem \<Rightarrow> 'a kmem" where "set_ebp t = poke (off t 8)"
definition set_eip :: "u32 \<Rightarrow> u32 \<Rightarrow> 'a kmem \<Rightarrow> 'a kmem" where "set_eip t = poke (off t 12)"
definition set_state :: "u32 \<Rightarrow> u32 \<Rightarrow> 'a kmem \<Rightarrow> 'a kmem" where "set_state t = poke (off t 16)"
definition set_page_dir :: "u32 \<Rightarrow> u32 \<Rightarrow> 'a kmem \<Rightarrow> 'a kmem" where "set_page_dir t = poke (off t 44)"
definition set_next :: "u32 \<Rightarrow> u32 \<Rightarrow> 'a kmem \<Rightarrow> 'a kmem" where "set_next t = poke (off t 48)"
definition set_time :: "u32 \<Rightarrow> u32 \<Rightarrow> 'a kmem \<Rightarrow> 'a kmem" where "set_time t = poke (off t 52)"

section \<open>The boot stack\<close>

text \<open>The loop that maps the new stack runs while \<open>i\<close> is not below its lower end, and never ends at 0.\<close>

partial_function (option) map_stack :: "nat \<Rightarrow> u32 \<Rightarrow> u32 \<Rightarrow> 'a kmem \<Rightarrow> (fault + 'a kmem) option" where
  "map_stack n lower i s =
     (if lower \<le> i then
        (case get_page (malloc_ap n) i 1 (cur_vm_page_dir s) s of
           Inl e \<Rightarrow> Some (Inl e)
         | Inr r \<Rightarrow> map_stack n lower (i - 0x1000) (alloc_frame (fst r) 0 1 (snd r)))
      else Some (Inr s))"

partial_function (option) relocate_stack :: "u32 \<Rightarrow> u32 \<Rightarrow> u32 \<Rightarrow> u32 \<Rightarrow> u32 \<Rightarrow> 'a kmem \<Rightarrow> 'a kmem option" where
  "relocate_stack lower old_stack_p initial offset i s =
     (if lower < i then
        relocate_stack lower old_stack_p initial offset (i - 4)
          (if old_stack_p < peek s i \<and> peek s i < initial then poke i (peek s i + offset) s else s)
      else Some s)"

definition move_stack :: "nat \<Rightarrow> u32 \<Rightarrow> u32 \<Rightarrow> 'a tasking \<Rightarrow> fault + 'a tasking" where
  "move_stack n new_stack stack_size s =
     ebind (case map_stack n (new_stack - stack_size) new_stack s of None \<Rightarrow> Inl Hang | Some r \<Rightarrow> r) (\<lambda>s.
       let page_dir_addr = cr3 s;
           s = s\<lparr>cr3 := page_dir_addr\<rparr>;
           old_stack_p = esp s;
           old_base_p = ebp s;
           offset = new_stack - initial_esp s;
           new_stack_p = old_stack_p + offset;
           new_base_p = old_base_p + offset;
           s = s\<lparr>mem := fst (memcpy (mem s) new_stack_p old_stack_p (initial_esp s - old_stack_p))\<rparr>
       in ebind (or_hang (relocate_stack (new_stack - stack_size) old_stack_p (initial_esp s) offset new_stack s))
            (\<lambda>s. Inr (s\<lparr>esp := new_stack_p, ebp := new_base_p\<rparr>)))"

definition init_multitask :: "nat \<Rightarrow> 'a tasking \<Rightarrow> fault + 'a tasking" where
  "init_multitask n s =
     (let s = s\<lparr>if_flag := False\<rparr> in
      ebind (move_stack n 0xE0000000 0x2000 s) (\<lambda>s.
      ebind (malloc_s n sizeof_pcb s) (\<lambda>(t, s).
        let s = s\<lparr>head_task := t\<rparr>;
            s = s\<lparr>cur_task := t\<rparr>;
            s = set_pid (cur_task s) (next_pid s) s;
            s = s\<lparr>next_pid := next_pid s + 1\<rparr>;
            s = set_ebp (cur_task s) 0 s;
            s = set_esp (cur_task s) 0 s;
            s = set_eip (cur_task s) 0 s;
            s = set_page_dir (cur_task s) (cur_vm_page_dir s) s;
            s = set_next (cur_task s) 0 s;
            s = set_state (cur_task s) TASK_RUNNABLE s
        in Inr (s\<lparr>if_flag := True\<rparr>))))"

section \<open>Creating tasks\<close>

partial_function (option) last_task :: "'a kmem \<Rightarrow> u32 \<Rightarrow> u32 option" where
  "last_task s t = (if pcb_next s t \<noteq> 0 then last_task s (pcb_next s t) else Some t)"

text \<open>\<open>fork\<close> up to its call of \<open>read_eip\<close>, and what it does each time that call returns.\<close>

definition fork_prepare :: "nat \<Rightarrow> 'a tasking \<Rightarrow> fault + (u32 \<times> u32 \<times> 'a tasking)" where
  "fork_prepare n s =
     (let s = s\<lparr>if_flag := False\<rparr>;
          parent_task = cur_task s
      in ebind (clone_dir n (cur_vm_page_dir s) s) (\<lambda>(dir, s).
         ebind (malloc_s n sizeof_pcb s) (\<lambda>(new_task, s).
           let s = set_pid new_task (next_pid s) s;
               s = s\<lparr>next_pid := next_pid s + 1\<rparr>;
               s = set_ebp new_task 0 s;
               s = set_esp new_task 0 s;
               s = set_eip new_task 0 s;
               s = set_page_dir new_task dir s;
               s = set_next new_task 0 s;
               s = set_state new_task TASK_RUNNABLE s;
               s = set_time new_task 0 s
           in ebind (or_hang (last_task s (head_task s))) (\<lambda>tmp_task.
                Inr (parent_task, new_task, set_next tmp_task new_task s)))))"

definition fork_return :: "u32 \<Rightarrow> u32 \<Rightarrow> u32 \<Rightarrow> 'a tasking \<Rightarrow> u32 \<times> 'a tasking" where
  "fork_return parent_task new_task eip s =
     (if cur_task s = parent_task then
        let s = set_esp new_task (esp s) s;
            s = set_ebp new_task (ebp s) s;
            s = set_eip new_task eip s;
            s = s\<lparr>if_flag := True\<rparr>
        in (pcb_pid s new_task, s)
      else (0, s\<lparr>if_flag := True\<rparr>))"

definition fork :: "nat \<Rightarrow> u32 \<Rightarrow> 'a tasking \<Rightarrow> fault + (u32 \<times> 'a tasking)" where
  "fork n eip s =
     ebind (fork_prepare n s) (\<lambda>(parent_task, new_task, s). Inr (fork_return parent_task new_task eip s))"

definition getpid :: "'a tasking \<Rightarrow> u32" where
  "getpid s = pcb_pid s (cur_task s)"

definition create_task :: "nat \<Rightarrow> u32 \<Rightarrow> 'a tasking \<Rightarrow> fault + 'a tasking" where
  "create_task n eip s = ebind (fork n eip s) (\<lambda>(ret, s). if ret = 0 then Inl Hang else Inr s)"

section \<open>Switching\<close>

text \<open>The assembly that ends a switch: the directory, the stack and the jump.\<close>

definition resume :: "u32 \<Rightarrow> u32 \<Rightarrow> u32 \<Rightarrow> 'a tasking \<Rightarrow> 'b control \<times> 'a tasking" where
  "resume sp bp ip s =
     (let s = s\<lparr>if_flag := False\<rparr>;
          s = s\<lparr>cr3 := peek s (dir_phy_slot (cur_vm_page_dir s))\<rparr>;
          s = s\<lparr>esp := sp, ebp := bp\<rparr>;
          s = s\<lparr>if_flag := True\<rparr>
      in (Jump ip, s))"

definition task_switch :: "u32 \<Rightarrow> 'a tasking \<Rightarrow> unit control \<times> 'a tasking" where
  "task_switch eip s =
     (if cur_task s = 0 then (Return (), s)
      else if eip = RESUMED then (Return (), s)
      else
        let s = set_eip (cur_task s) eip s;
            s = set_esp (cur_task s) (esp s) s;
            s = set_ebp (cur_task s) (ebp s) s;
            s = set_time (cur_task s) (pcb_time s (cur_task s) + 1) s;
            s = s\<lparr>cur_task := pcb_next s (cur_task s)\<rparr>;
            s = (if cur_task s = 0 then s\<lparr>cur_task := head_task s\<rparr> else s);
            sp = pcb_esp s (cur_task s);
            bp = pcb_ebp s (cur_task s);
            ip = pcb_eip s (cur_task s);
            s = s\<lparr>cur_vm_page_dir := pcb_page_dir s (cur_task s)\<rparr>
        in resume sp bp ip s)"

definition timer_callback :: "u32 \<Rightarrow> 'a tasking \<Rightarrow> unit control \<times> 'a tasking" where
  "timer_callback eip s = (let s = s\<lparr>tick := tick s + 1\<rparr> in task_switch eip s)"

section \<open>Ending tasks\<close>

text \<open>The walks do not stop at the end of the list: after the last task they go on at address 0.\<close>

partial_function (option) find_previous :: "'a kmem \<Rightarrow> u32 \<Rightarrow> u32 \<Rightarrow> u32 option" where
  "find_previous s target t = (if pcb_next s t \<noteq> target then find_previous s target (pcb_next s t) else Some t)"

definition task_exit :: "'a tasking \<Rightarrow> fault + (unit control \<times> 'a tasking)" where
  "task_exit s =
     (let s = s\<lparr>if_flag := False\<rparr> in
      if head_task s = 0 \<or> cur_task s = 0 then Inr (Return (), s)
      else ebind (or_hang (find_previous s (cur_task s) (head_task s))) (\<lambda>t.
        let t_cur_task = pcb_next s t;
            s = set_next t (pcb_next s t_cur_task) s;
            s = s\<lparr>cur_task := t\<rparr>;
            sp = pcb_esp s (cur_task s);
            bp = pcb_ebp s (cur_task s);
            ip = pcb_eip s (cur_task s);
            s = s\<lparr>cur_vm_page_dir := pcb_page_dir s (cur_task s)\<rparr>;
            s = free_all_page (pcb_page_dir s t_cur_task) s
        in ebind (kfree t_cur_task s) (\<lambda>s. Inr (resume sp bp ip s))))"

text \<open>The task before the one with the pid, or nothing when the walk comes to a null pointer.\<close>

partial_function (option) find_before_pid :: "'a kmem \<Rightarrow> u32 \<Rightarrow> u32 \<Rightarrow> u32 option option" where
  "find_before_pid s pid t =
     (if pcb_pid s (pcb_next s t) \<noteq> pid then
        let t = pcb_next s t in
        if t = 0 then Some None else find_before_pid s pid t
      else Some (Some t))"

definition task_exit_pid :: "u32 \<Rightarrow> u32 \<Rightarrow> 'a tasking \<Rightarrow> fault + (unit control \<times> 'a tasking)" where
  "task_exit_pid pid eip s =
     (let s = s\<lparr>if_flag := False\<rparr> in
      if head_task s = 0 \<or> cur_task s = 0 then Inr (Return (), s)
      else ebind (or_hang (find_before_pid s pid (head_task s))) (\<lambda>found.
        case found of
          None \<Rightarrow> Inr (Return (), kprintf (''not thread with pid'' @ [CHR 0x0A]) [] s)
        | Some t \<Rightarrow>
            let t_cur_task = pcb_next s t;
                s = set_next t (pcb_next s t_cur_task) s
            in if cur_task s = 0 then Inr (Return (), s)
               else if eip = RESUMED then Inr (Return (), s)
               else
                 let s = set_eip (cur_task s) eip s;
                     s = set_esp (cur_task s) (esp s) s;
                     s = set_ebp (cur_task s) (ebp s) s;
                     s = s\<lparr>cur_task := t\<rparr>;
                     sp = pcb_esp s (cur_task s);
                     bp = pcb_ebp s (cur_task s);
                     ip = pcb_eip s (cur_task s);
                     s = s\<lparr>cur_vm_page_dir := pcb_page_dir s (cur_task s)\<rparr>
                 in Inr (resume sp bp ip s)))"

section \<open>Printing\<close>

definition print_curtask :: "'a tasking \<Rightarrow> 'a tasking" where
  "print_curtask s = kprintf (''cur pid:%d'' @ [CHR 0x0A]) [AInt (pcb_pid s (cur_task s))] s"

partial_function (option) print_tasks :: "u32 \<Rightarrow> 'a kmem \<Rightarrow> 'a kmem option" where
  "print_tasks t s =
     (let s = kprintf (''%d    %x     %x     %x     %x    %d'' @ [CHR 0x0A])
                [AInt (pcb_pid s t), AInt (pcb_esp s t), AInt (pcb_eip s t), AInt (pcb_ebp s t),
                 AInt (pcb_page_dir s t), AInt (pcb_time s t)] s;
          t = pcb_next s t
      in if t \<noteq> 0 then print_tasks t s else Some s)"

definition print_task :: "'a tasking \<Rightarrow> fault + 'a tasking" where
  "print_task s =
     (let t = head_task s;
          s = kprintf (''pid    esp        eip        ebp        diraddr    time'' @ [CHR 0x0A]) [] s
      in ebind (or_hang (print_tasks t s)) (\<lambda>s. Inr (kprintf [CHR 0x0A] [] s)))"

end
