(* ===== verification/Task_Correctness.thy ===== *)
theory Task_Correctness
  imports Tasking Globals_Kept
begin

text \<open>
  What \<open>src/src/task.c\<close> promises: the tasks form a list in memory that every operation keeps, the timer
  runs them in turn, a switched-out task comes back with the registers it had, \<open>fork\<close> adds a task at
  the end, and what happens when tasks end.
\<close>

section \<open>The list of tasks\<close>

fun chain :: "'a kmem \<Rightarrow> u32 \<Rightarrow> u32 list \<Rightarrow> bool" where
  "chain s p [] \<longleftrightarrow> p = 0"
| "chain s p (t # ts) \<longleftrightarrow> p = t \<and> t \<noteq> 0 \<and> chain s (pcb_next s t) ts"

definition pcbs_apart :: "u32 list \<Rightarrow> bool" where
  "pcbs_apart ts \<longleftrightarrow> sorted_wrt (\<lambda>t u. apart t 56 u 56) ts"

definition task_list :: "'a tasking \<Rightarrow> u32 list \<Rightarrow> bool" where
  "task_list s ts \<longleftrightarrow> ts \<noteq> [] \<and> chain s (head_task s) ts \<and> pcbs_apart ts"

definition same_pcb :: "'a kmem \<Rightarrow> 'b kmem \<Rightarrow> u32 \<Rightarrow> bool" where
  "same_pcb s u t \<longleftrightarrow> (\<forall>j. j + 4 \<le> 56 \<longrightarrow> peek u (off t j) = peek s (off t j))"

lemmas pcb_defs = pcb_pid_def pcb_esp_def pcb_ebp_def pcb_eip_def pcb_state_def pcb_page_dir_def pcb_next_def pcb_time_def
lemmas set_pcb_defs = set_pid_def set_esp_def set_ebp_def set_eip_def set_state_def set_page_dir_def set_next_def set_time_def

lemma peek_poke_off:
  assumes "i = j \<or> i + 4 \<le> j \<or> j + 4 \<le> i" and "i + 4 \<le> 0x1000" and "j + 4 \<le> 0x1000"
  shows "peek (poke (off c i) v s) (off c j) = (if i = j then v else peek s (off c j))"
proof (cases "i = j")
  case True
  then show ?thesis by (simp add: peek_poke_same del: poke_frame)
next
  case False
  then have "apart (off c i) 4 (off c j) 4" using assms by (intro off_apart_either) auto
  then show ?thesis using False by (simp add: kernel.rd_wr_apart del: poke_frame)
qed

lemma apart_self: "0 < n \<Longrightarrow> \<not> apart a n a k"
  by (simp add: apart_def)

lemma pcbs_apart_nth:
  assumes "pcbs_apart ts" and "i < length ts" and "j < length ts" and "i \<noteq> j"
  shows "apart (ts ! i) 56 (ts ! j) 56"
proof -
  have *: "apart (ts ! i) 56 (ts ! j) 56" if "i < j" "j < length ts" for i j
    using assms(1) that by (simp add: pcbs_apart_def sorted_wrt_iff_nth_less)
  from assms(4) consider "i < j" | "j < i" by linarith
  then show ?thesis using * [of i j] * [of j i] assms(2,3) by cases (simp_all add: apart_sym)
qed

lemma pcbs_apart_distinct: "pcbs_apart ts \<Longrightarrow> distinct ts"
  unfolding distinct_conv_nth by (metis apart_self pcbs_apart_nth zero_less_numeral)

lemma pcbs_apart_in:
  assumes "pcbs_apart ts" and "t \<in> set ts" and "u \<in> set ts" and "t \<noteq> u"
  shows "apart t 56 u 56"
  using assms pcbs_apart_nth by (metis in_set_conv_nth)

lemma chain_cong: "(\<And>t. t \<in> set ts \<Longrightarrow> pcb_next u t = pcb_next s t) \<Longrightarrow> chain u p ts = chain s p ts"
  by (induction ts arbitrary: p) auto

lemma chain_next:
  "chain s p ts \<Longrightarrow> i < length ts \<Longrightarrow> pcb_next s (ts ! i) = (if Suc i < length ts then ts ! Suc i else 0)"
proof (induction ts arbitrary: p i)
  case (Cons t ts)
  then show ?case
  proof (cases i)
    case 0
    with Cons.prems show ?thesis by (cases ts) auto
  next
    case (Suc k)
    with Cons show ?thesis by auto
  qed
qed simp

lemma chain_nonzero: "chain s p ts \<Longrightarrow> t \<in> set ts \<Longrightarrow> t \<noteq> 0"
  by (induction ts arbitrary: p) auto

lemma chain_hd: "chain s p ts \<Longrightarrow> ts \<noteq> [] \<Longrightarrow> p = hd ts"
  by (cases ts) auto

lemma poke_other_pcb:
  assumes "apart c 56 t 56" and "i + 4 \<le> 56"
  shows "same_pcb s (poke (off c i) v s) t"
proof -
  have "peek (poke (off c i) v s) (off t j) = peek s (off t j)" if "j + 4 \<le> 56" for j
  proof -
    have "apart (off c i) 4 t 56" using assms by (intro apart_sub [of c 56]) simp_all
    then have "apart (off t j) 4 (off c i) 4" using that by (intro apart_sub [of t 56]) (simp_all add: apart_sym)
    then show ?thesis by (simp add: kernel.rd_wr_apart apart_sym del: poke_frame)
  qed
  then show ?thesis by (simp add: same_pcb_def)
qed

lemma same_pcb_refl: "same_pcb s s t"
  by (simp add: same_pcb_def)

lemma same_pcb_trans: "same_pcb s u t \<Longrightarrow> same_pcb u v t \<Longrightarrow> same_pcb s v t"
  by (simp add: same_pcb_def)

lemma same_pcb_fields:
  assumes "same_pcb s u t"
  shows "pcb_pid u t = pcb_pid s t" "pcb_esp u t = pcb_esp s t" "pcb_ebp u t = pcb_ebp s t" "pcb_eip u t = pcb_eip s t"
    "pcb_state u t = pcb_state s t" "pcb_page_dir u t = pcb_page_dir s t" "pcb_next u t = pcb_next s t"
    "pcb_time u t = pcb_time s t"
  using assms by (simp_all add: same_pcb_def pcb_defs)

lemma pid_poke:
  assumes "pcbs_apart ts" and "c \<in> set ts" and "d \<in> set ts" and "4 \<le> j" and "j + 4 \<le> 56"
  shows "pcb_pid (poke (off c j) v s) d = pcb_pid s d"
proof (cases "c = d")
  case True
  then show ?thesis using assms(4,5) by (simp add: pcb_pid_def peek_poke_off)
next
  case False
  then have "apart c 56 d 56" using pcbs_apart_in [OF assms(1-3)] by simp
  from same_pcb_fields(1) [OF poke_other_pcb [OF this assms(5)]] show ?thesis .
qed

lemma poke_task_frame [simp]:
  "cur_task (poke a v s) = cur_task s" "head_task (poke a v s) = head_task s" "next_pid (poke a v s) = next_pid s"
  "initial_esp (poke a v s) = initial_esp s" "esp (poke a v s) = esp s" "ebp (poke a v s) = ebp s" "tick (poke a v s) = tick s"
  for s :: "'a tasking"
  by (simp_all add: poke_def)

section \<open>One switch\<close>

text \<open>The state in which the running task has saved its registers.\<close>

definition save_context :: "u32 \<Rightarrow> 'a tasking \<Rightarrow> 'a tasking" where
  "save_context eip s =
     (let c = cur_task s; s = set_ebp c (ebp s) (set_esp c (esp s) (set_eip c eip s))
      in set_time c (pcb_time s c + 1) s)"

lemma save_context_frame:
  "cur_task (save_context eip s) = cur_task s" "head_task (save_context eip s) = head_task s"
  "next_pid (save_context eip s) = next_pid s" "initial_esp (save_context eip s) = initial_esp s"
  "same_registers s (s\<lparr>mem := mem (save_context eip s)\<rparr>)"
  by (simp_all add: save_context_def Let_def set_pcb_defs same_registers_def)

lemma save_context_own:
  fixes s :: "'a tasking" and eip :: u32
  defines "c \<equiv> cur_task s" and "u \<equiv> save_context eip s"
  shows "pcb_eip u c = eip" "pcb_esp u c = esp s" "pcb_ebp u c = ebp s" "pcb_time u c = pcb_time s c + 1"
    "pcb_pid u c = pcb_pid s c" "pcb_state u c = pcb_state s c" "pcb_page_dir u c = pcb_page_dir s c" "pcb_next u c = pcb_next s c"
  unfolding u_def c_def save_context_def Let_def set_pcb_defs pcb_defs by (simp_all add: peek_poke_off)

lemma save_context_other:
  fixes s :: "'a tasking"
  assumes "apart (cur_task s) 56 t 56"
  shows "same_pcb s (save_context eip s) t"
  unfolding save_context_def Let_def set_pcb_defs
  by (rule same_pcb_trans [OF _ poke_other_pcb [OF assms]], rule same_pcb_trans [OF _ poke_other_pcb [OF assms]],
      rule same_pcb_trans [OF _ poke_other_pcb [OF assms]], rule poke_other_pcb [OF assms]) simp_all

lemma save_context_list:
  fixes s :: "'a tasking"
  assumes "task_list s ts" and "cur_task s \<in> set ts"
  shows "task_list (save_context eip s) ts"
proof -
  have "pcb_next (save_context eip s) t = pcb_next s t" if "t \<in> set ts" for t
  proof (cases "t = cur_task s")
    case True
    then show ?thesis by (simp add: save_context_own)
  next
    case False
    then have "apart (cur_task s) 56 t 56" using assms that by (auto simp: task_list_def intro: pcbs_apart_in)
    from same_pcb_fields(7) [OF save_context_other [OF this]] show ?thesis .
  qed
  then have "chain (save_context eip s) p ts = chain s p ts" for p by (rule chain_cong)
  then show ?thesis using assms(1) by (simp add: task_list_def save_context_frame)
qed

text \<open>The task after the one at place \<open>i\<close>, in turn.\<close>

definition turn :: "u32 list \<Rightarrow> nat \<Rightarrow> u32" where
  "turn ts i = ts ! (i mod length ts)"

lemma next_turn:
  assumes "task_list s ts" and "i < length ts"
  shows "(if pcb_next s (ts ! i) = 0 then head_task s else pcb_next s (ts ! i)) = turn ts (Suc i)"
proof -
  have c: "chain s (head_task s) ts" and ne: "ts \<noteq> []" using assms(1) by (simp_all add: task_list_def)
  have h: "head_task s = ts ! 0" using chain_hd [OF c ne] ne by (simp add: hd_conv_nth)
  have n: "pcb_next s (ts ! i) = (if Suc i < length ts then ts ! Suc i else 0)" by (rule chain_next [OF c assms(2)])
  show ?thesis
  proof (cases "Suc i < length ts")
    case True
    then have "ts ! Suc i \<noteq> 0" using chain_nonzero [OF c] by simp
    with True n show ?thesis by (simp add: turn_def)
  next
    case False
    then have "Suc i = length ts" using assms(2) by simp
    then have "Suc i mod length ts = 0" by simp
    with n h False show ?thesis by (simp add: turn_def)
  qed
qed

lemma peek_update [simp]:
  "peek (s\<lparr>cur_task := x\<rparr>) = peek s" "peek (s\<lparr>head_task := x\<rparr>) = peek s" "peek (s\<lparr>cur_vm_page_dir := x\<rparr>) = peek s"
  "peek (s\<lparr>esp := x\<rparr>) = peek s" "peek (s\<lparr>ebp := x\<rparr>) = peek s" "peek (s\<lparr>tick := x\<rparr>) = peek s"
  "peek (s\<lparr>if_flag := b\<rparr>) = peek s" "peek (s\<lparr>cr3 := x\<rparr>) = peek s" "peek (s\<lparr>next_pid := x\<rparr>) = peek s"
  for s :: "'a tasking"
  by (simp_all add: peek_def fun_eq_iff)

lemma pcb_update [simp]:
  "pcb_next (s\<lparr>cur_task := x\<rparr>) = pcb_next s" "pcb_esp (s\<lparr>cur_task := x\<rparr>) = pcb_esp s"
  "pcb_ebp (s\<lparr>cur_task := x\<rparr>) = pcb_ebp s" "pcb_eip (s\<lparr>cur_task := x\<rparr>) = pcb_eip s"
  "pcb_page_dir (s\<lparr>cur_task := x\<rparr>) = pcb_page_dir s" "pcb_next (s\<lparr>if_flag := b\<rparr>) = pcb_next s"
  "pcb_pid (s\<lparr>if_flag := b\<rparr>) = pcb_pid s"
  for s :: "'a tasking"
  by (simp_all add: pcb_defs fun_eq_iff)

lemma switch_eq:
  fixes s :: "'a tasking" and eip :: u32
  assumes "task_list s ts" and "i < length ts" and "cur_task s = ts ! i" and "eip \<noteq> RESUMED"
  defines "u \<equiv> save_context eip s" and "nx \<equiv> turn ts (Suc i)"
  shows "task_switch eip s = (Jump (pcb_eip u nx), u\<lparr>cur_task := nx, cur_vm_page_dir := pcb_page_dir u nx,
    cr3 := peek u (dir_phy_slot (pcb_page_dir u nx)), esp := pcb_esp u nx, ebp := pcb_ebp u nx, if_flag := True\<rparr>)"
proof -
  have in_ts: "cur_task s \<in> set ts" using assms(2,3) by simp
  then have nz: "cur_task s \<noteq> 0" using assms(1) chain_nonzero by (auto simp: task_list_def)
  have cu: "cur_task u = cur_task s" by (simp add: u_def save_context_frame)
  have nx: "(if pcb_next u (cur_task s) = 0 then head_task u else pcb_next u (cur_task s)) = nx"
    using next_turn [OF save_context_list [OF assms(1) in_ts] assms(2), of eip] unfolding u_def nx_def assms(3) .
  have v: "(let v = u\<lparr>cur_task := pcb_next u (cur_task s)\<rparr>
       in if cur_task v = 0 then v\<lparr>cur_task := head_task v\<rparr> else v) = u\<lparr>cur_task := nx\<rparr>"
    using nx by (auto simp: Let_def)
  have "task_switch eip s =
      (let v = (let v = u\<lparr>cur_task := pcb_next u (cur_task s)\<rparr>
                in if cur_task v = 0 then v\<lparr>cur_task := head_task v\<rparr> else v);
           w = v\<lparr>cur_vm_page_dir := pcb_page_dir v (cur_task v)\<rparr>
       in resume (pcb_esp v (cur_task v)) (pcb_ebp v (cur_task v)) (pcb_eip v (cur_task v)) w)"
    using nz assms(4) by (simp add: task_switch_def u_def save_context_def Let_def set_pcb_defs)
  then show ?thesis unfolding v by (simp add: resume_def Let_def)
qed


lemma task_list_cong:
  "peek t = peek s \<Longrightarrow> head_task t = head_task s \<Longrightarrow> task_list t ts = task_list s ts"
  unfolding task_list_def by (subst chain_cong [of ts t s]) (simp_all add: pcb_next_def)

lemma same_pcb_cong: "peek u = peek u' \<Longrightarrow> same_pcb s u t = same_pcb s u' t"
  by (simp add: same_pcb_def)

lemma pcb_cong:
  assumes "peek t = peek s"
  shows "pcb_pid t c = pcb_pid s c" "pcb_esp t c = pcb_esp s c" "pcb_ebp t c = pcb_ebp s c" "pcb_eip t c = pcb_eip s c"
    "pcb_state t c = pcb_state s c" "pcb_page_dir t c = pcb_page_dir s c" "pcb_next t c = pcb_next s c"
    "pcb_time t c = pcb_time s c"
  by (simp_all add: pcb_defs assms)

lemma switch_result:
  fixes s :: "'a tasking" and eip :: u32
  assumes "task_list s ts" and "i < length ts" and "cur_task s = ts ! i" and "eip \<noteq> RESUMED"
  defines "r \<equiv> fst (task_switch eip s)" and "t \<equiv> snd (task_switch eip s)" and "nx \<equiv> turn ts (Suc i)"
  shows "task_list t ts" and "cur_task t = nx" and "r = Jump (pcb_eip t nx)" and "esp t = pcb_esp t nx" and "ebp t = pcb_ebp t nx"
    and "cur_vm_page_dir t = pcb_page_dir t nx" and "cr3 t = peek t (dir_phy_slot (pcb_page_dir t nx))" and "if_flag t"
    and "pcb_eip t (ts ! i) = eip" and "pcb_esp t (ts ! i) = esp s" and "pcb_ebp t (ts ! i) = ebp s"
    and "pcb_time t (ts ! i) = pcb_time s (ts ! i) + 1"
    and "\<And>c. c \<in> set ts \<Longrightarrow> c \<noteq> ts ! i \<Longrightarrow> same_pcb s t c"
    and "pcb_pid t (ts ! i) = pcb_pid s (ts ! i)" and "pcb_page_dir t (ts ! i) = pcb_page_dir s (ts ! i)"
proof -
  let ?u = "save_context eip s"
  note eq = switch_eq [OF assms(1-4), folded nx_def]
  have pk: "peek t = peek ?u" unfolding t_def eq by simp
  note f = pcb_cong [OF pk]
  have l: "task_list ?u ts" using save_context_list [OF assms(1)] assms(2,3) by simp
  have "head_task t = head_task ?u" unfolding t_def eq by simp
  then show "task_list t ts" using l task_list_cong [OF pk] by simp
  show "cur_task t = nx" "r = Jump (pcb_eip t nx)" "esp t = pcb_esp t nx" "ebp t = pcb_ebp t nx"
    "cur_vm_page_dir t = pcb_page_dir t nx" "cr3 t = peek t (dir_phy_slot (pcb_page_dir t nx))" "if_flag t"
    unfolding f pk unfolding r_def t_def eq by simp_all
  show "pcb_eip t (ts ! i) = eip" "pcb_esp t (ts ! i) = esp s" "pcb_ebp t (ts ! i) = ebp s"
    "pcb_time t (ts ! i) = pcb_time s (ts ! i) + 1" "pcb_pid t (ts ! i) = pcb_pid s (ts ! i)"
    "pcb_page_dir t (ts ! i) = pcb_page_dir s (ts ! i)"
    unfolding f using save_context_own [of eip s] assms(3) by simp_all
  show "same_pcb s t c" if "c \<in> set ts" "c \<noteq> ts ! i" for c
  proof -
    have "apart (cur_task s) 56 c 56"
      using assms(1-3) that by (intro pcbs_apart_in [of ts]) (auto simp: task_list_def)
    then show ?thesis unfolding same_pcb_cong [OF pk] by (rule save_context_other)
  qed
qed

section \<open>Many switches\<close>

text \<open>
  A tick of the timer, when the running task has the given registers: the address \<open>read_eip\<close> gives, the
  stack pointer and the base pointer.
\<close>

definition tick_with :: "u32 \<times> u32 \<times> u32 \<Rightarrow> 'a tasking \<Rightarrow> unit control \<times> 'a tasking" where
  "tick_with c s = timer_callback (fst c) (s\<lparr>esp := fst (snd c), ebp := snd (snd c)\<rparr>)"

definition ticks :: "(u32 \<times> u32 \<times> u32) list \<Rightarrow> 'a tasking \<Rightarrow> 'a tasking" where
  "ticks cs s = fold (\<lambda>c s. snd (tick_with c s)) cs s"

lemma ticks_simps [simp]:
  "ticks [] s = s" "ticks (c # cs) s = ticks cs (snd (tick_with c s))" "ticks (cs @ ds) s = ticks ds (ticks cs s)"
  by (simp_all add: ticks_def)

lemma tick_result:
  fixes s :: "'a tasking"
  assumes "task_list s ts" and "i < length ts" and "cur_task s = ts ! i" and "fst c \<noteq> RESUMED"
  defines "t \<equiv> snd (tick_with c s)" and "nx \<equiv> turn ts (Suc i)"
  shows "task_list t ts" and "cur_task t = nx"
    and "fst (tick_with c s) = Jump (pcb_eip t nx)" and "esp t = pcb_esp t nx" and "ebp t = pcb_ebp t nx"
    and "pcb_eip t (ts ! i) = fst c" and "pcb_esp t (ts ! i) = fst (snd c)" and "pcb_ebp t (ts ! i) = snd (snd c)"
    and "\<And>d. d \<in> set ts \<Longrightarrow> d \<noteq> ts ! i \<Longrightarrow> same_pcb s t d"
proof -
  let ?s = "s\<lparr>esp := fst (snd c), ebp := snd (snd c), tick := tick s + 1\<rparr>"
  have pk: "peek ?s = peek s" by simp
  have l: "task_list ?s ts" using assms(1) task_list_cong [OF pk] by simp
  have t: "tick_with c s = task_switch (fst c) ?s" by (simp add: tick_with_def timer_callback_def Let_def)
  have cu: "cur_task ?s = ts ! i" using assms(3) by simp
  note r = switch_result [OF l assms(2) cu assms(4), folded t t_def nx_def]
  show "task_list t ts" "cur_task t = nx" "fst (tick_with c s) = Jump (pcb_eip t nx)" "esp t = pcb_esp t nx" "ebp t = pcb_ebp t nx"
    "pcb_eip t (ts ! i) = fst c" "pcb_esp t (ts ! i) = fst (snd c)" "pcb_ebp t (ts ! i) = snd (snd c)"
    using r by simp_all
  show "\<And>d. d \<in> set ts \<Longrightarrow> d \<noteq> ts ! i \<Longrightarrow> same_pcb s t d" using r(13) by (simp add: same_pcb_def)
qed

lemma turn_mod: "ts \<noteq> [] \<Longrightarrow> i < length ts \<Longrightarrow> turn ts i = ts ! i"
  by (simp add: turn_def)

lemma ticks_turns:
  fixes s :: "'a tasking"
  assumes "task_list s ts" and "i < length ts" and "cur_task s = ts ! i" and "\<forall>c \<in> set cs. fst c \<noteq> RESUMED"
  shows "task_list (ticks cs s) ts \<and> cur_task (ticks cs s) = turn ts (i + length cs)"
  using assms
proof (induction cs arbitrary: s i)
  case Nil
  then show ?case by (simp add: turn_def)
next
  case (Cons c cs)
  have c: "fst c \<noteq> RESUMED" using Cons.prems(4) by simp
  note r = tick_result [OF Cons.prems(1-3) c]
  have ne: "ts \<noteq> []" using Cons.prems(2) by auto
  have "Suc i mod length ts < length ts" using ne by simp
  then have "task_list (ticks cs (snd (tick_with c s))) ts
      \<and> cur_task (ticks cs (snd (tick_with c s))) = turn ts (Suc i mod length ts + length cs)"
    using Cons.IH [OF r(1)] r(2) Cons.prems(4) by (simp add: turn_def)
  then show ?case by (simp add: turn_def mod_simps)
qed

text \<open>What a task saved stays in its struct until it runs again.\<close>

lemma ticks_keep:
  fixes s :: "'a tasking"
  assumes "task_list s ts" and "i < length ts" and "cur_task s = ts ! i" and "\<forall>c \<in> set cs. fst c \<noteq> RESUMED"
    and "d \<in> set ts" and "\<And>k. k < length cs \<Longrightarrow> turn ts (i + k) \<noteq> d"
  shows "same_pcb s (ticks cs s) d"
  using assms
proof (induction cs arbitrary: s i)
  case Nil
  then show ?case by (simp add: same_pcb_refl)
next
  case (Cons c cs)
  have c: "fst c \<noteq> RESUMED" using Cons.prems(4) by simp
  note r = tick_result [OF Cons.prems(1-3) c]
  have ne: "ts \<noteq> []" using Cons.prems(2) by auto
  have "d \<noteq> ts ! i" using Cons.prems(6) [of 0] Cons.prems(2) by (simp add: turn_def)
  then have a: "same_pcb s (snd (tick_with c s)) d" using r(9) Cons.prems(5) by simp
  have lt: "Suc i mod length ts < length ts" using ne by simp
  have b: "same_pcb (snd (tick_with c s)) (ticks cs (snd (tick_with c s))) d"
  proof (rule Cons.IH [OF r(1) lt])
    show "cur_task (snd (tick_with c s)) = ts ! (Suc i mod length ts)" using r(2) by (simp add: turn_def)
    show "turn ts (Suc i mod length ts + k) \<noteq> d" if "k < length cs" for k
      using Cons.prems(6) [of "Suc k"] that by (simp add: turn_def mod_simps)
  qed (use Cons.prems in simp_all)
  from same_pcb_trans [OF a b] show ?case by simp
qed

section \<open>Properties\<close>

text \<open>
  Property C3. \<open>task_switch\<close> in the task at place \<open>i\<close> of the list saves its registers in its struct, counts
  its time, and goes to the next task of the list, from the last one to the first: it loads that task's
  stack, base pointer, directory and page tables, enables interrupts and jumps to its saved address.
  The list and the structs of the other tasks stay as they are. In the task that comes back it returns
  at once.
\<close>

theorem task_switch_takes_turns:
  fixes s :: "'a tasking" and eip :: u32
  assumes "task_list s ts" and "i < length ts" and "cur_task s = ts ! i" and "eip \<noteq> RESUMED"
  defines "c \<equiv> ts ! i" and "nx \<equiv> ts ! (Suc i mod length ts)"
  shows "\<exists>t. task_switch eip s = (Jump (pcb_eip t nx), t) \<and> task_list t ts \<and> cur_task t = nx
    \<and> pcb_eip t c = eip \<and> pcb_esp t c = esp s \<and> pcb_ebp t c = ebp s \<and> pcb_time t c = pcb_time s c + 1
    \<and> (\<forall>d \<in> set ts. d \<noteq> c \<longrightarrow> same_pcb s t d)
    \<and> esp t = pcb_esp t nx \<and> ebp t = pcb_ebp t nx \<and> cur_vm_page_dir t = pcb_page_dir t nx
    \<and> cr3 t = peek t (dir_phy_slot (pcb_page_dir t nx)) \<and> if_flag t
    \<and> task_switch RESUMED t = (Return (), t)"
proof -
  note r = switch_result [OF assms(1-4), unfolded turn_def, folded c_def nx_def]
  have "task_switch RESUMED u = (Return (), u)" for u :: "'a tasking" by (simp add: task_switch_def)
  then show ?thesis
    using r by (intro exI [of _ "snd (task_switch eip s)"]) (simp add: prod_eq_iff)
qed


text \<open>Two tasks at 0x1000 and 0x2000, with pids 1 and 2; the first is running.\<close>

definition two_tasks :: task_memory where
  "two_tasks = \<lparr>mem = (\<lambda>_. 0)(0x1000 := 1, 0x100D := 0x11, 0x1031 := 0x20, 0x2000 := 2, 0x200D := 0x22),
     phys = (\<lambda>_. 0), placement_address = 0x8000, kheap = None, frames = 0x4000, frames_bitmap_size = 2,
     vm_page_dir = 0x10000, cur_vm_page_dir = 0x10000, cr3 = 0, cr0 = 0, if_flag = False, console = [], cur_task = 0x1000,
     head_task = 0x1000, next_pid = 3, initial_esp = 0, esp = 0x700, ebp = 0x710, tick = 0\<rparr>"

lemma two_tasks_list: "task_list two_tasks [0x1000, 0x2000]" "cur_task two_tasks = [0x1000, 0x2000] ! 0"
proof -
  have n: "pcb_next two_tasks 0x1000 = 0x2000" "pcb_next two_tasks 0x2000 = 0" by code_simp+
  have h: "head_task two_tasks = 0x1000" by (simp add: two_tasks_def)
  have a: "apart 0x1000 56 0x2000 56" by (simp add: apart_def)
  show "task_list two_tasks [0x1000, 0x2000]" by (simp add: task_list_def pcbs_apart_def h n a)
  show "cur_task two_tasks = [0x1000, 0x2000] ! 0" by (simp add: two_tasks_def)
qed

theorem task_switch_takes_turns_witness:
  "\<exists>t. task_switch 0x1234 two_tasks = (Jump (pcb_eip t 0x2000), t) \<and> pcb_eip t 0x1000 = 0x1234 \<and> cur_task t = 0x2000"
proof -
  have e: "(0x1234 :: u32) \<noteq> RESUMED" by (simp add: RESUMED_def)
  show ?thesis using task_switch_takes_turns [OF two_tasks_list(1) _ two_tasks_list(2) e] by auto
qed

text \<open>
  Property C12. The timer is fair: whatever the tasks do to their registers between the ticks, after \<open>k\<close>
  ticks the task \<open>k\<close> places further on is running, so each of \<open>n\<close> tasks runs once in any \<open>n\<close> ticks.
\<close>

theorem timer_is_fair:
  fixes s :: "'a tasking"
  assumes "task_list s ts" and "i < length ts" and "cur_task s = ts ! i" and "\<forall>c \<in> set cs. fst c \<noteq> RESUMED"
  shows "task_list (ticks cs s) ts \<and> cur_task (ticks cs s) = ts ! ((i + length cs) mod length ts)
    \<and> (length cs = length ts \<longrightarrow> (\<forall>t \<in> set ts. \<exists>k < length ts. cur_task (ticks (take k cs) s) = t))"
proof (intro conjI impI ballI)
  show "task_list (ticks cs s) ts" "cur_task (ticks cs s) = ts ! ((i + length cs) mod length ts)"
    using ticks_turns [OF assms] by (simp_all add: turn_def)
  fix t
  assume n: "length cs = length ts" and "t \<in> set ts"
  then obtain j where j: "j < length ts" "t = ts ! j" by (auto simp: in_set_conv_nth)
  let ?k = "(j + (length ts - i)) mod length ts"
  have k: "?k < length ts" using assms(2) by (intro mod_less_divisor) linarith
  have "(i + ?k) mod length ts = (i + (j + (length ts - i))) mod length ts" by (simp only: mod_simps)
  also have "\<dots> = (j + length ts) mod length ts" using assms(2) by simp
  also have "\<dots> = j" using j(1) by simp
  finally have "turn ts (i + ?k) = t" using j(2) by (simp add: turn_def)
  moreover have "\<forall>c \<in> set (take ?k cs). fst c \<noteq> RESUMED" using assms(4) by (meson in_set_takeD)
  ultimately have "cur_task (ticks (take ?k cs) s) = t"
    using ticks_turns [OF assms(1-3), of "take ?k cs"] k n by simp
  then show "\<exists>k < length ts. cur_task (ticks (take k cs) s) = t" using k by blast
qed

theorem timer_is_fair_witness:
  "cur_task (ticks [(1, 2, 3), (4, 5, 6), (7, 8, 9)] two_tasks) = 0x2000"
  using timer_is_fair [OF two_tasks_list(1) _ two_tasks_list(2), of "[(1, 2, 3), (4, 5, 6), (7, 8, 9)]"]
  by (simp add: RESUMED_def mod_Suc)

text \<open>
  Property C13. A task gets back what it had: when the timer takes the processor from a task with the
  registers \<open>c\<close>, then the tick that ends the last of the other tasks' turns jumps to the address in \<open>c\<close>
  with the stack pointer and the base pointer of \<open>c\<close>, whatever the other tasks had in theirs.
\<close>

theorem context_restored:
  fixes s :: "'a tasking"
  assumes "task_list s ts" and "i < length ts" and "cur_task s = ts ! i" and "\<forall>d \<in> set (c # cs). fst d \<noteq> RESUMED"
    and "length (c # cs) = length ts"
  defines "r \<equiv> (if cs = [] then tick_with c s else tick_with (last cs) (ticks (c # butlast cs) s))"
  shows "fst r = Jump (fst c) \<and> esp (snd r) = fst (snd c) \<and> ebp (snd r) = snd (snd c) \<and> cur_task (snd r) = ts ! i"
proof -
  let ?d = "ts ! i"
  have c: "fst c \<noteq> RESUMED" using assms(4) by simp
  note first = tick_result [OF assms(1-3) c]
  have ne: "ts \<noteq> []" using assms(2) by auto
  have dist: "distinct ts" using assms(1) by (simp add: task_list_def pcbs_apart_distinct)
  show ?thesis
  proof (cases "cs = []")
    case True
    then have "length ts = 1" using assms(5) by simp
    then have "turn ts (Suc i) = ?d" using assms(2) by (simp add: turn_def)
    then show ?thesis using first True by (simp add: r_def)
  next
    case False
    let ?u = "snd (tick_with c s)" and ?j = "Suc i mod length ts"
    let ?v = "ticks (butlast cs) ?u"
    have j: "?j < length ts" using ne by simp
    have cu: "cur_task ?u = ts ! ?j" using first(2) by (simp add: turn_def)
    have other: "turn ts (?j + k) \<noteq> ?d" if "k < length cs" for k
    proof -
      have "(?j + k) mod length ts = (i + Suc k) mod length ts" by (simp add: mod_simps)
      moreover have "(i + Suc k) mod length ts \<noteq> i"
      proof
        assume "(i + Suc k) mod length ts = i"
        then have "(i + Suc k) mod length ts = (i + 0) mod length ts" using assms(2) by simp
        then have "length ts dvd Suc k" by (metis add_diff_cancel_left' diff_zero le_add1 mod_eq_dvd_iff_nat add.right_neutral)
        moreover have "Suc k < length ts" using that assms(5) by simp
        ultimately show False by (auto dest: dvd_imp_le)
      qed
      ultimately show ?thesis using dist assms(2) ne by (simp add: turn_def nth_eq_iff_index_eq)
    qed
    have bl: "\<forall>d \<in> set (butlast cs). fst d \<noteq> RESUMED" using assms(4) by (auto dest: in_set_butlastD)
    have v: "task_list ?v ts \<and> cur_task ?v = turn ts (?j + length (butlast cs))"
      by (rule ticks_turns [OF first(1) j cu bl])
    have keep: "same_pcb ?u ?v ?d"
      by (rule ticks_keep [OF first(1) j cu bl]) (use other assms(2) in auto)
    let ?l = "(?j + length (butlast cs)) mod length ts"
    have l: "?l < length ts" using ne by simp
    have cl: "cur_task ?v = ts ! ?l" using v by (simp add: turn_def)
    have lr: "fst (last cs) \<noteq> RESUMED" using assms(4) False by simp
    have lne: "ts ! ?l \<noteq> ?d" using other [of "length (butlast cs)"] False by (simp add: turn_def)
    note lst = tick_result [OF _ l cl lr]
    have tl: "task_list ?v ts" using v by simp
    have "Suc (?j + length (butlast cs)) = ?j + length cs" using False by (cases cs rule: rev_cases) simp_all
    then have "Suc (?j + length (butlast cs)) mod length ts = (Suc i + length cs) mod length ts" by (simp only: mod_simps)
    also have "Suc i + length cs = i + length ts" using assms(5) by simp
    also have "(i + length ts) mod length ts = i" using assms(2) by simp
    finally have "Suc (?j + length (butlast cs)) mod length ts = i" .
    then have "Suc ?l mod length ts = i" by (simp only: mod_Suc_eq)
    then have nx: "turn ts (Suc ?l) = ?d" by (simp add: turn_def)
    have saved: "same_pcb ?v (snd (tick_with (last cs) ?v)) ?d" using lst(9) [OF tl] assms(2) lne by simp
    have r: "r = tick_with (last cs) ?v" using False by (simp add: r_def)
    have "same_pcb ?u (snd r) ?d" using same_pcb_trans [OF keep saved] by (simp add: r)
    from same_pcb_fields [OF this] show ?thesis
      using lst(2-5) [OF tl] nx first(6-8) by (simp add: r)
  qed
qed

theorem context_restored_witness:
  "fst (tick_with (4, 5, 6) (ticks [(0x1234, 0x600, 0x610)] two_tasks)) = Jump 0x1234"
  using context_restored [OF two_tasks_list(1) _ two_tasks_list(2), of "(0x1234, 0x600, 0x610)" "[(4, 5, 6)]"]
  by (simp add: RESUMED_def)


section \<open>New tasks\<close>

lemma kept_tasks:
  fixes s t :: "'a tasking"
  assumes "kept s t"
  shows "cur_task t = cur_task s" "head_task t = head_task s" "next_pid t = next_pid s" "initial_esp t = initial_esp s"
    "esp t = esp s" "ebp t = ebp s" "tick t = tick s"
proof -
  have "kernel_memory.more t = kernel_memory.more s" using assms by (simp add: kept_def)
  then show "cur_task t = cur_task s" "head_task t = head_task s" "next_pid t = next_pid s" "initial_esp t = initial_esp s"
    "esp t = esp s" "ebp t = ebp s" "tick t = tick s"
    by (cases s; cases t; simp)+
qed

lemma last_task_chain:
  "chain s p ts \<Longrightarrow> ts \<noteq> [] \<Longrightarrow> last_task s p = Some (last ts)"
proof (induction ts arbitrary: p)
  case (Cons t ts)
  show ?case
  proof (cases ts)
    case Nil
    then show ?thesis using Cons.prems by (subst last_task.simps) simp
  next
    case (Cons u us)
    then have "pcb_next s t \<noteq> 0" "last_task s (pcb_next s t) = Some (last ts)"
      using Cons.prems Cons.IH [of "pcb_next s t"] by auto
    then show ?thesis using Cons.prems(1) Cons by (subst last_task.simps) simp
  qed
qed simp

lemma chain_snoc:
  assumes "chain s p ts" and "ts \<noteq> []" and "pcb_next u (last ts) = q" and "chain u q [q]"
    and "\<And>t. t \<in> set (butlast ts) \<Longrightarrow> pcb_next u t = pcb_next s t" and "distinct ts"
  shows "chain u p (ts @ [q])"
  using assms
proof (induction ts arbitrary: p)
  case (Cons t ts)
  show ?case
  proof (cases ts)
    case Nil
    then show ?thesis using Cons.prems by simp
  next
    case (Cons a as)
    then have "chain u (pcb_next s t) (ts @ [q])" using Cons.prems Cons.IH [of "pcb_next s t"] by auto
    moreover have "pcb_next u t = pcb_next s t" using Cons.prems(5) [of t] Cons by simp
    ultimately show ?thesis using Cons.prems(1) by simp
  qed
qed simp

text \<open>The struct of the new task, before it is linked.\<close>

definition new_pcb :: "u32 \<Rightarrow> u32 \<Rightarrow> u32 \<Rightarrow> 'a kmem \<Rightarrow> 'a kmem" where
  "new_pcb p pid dir s = set_time p 0 (set_state p TASK_RUNNABLE (set_next p 0 (set_page_dir p dir
     (set_eip p 0 (set_esp p 0 (set_ebp p 0 (set_pid p pid s)))))))"

lemma new_pcb_fields:
  "pcb_pid (new_pcb p pid dir s) p = pid" "pcb_next (new_pcb p pid dir s) p = 0" "pcb_page_dir (new_pcb p pid dir s) p = dir"
  "pcb_state (new_pcb p pid dir s) p = TASK_RUNNABLE" "pcb_time (new_pcb p pid dir s) p = 0"
  unfolding new_pcb_def set_pcb_defs pcb_defs by (simp_all add: peek_poke_off)

lemma new_pcb_other:
  assumes "apart p 56 t 56"
  shows "same_pcb s (new_pcb p pid dir s) t"
  unfolding new_pcb_def set_pcb_defs
  by (rule same_pcb_trans [OF _ poke_other_pcb [OF assms]], rule same_pcb_trans [OF _ poke_other_pcb [OF assms]],
      rule same_pcb_trans [OF _ poke_other_pcb [OF assms]], rule same_pcb_trans [OF _ poke_other_pcb [OF assms]],
      rule same_pcb_trans [OF _ poke_other_pcb [OF assms]], rule same_pcb_trans [OF _ poke_other_pcb [OF assms]],
      rule same_pcb_trans [OF _ poke_other_pcb [OF assms]], rule poke_other_pcb [OF assms]) simp_all

lemma new_pcb_frame:
  fixes s :: "'a tasking"
  shows "cur_task (new_pcb p pid dir s) = cur_task s" "head_task (new_pcb p pid dir s) = head_task s"
    "next_pid (new_pcb p pid dir s) = next_pid s" "esp (new_pcb p pid dir s) = esp s" "ebp (new_pcb p pid dir s) = ebp s"
  by (simp_all add: new_pcb_def set_pcb_defs)


lemma poke_next_pid: "poke a v (s\<lparr>next_pid := x\<rparr>) = (poke a v s)\<lparr>next_pid := x\<rparr>" for s :: "'a tasking"
  by (simp add: poke_def)

lemma new_pcb_same_list:
  fixes s v :: "'a tasking"
  assumes "\<forall>t \<in> set ts. apart p 56 t 56 \<and> same_pcb s v t" and "t \<in> set ts"
  shows "same_pcb s (new_pcb p pid dir v) t"
  using assms same_pcb_trans new_pcb_other by blast

lemma fork_prepare_eq:
  fixes s u v :: "'a tasking"
  assumes l: "task_list s ts"
    and c: "clone_dir n (cur_vm_page_dir s) (s\<lparr>if_flag := False\<rparr>) = Inr (dir, u)"
    and m: "malloc_s n sizeof_pcb u = Inr (p, v)"
    and keep: "\<forall>t \<in> set ts. apart p 56 t 56 \<and> same_pcb s v t"
  defines "w \<equiv> (new_pcb p (next_pid s) dir v)\<lparr>next_pid := next_pid s + 1\<rparr>"
  shows "fork_prepare n s = Inr (cur_task s, p, set_next (last ts) p w)"
    and "cur_task w = cur_task s" and "head_task w = head_task s" and "esp w = esp s" and "ebp w = ebp s"
    and "\<And>t. t \<in> set ts \<Longrightarrow> same_pcb s w t"
proof -
  have "kept (s\<lparr>if_flag := False\<rparr>) v" by (rule kept_trans [OF clone_dir_kept [OF c] malloc_kept(1) [OF m]])
  note g = kept_tasks [OF this]
  have pk: "peek w = peek (new_pcb p (next_pid s) dir v)" by (simp add: w_def)
  show w: "cur_task w = cur_task s" "head_task w = head_task s" "esp w = esp s" "ebp w = ebp s"
    using g by (simp_all add: w_def new_pcb_frame)
  show same: "same_pcb s w t" if "t \<in> set ts" for t
    using new_pcb_same_list [OF keep that] by (simp add: same_pcb_cong [OF pk])
  have "chain w (head_task s) ts = chain s (head_task s) ts"
    by (rule chain_cong) (rule same_pcb_fields(7) [OF same])
  then have "chain w (head_task s) ts" "ts \<noteq> []" using l by (simp_all add: task_list_def)
  then have "last_task w (head_task w) = Some (last ts)" unfolding w(2) by (rule last_task_chain)
  then show "fork_prepare n s = Inr (cur_task s, p, set_next (last ts) p w)"
    using c m g unfolding w_def
    by (simp add: fork_prepare_def new_pcb_def set_pcb_defs poke_next_pid)
qed



lemma set_next_list:
  fixes w :: "'a tasking"
  assumes "task_list s ts" and "\<forall>t \<in> set ts. same_pcb s w t" and "head_task w = head_task s"
    and "p \<noteq> 0" and "\<forall>t \<in> set ts. apart p 56 t 56" and "pcb_next w p = 0"
  shows "task_list (set_next (last ts) p w) (ts @ [p])"
    and "same_pcb w (set_next (last ts) p w) p" and "t \<in> set ts \<Longrightarrow> t \<noteq> last ts \<Longrightarrow> same_pcb s (set_next (last ts) p w) t"
proof -
  let ?u = "set_next (last ts) p w"
  have l: "ts \<noteq> []" "chain s (head_task s) ts" "pcbs_apart ts" using assms(1) by (simp_all add: task_list_def)
  have lt: "last ts \<in> set ts" using l(1) by simp
  have ap: "apart (last ts) 56 p 56" using assms(5) lt apart_sym by blast
  then show sp: "same_pcb w ?u p" unfolding set_next_def by (rule poke_other_pcb) simp
  show other: "same_pcb s ?u t" if "t \<in> set ts" "t \<noteq> last ts" for t
  proof -
    have "apart (last ts) 56 t 56" using pcbs_apart_in [OF l(3) lt that(1)] that(2) by simp
    then have "same_pcb w ?u t" unfolding set_next_def by (rule poke_other_pcb) simp
    then show ?thesis using assms(2) that(1) same_pcb_trans by blast
  qed
  have d: "distinct ts" using l(3) by (rule pcbs_apart_distinct)
  have "chain ?u (head_task s) (ts @ [p])"
  proof (rule chain_snoc [OF l(2,1) _ _ _ d])
    show "pcb_next ?u (last ts) = p" by (simp add: set_next_def pcb_next_def peek_poke_same del: poke_frame)
    show "chain ?u p [p]" using assms(4,6) same_pcb_fields(7) [OF sp] by simp
    show "pcb_next ?u t = pcb_next s t" if "t \<in> set (butlast ts)" for t
    proof -
      have "ts = butlast ts @ [last ts]" using l(1) by simp
      then have "t \<noteq> last ts" using that d by (metis distinct_append disjoint_iff list.set_intros(1))
      then show ?thesis using same_pcb_fields(7) [OF other] that by (simp add: in_set_butlastD)
    qed
  qed
  moreover have "head_task ?u = head_task s" using assms(3) by (simp add: set_next_def)
  moreover have "pcbs_apart (ts @ [p])"
    using l(3) assms(5) by (auto simp: pcbs_apart_def sorted_wrt_append apart_sym)
  ultimately show "task_list ?u (ts @ [p])" by (simp add: task_list_def)
qed

lemma fork_result:
  fixes s u v :: "'a tasking"
  assumes "task_list s ts"
    and "clone_dir n (cur_vm_page_dir s) (s\<lparr>if_flag := False\<rparr>) = Inr (dir, u)"
    and "malloc_s n sizeof_pcb u = Inr (p, v)" and "p \<noteq> 0"
    and "\<forall>t \<in> set ts. apart p 56 t 56 \<and> same_pcb s v t" and "cur_task s \<in> set ts"
  shows "\<exists>t. fork n eip s = Inr (next_pid s, t) \<and> task_list t (ts @ [p]) \<and> next_pid t = next_pid s + 1
    \<and> cur_task t = cur_task s \<and> if_flag t \<and> pcb_pid t p = next_pid s \<and> pcb_page_dir t p = dir
    \<and> pcb_state t p = TASK_RUNNABLE \<and> pcb_time t p = 0
    \<and> pcb_eip t p = eip \<and> pcb_esp t p = esp s \<and> pcb_ebp t p = ebp s
    \<and> (\<forall>c \<in> set ts. c \<noteq> last ts \<longrightarrow> same_pcb s t c) \<and> (\<forall>c \<in> set ts. pcb_pid t c = pcb_pid s c)
    \<and> (\<forall>r :: 'a tasking. cur_task r = p \<longrightarrow> fst (fork_return (cur_task s) p RESUMED r) = 0)"
proof -
  let ?w = "(new_pcb p (next_pid s) dir v)\<lparr>next_pid := next_pid s + 1\<rparr>"
  let ?x = "set_next (last ts) p ?w"
  let ?y = "set_eip p eip (set_ebp p (ebp s) (set_esp p (esp s) ?x))"
  note f = fork_prepare_eq [OF assms(1-3,5)]
  have pk: "peek ?w = peek (new_pcb p (next_pid s) dir v)" by simp
  note nf = pcb_cong [OF pk, unfolded new_pcb_fields, of p] and new_pcb_fields [of p "next_pid s" dir v]
  have wn: "pcb_next ?w p = 0" using pcb_cong(7) [OF pk] new_pcb_fields(2) by metis
  have ap: "\<forall>t \<in> set ts. apart p 56 t 56" using assms(5) by blast
  have sw: "\<forall>t \<in> set ts. same_pcb s ?w t" using f(6) by blast
  note x = set_next_list [OF assms(1) sw f(3) assms(4) ap wn]
  have y1: "same_pcb s ?y c" if "c \<in> set ts" "c \<noteq> last ts" for c
  proof -
    have a: "apart p 56 c 56" using ap that by blast
    show ?thesis
      unfolding set_eip_def set_ebp_def set_esp_def
      by (rule same_pcb_trans [OF _ poke_other_pcb [OF a]], rule same_pcb_trans [OF _ poke_other_pcb [OF a]],
          rule same_pcb_trans [OF _ poke_other_pcb [OF a]], rule x(3) [OF that]) simp_all
  qed
  have nexts: "pcb_next ?y c = pcb_next ?x c" if "c \<in> set (ts @ [p])" for c
  proof (cases "c = p")
    case True
    then show ?thesis by (simp add: set_eip_def set_ebp_def set_esp_def pcb_next_def peek_poke_off)
  next
    case False
    then have a: "apart p 56 c 56" using ap that by auto
    have "same_pcb ?x ?y c"
      unfolding set_eip_def set_ebp_def set_esp_def
      by (rule same_pcb_trans [OF _ poke_other_pcb [OF a]], rule same_pcb_trans [OF _ poke_other_pcb [OF a]],
          rule poke_other_pcb [OF a]) simp_all
    then show ?thesis by (rule same_pcb_fields)
  qed
  have "chain ?y q (ts @ [p]) = chain ?x q (ts @ [p])" for q by (rule chain_cong) (rule nexts)
  then have ly: "task_list ?y (ts @ [p])"
    using x(1) by (simp add: task_list_def set_eip_def set_ebp_def set_esp_def)
  have px: "pcb_pid ?x p = next_pid s" "pcb_page_dir ?x p = dir" "pcb_state ?x p = TASK_RUNNABLE" "pcb_time ?x p = 0"
    using same_pcb_fields [OF x(2)] pcb_cong [OF pk, of p] new_pcb_fields [of p "next_pid s" dir v] by simp_all
  have py: "pcb_pid ?y p = next_pid s" "pcb_page_dir ?y p = dir" "pcb_state ?y p = TASK_RUNNABLE" "pcb_time ?y p = 0"
    "pcb_eip ?y p = eip" "pcb_esp ?y p = esp s" "pcb_ebp ?y p = ebp s"
    using px by (simp_all add: set_eip_def set_ebp_def set_esp_def pcb_defs peek_poke_off)
  let ?t = "?y\<lparr>if_flag := True\<rparr>"
  have pt: "peek ?t = peek ?y" by simp
  have cx: "cur_task ?x = cur_task s" "esp ?x = esp s" "ebp ?x = ebp s" using f(2,4,5) by (simp_all add: set_next_def)
  have "fork n eip s = Inr (next_pid s, ?t)"
    using f(1) cx py(1) by (simp add: fork_def fork_return_def Let_def set_esp_def set_ebp_def set_eip_def)
  moreover have "task_list ?t (ts @ [p])" using ly task_list_cong [OF pt] by simp
  moreover have "next_pid ?t = next_pid s + 1" "cur_task ?t = cur_task s"
    using cx by (simp_all add: set_eip_def set_ebp_def set_esp_def set_next_def)
  moreover have "\<forall>r :: 'a tasking. cur_task r = p \<longrightarrow> fst (fork_return (cur_task s) p RESUMED r) = 0"
  proof (intro allI impI)
    fix r :: "'a tasking"
    assume "cur_task r = p"
    moreover have "p \<noteq> cur_task s" using ap assms(6) apart_self [of 56] by auto
    ultimately show "fst (fork_return (cur_task s) p RESUMED r) = 0" by (simp add: fork_return_def)
  qed
  moreover have "pcb_pid ?t p = next_pid s" "pcb_page_dir ?t p = dir" "pcb_state ?t p = TASK_RUNNABLE" "pcb_time ?t p = 0"
    "pcb_eip ?t p = eip" "pcb_esp ?t p = esp s" "pcb_ebp ?t p = ebp s"
    using py unfolding pcb_cong [OF pt, of p] by simp_all
  moreover have "\<forall>c \<in> set ts. c \<noteq> last ts \<longrightarrow> same_pcb s ?t c" using y1 unfolding same_pcb_cong [OF pt] by blast
  moreover have "\<forall>c \<in> set ts. pcb_pid ?t c = pcb_pid s c"
  proof
    fix c
    assume c: "c \<in> set ts"
    have pa: "pcbs_apart (ts @ [p])" using ly by (simp add: task_list_def)
    have l: "last ts \<in> set (ts @ [p])" "p \<in> set (ts @ [p])" "c \<in> set (ts @ [p])"
      using c by (auto intro: last_in_set)
    have "pcb_pid ?t c = pcb_pid ?w c"
      unfolding pcb_cong [OF pt] set_eip_def set_ebp_def set_esp_def set_next_def
      by (simp add: pid_poke [OF pa l(1,3)] pid_poke [OF pa l(2,3)] del: poke_task_frame)
    also have "\<dots> = pcb_pid s c" using same_pcb_fields(1) [OF f(6) [OF c]] .
    finally show "pcb_pid ?t c = pcb_pid s c" .
  qed
  moreover have "if_flag ?t" by simp
  ultimately show ?thesis by (intro exI [of _ ?t] conjI)
qed

text \<open>
  Property C14. \<open>fork\<close> puts one new task at the end of the list and gives its pid, the next unused one, to
  the parent, which goes on with interrupts enabled. The new task has the copied directory and the
  parent's registers, with the address where \<open>read_eip\<close> returns: when it is switched to, its call of
  \<open>fork\<close> returns 0. The structs of the other tasks keep their contents, but for the last one's link.
\<close>

theorem fork_appends_task:
  fixes s u v :: "'a tasking"
  assumes "task_list s ts"
    and "clone_dir n (cur_vm_page_dir s) (s\<lparr>if_flag := False\<rparr>) = Inr (dir, u)"
    and "malloc_s n sizeof_pcb u = Inr (p, v)" and "p \<noteq> 0"
    and "\<forall>t \<in> set ts. apart p 56 t 56 \<and> same_pcb s v t" and "cur_task s \<in> set ts"
  shows "\<exists>t. fork n eip s = Inr (next_pid s, t) \<and> task_list t (ts @ [p]) \<and> next_pid t = next_pid s + 1
    \<and> cur_task t = cur_task s \<and> if_flag t \<and> pcb_pid t p = next_pid s \<and> pcb_page_dir t p = dir
    \<and> pcb_state t p = TASK_RUNNABLE \<and> pcb_time t p = 0
    \<and> pcb_eip t p = eip \<and> pcb_esp t p = esp s \<and> pcb_ebp t p = ebp s
    \<and> (\<forall>c \<in> set ts. c \<noteq> last ts \<longrightarrow> same_pcb s t c)
    \<and> (\<forall>r :: 'a tasking. cur_task r = p \<longrightarrow> fst (fork_return (cur_task s) p RESUMED r) = 0)"
  using fork_result [OF assms, of eip] by blast

theorem fork_appends_task_witness:
  "\<exists>p t. fork 0 0x4321 two_tasks = Inr (3, t) \<and> task_list t [0x1000, 0x2000, p] \<and> pcb_eip t p = 0x4321"
proof -
  let ?s = "two_tasks\<lparr>if_flag := False\<rparr>"
  let ?u = "?s\<lparr>placement_address := 0xA004\<rparr>"
  have g: "kheap ?s = None" "placement_address ?s = 0x8000" "vm_page_dir ?u = 0x10000" "cur_vm_page_dir two_tasks = 0x10000"
    by (simp_all add: two_tasks_def)
  have m: "malloc_ap 0 0x2004 ?s = Inr (0x8000, 0x8000, ?u)"
    using malloc_before_heap(2) [OF g(1)] g(2) by (simp add: page_up_def)
  obtain t where t: "clone_dir 0 0x10000 ?s = Inr (0x8000, t)" "\<And>x. \<not> in_range 0x8000 0x2004 x \<Longrightarrow> mem t x = mem ?u x"
    and r: "same_registers ?u t"
    using clone_dir_kernel_tables [OF m, of "0x10000"] unfolding g(3) by (auto simp: apart_def)
  have kt: "kheap t = None" "placement_address t = 0xA004"
    using same_registersD [OF r] g(1) by simp_all
  let ?v = "t\<lparr>placement_address := 0xA03C\<rparr>"
  have ms: "malloc_s 0 sizeof_pcb t = Inr (0xA004, ?v)"
    using malloc_before_heap(1) [OF kt(1)] kt(2) by (simp add: sizeof_pcb_def)
  have same: "same_pcb two_tasks ?v c" if c: "c = 0x1000 \<or> c = 0x2000" for c
  proof -
    have "peek ?v (off c j) = peek two_tasks (off c j)" if j: "j + 4 \<le> 56" for j
    proof (rule peek_cong)
      fix x
      assume "in_range (off c j) 4 x"
      then have "in_range c 56 x" by (rule in_range_off) (use j in simp_all)
      moreover have "unat c \<le> 0x2000" using c by (elim disjE) simp_all
      ultimately have "unat x < 0x2000 + 56" by (simp add: in_range_interval)
      then have "\<not> in_range 0x8000 0x2004 x" by (simp add: in_range_interval)
      then show "mem ?v x = mem two_tasks x" using t(2) by simp
    qed
    then show ?thesis by (simp add: same_pcb_def)
  qed
  have "\<exists>t. fork 0 0x4321 two_tasks = Inr (next_pid two_tasks, t) \<and> task_list t ([0x1000, 0x2000] @ [0xA004]) \<and> pcb_eip t 0xA004 = 0x4321"
    using fork_appends_task [OF two_tasks_list(1), of 0 "0x8000" t "0xA004" ?v "0x4321"] t(1) ms same g(4) two_tasks_list(2)
    by (auto simp: apart_def)
  then show ?thesis by (auto simp: two_tasks_def)
qed


end
