(* ===== verification/Task_Endings.thy ===== *)
theory Task_Endings
  imports Task_Correctness
begin

text \<open>
  The ends of tasks and the other walks over their list in \<open>src/src/task.c\<close>: \<open>task_exit_pid\<close> takes a
  task out of the list, the first task never leaves it, and \<open>print_task\<close> prints every task once.
\<close>

section \<open>Taking a task out of the list\<close>

lemma find_before_found:
  assumes "chain s p ts" and "i + 1 < length ts" and "pcb_pid s (ts ! (i + 1)) = pid"
    and "\<And>j. j < i \<Longrightarrow> pcb_pid s (ts ! (j + 1)) \<noteq> pid"
  shows "find_before_pid s pid p = Some (Some (ts ! i))"
  using assms
proof (induction i arbitrary: p ts)
  case 0
  then obtain t u us where ts: "ts = t # u # us" by (cases ts; cases "tl ts") auto
  then show ?case using 0 by (subst find_before_pid.simps) simp
next
  case (Suc i)
  then obtain t u us where ts: "ts = t # u # us" by (cases ts; cases "tl ts") auto
  have "pcb_pid s u \<noteq> pid" using Suc.prems(4) [of 0] ts by simp
  moreover have "pcb_next s t = u" "u \<noteq> 0" "p = t" using Suc.prems(1) ts by auto
  moreover have "find_before_pid s pid u = Some (Some ((u # us) ! i))"
  proof (rule Suc.IH)
    show "chain s u (u # us)" using Suc.prems(1) ts by simp
    show "pcb_pid s ((u # us) ! (j + 1)) \<noteq> pid" if "j < i" for j using Suc.prems(4) [of "Suc j"] that ts by simp
  qed (use Suc.prems ts in simp_all)
  ultimately show ?case using ts by (subst find_before_pid.simps) (simp add: Let_def)
qed

lemma find_before_missing:
  assumes "chain s p ts" and "ts \<noteq> []" and "\<And>t. t \<in> set (tl ts) \<Longrightarrow> pcb_pid s t \<noteq> pid" and "pcb_pid s 0 \<noteq> pid"
  shows "find_before_pid s pid p = Some None"
  using assms
proof (induction ts arbitrary: p)
  case (Cons t ts)
  show ?case
  proof (cases ts)
    case Nil
    then show ?thesis using Cons.prems by (subst find_before_pid.simps) (simp add: Let_def)
  next
    case (Cons u us)
    then have "pcb_next s t = u" "u \<noteq> 0" "p = t" "pcb_pid s u \<noteq> pid" using Cons.prems by auto
    moreover have "find_before_pid s pid u = Some None"
      using Cons.IH [of u] Cons.prems Cons by auto
    ultimately show ?thesis by (subst find_before_pid.simps) (simp add: Let_def)
  qed
qed simp

text \<open>The list without the element after place \<open>i\<close>.\<close>

definition without_next :: "nat \<Rightarrow> 'a list \<Rightarrow> 'a list" where
  "without_next i ts = take (Suc i) ts @ drop (Suc (Suc i)) ts"

lemma chain_unlink:
  assumes "chain s p ts" and "i + 1 < length ts" and "distinct ts"
    and "pcb_next u (ts ! i) = pcb_next s (ts ! (i + 1))" and "\<And>t. t \<in> set ts \<Longrightarrow> t \<noteq> ts ! i \<Longrightarrow> pcb_next u t = pcb_next s t"
  shows "chain u p (without_next i ts)"
  using assms
proof (induction i arbitrary: p ts)
  case 0
  then obtain t a us where ts: "ts = t # a # us" by (cases ts; cases "tl ts") auto
  have "chain u q us = chain s q us" for q using 0 ts by (intro chain_cong) auto
  then show ?case using 0 ts by (simp add: without_next_def)
next
  case (Suc i)
  then obtain t us where ts: "ts = t # us" by (cases ts) auto
  have "t \<noteq> us ! i" using Suc.prems(2,3) ts by auto
  then have "pcb_next u t = pcb_next s t" using Suc.prems(5) [of t] ts by simp
  moreover have "chain u (pcb_next s t) (without_next i us)"
    using Suc.prems ts by (intro Suc.IH) auto
  ultimately show ?case using Suc.prems(1) ts by (simp add: without_next_def)
qed

lemma unlink_list:
  fixes s :: "'a tasking"
  assumes "task_list s ts" and "i + 1 < length ts"
  defines "u \<equiv> set_next (ts ! i) (pcb_next s (ts ! (i + 1))) s"
  shows "task_list u (without_next i ts)" and "\<And>c. c \<in> set ts \<Longrightarrow> c \<noteq> ts ! i \<Longrightarrow> same_pcb s u c"
    and "pcb_eip u (ts ! i) = pcb_eip s (ts ! i)" "pcb_esp u (ts ! i) = pcb_esp s (ts ! i)" "pcb_ebp u (ts ! i) = pcb_ebp s (ts ! i)"
    "pcb_page_dir u (ts ! i) = pcb_page_dir s (ts ! i)" "pcb_pid u (ts ! i) = pcb_pid s (ts ! i)"
proof -
  have l: "ts \<noteq> []" "chain s (head_task s) ts" "pcbs_apart ts" using assms(1) by (simp_all add: task_list_def)
  show other: "same_pcb s u c" if "c \<in> set ts" "c \<noteq> ts ! i" for c
  proof -
    have "apart (ts ! i) 56 c 56" using pcbs_apart_in [OF l(3) _ that(1)] that(2) assms(2) by simp
    then show ?thesis unfolding u_def set_next_def by (rule poke_other_pcb) simp
  qed
  have "chain u (head_task s) (without_next i ts)"
  proof (rule chain_unlink [OF l(2) assms(2) pcbs_apart_distinct [OF l(3)]])
    show "pcb_next u (ts ! i) = pcb_next s (ts ! (i + 1))"
      by (simp add: u_def set_next_def pcb_next_def peek_poke_same del: poke_frame)
    show "pcb_next u c = pcb_next s c" if "c \<in> set ts" "c \<noteq> ts ! i" for c
      using same_pcb_fields(7) [OF other [OF that]] .
  qed
  moreover have "pcbs_apart (without_next i ts)"
  proof -
    have "pcbs_apart (take (Suc i) ts @ drop (Suc i) ts)" using l(3) by simp
    then have "pcbs_apart (take (Suc i) ts @ tl (drop (Suc i) ts))"
      unfolding pcbs_apart_def sorted_wrt_append by (cases "drop (Suc i) ts") auto
    then show ?thesis by (simp add: without_next_def tl_drop drop_Suc)
  qed
  moreover have "head_task u = head_task s" by (simp add: u_def set_next_def)
  moreover have "without_next i ts \<noteq> []" using l(1) by (simp add: without_next_def)
  ultimately show "task_list u (without_next i ts)" by (simp add: task_list_def)
  show "pcb_eip u (ts ! i) = pcb_eip s (ts ! i)" "pcb_esp u (ts ! i) = pcb_esp s (ts ! i)" "pcb_ebp u (ts ! i) = pcb_ebp s (ts ! i)"
    "pcb_page_dir u (ts ! i) = pcb_page_dir s (ts ! i)" "pcb_pid u (ts ! i) = pcb_pid s (ts ! i)"
    by (simp_all add: u_def set_next_def pcb_defs peek_poke_off)
qed

lemma found_unique:
  fixes s :: "'a tasking"
  assumes "task_list s ts" and "i + 1 < length ts"
  shows "ts ! (i + 1) \<notin> set (without_next i ts)"
proof -
  have d: "distinct ts" using assms(1) by (simp add: task_list_def pcbs_apart_distinct)
  have "ts = take (Suc i) ts @ ts ! (i + 1) # drop (Suc (Suc i)) ts"
    using assms(2) id_take_nth_drop [of "Suc i" ts] by simp
  then have "distinct (take (Suc i) ts @ ts ! (i + 1) # drop (Suc (Suc i)) ts)" using d by simp
  then show ?thesis by (simp add: without_next_def)
qed

lemma pcb_if_flag [simp]:
  "pcb_eip (s\<lparr>if_flag := b\<rparr>) = pcb_eip s" "pcb_esp (s\<lparr>if_flag := b\<rparr>) = pcb_esp s"
  "pcb_ebp (s\<lparr>if_flag := b\<rparr>) = pcb_ebp s" "pcb_page_dir (s\<lparr>if_flag := b\<rparr>) = pcb_page_dir s"
  "pcb_time (s\<lparr>if_flag := b\<rparr>) = pcb_time s"
  for s :: "'a tasking"
  by (simp_all add: pcb_defs fun_eq_iff)

lemma exit_pid_found:
  fixes s :: "'a tasking"
  assumes l: "task_list s ts" and c: "cur_task s \<in> set ts" and i: "i + 1 < length ts"
    and pid: "pcb_pid s (ts ! (i + 1)) = pid" "\<And>j. j < i \<Longrightarrow> pcb_pid s (ts ! (j + 1)) \<noteq> pid" and e: "eip \<noteq> RESUMED"
  defines "x \<equiv> set_ebp (cur_task s) (ebp s) (set_esp (cur_task s) (esp s) (set_eip (cur_task s) eip
      (set_next (ts ! i) (pcb_next s (ts ! (i + 1))) s)))"
  shows "task_exit_pid pid eip s = Inr (Jump (pcb_eip x (ts ! i)), x\<lparr>cur_task := ts ! i, cur_vm_page_dir := pcb_page_dir x (ts ! i),
      cr3 := peek x (dir_phy_slot (pcb_page_dir x (ts ! i))), esp := pcb_esp x (ts ! i), ebp := pcb_ebp x (ts ! i), if_flag := True\<rparr>)"
proof -
  let ?s = "s\<lparr>if_flag := False\<rparr>"
  have h: "chain s (head_task s) ts" "ts \<noteq> []" using l by (simp_all add: task_list_def)
  have nz: "head_task s \<noteq> 0" "cur_task s \<noteq> 0" using chain_hd [OF h] chain_nonzero [OF h(1)] h(2) c by auto
  have pk: "peek ?s = peek s" by simp
  have "chain ?s (head_task s) ts = chain s (head_task s) ts" by (rule chain_cong) (simp only: pcb_cong [OF pk])
  then have "chain ?s (head_task s) ts" using h(1) by simp
  then have f: "find_before_pid ?s pid (head_task s) = Some (Some (ts ! i))"
  proof (rule find_before_found [OF _ i])
    show "pcb_pid ?s (ts ! (i + 1)) = pid" using pid(1) by (simp only: pcb_cong [OF pk])
    show "pcb_pid ?s (ts ! (j + 1)) \<noteq> pid" if "j < i" for j using pid(2) [OF that] by (simp only: pcb_cong [OF pk]) simp
  qed
  have nx: "pcb_next s (ts ! i) = ts ! (i + 1)" using chain_next [OF h(1), of i] i by simp
  have pi: "poke a v (s\<lparr>if_flag := b\<rparr>) = (poke a v s)\<lparr>if_flag := b\<rparr>" for a v b and s :: "'a tasking"
    by (simp add: poke_def)
  show ?thesis
    using nz f nx e unfolding x_def
    by (simp add: task_exit_pid_def Let_def resume_def set_pcb_defs pi)
qed



lemma save_three_list:
  fixes s :: "'a tasking" and a b c e :: u32
  assumes "pcbs_apart us" and "c \<in> set us" and "set ts \<subseteq> set us"
  defines "x \<equiv> set_ebp c b (set_esp c a (set_eip c e s))"
  shows "chain x p ts = chain s p ts" and "t \<in> set us \<Longrightarrow> t \<noteq> c \<Longrightarrow> same_pcb s x t"
    and "pcb_eip x c = e" "pcb_esp x c = a" "pcb_ebp x c = b" "pcb_page_dir x c = pcb_page_dir s c"
    and "head_task x = head_task s"
proof -
  show own: "pcb_eip x c = e" "pcb_esp x c = a" "pcb_ebp x c = b" "pcb_page_dir x c = pcb_page_dir s c"
    by (simp_all add: x_def set_ebp_def set_esp_def set_eip_def pcb_defs peek_poke_off)
  show other: "same_pcb s x t" if "t \<in> set us" "t \<noteq> c" for t
  proof -
    have a: "apart c 56 t 56" using pcbs_apart_in [OF assms(1,2) that(1)] that(2) by simp
    show ?thesis
      unfolding x_def set_ebp_def set_esp_def set_eip_def
      by (rule same_pcb_trans [OF _ poke_other_pcb [OF a]], rule same_pcb_trans [OF _ poke_other_pcb [OF a]],
          rule poke_other_pcb [OF a]) simp_all
  qed
  have "pcb_next x c = pcb_next s c" by (simp add: x_def set_ebp_def set_esp_def set_eip_def pcb_defs peek_poke_off)
  then have "pcb_next x t = pcb_next s t" if "t \<in> set ts" for t
    using that assms(3) same_pcb_fields(7) [OF other] by (cases "t = c") auto
  then show "chain x p ts = chain s p ts" by (rule chain_cong)
  show "head_task x = head_task s" by (simp add: x_def set_ebp_def set_esp_def set_eip_def)
qed

lemma exit_pid_unlinks:
  fixes s :: "'a tasking"
  assumes "task_list s ts" and "cur_task s \<in> set ts" and "eip \<noteq> RESUMED"
    and i: "i + 1 < length ts" and pid: "pcb_pid s (ts ! (i + 1)) = pid" "\<And>j. j < i \<Longrightarrow> pcb_pid s (ts ! (j + 1)) \<noteq> pid"
  shows "\<exists>t. task_exit_pid pid eip s = Inr (Jump (pcb_eip t (ts ! i)), t) \<and> task_list t (without_next i ts)
    \<and> ts ! (i + 1) \<notin> set (without_next i ts) \<and> cur_task t = ts ! i
    \<and> pcb_eip t (cur_task s) = eip \<and> pcb_esp t (cur_task s) = esp s \<and> pcb_ebp t (cur_task s) = ebp s
    \<and> esp t = pcb_esp t (ts ! i) \<and> ebp t = pcb_ebp t (ts ! i) \<and> cur_vm_page_dir t = pcb_page_dir t (ts ! i) \<and> if_flag t
    \<and> (\<forall>c \<in> set ts. pcb_pid t c = pcb_pid s c) \<and> next_pid t = next_pid s"
proof -
  have l: "ts \<noteq> []" "chain s (head_task s) ts" "pcbs_apart ts" using assms(1) by (simp_all add: task_list_def)
  let ?u = "set_next (ts ! i) (pcb_next s (ts ! (i + 1))) s"
  have sub: "set (without_next i ts) \<subseteq> set ts" by (auto simp: without_next_def dest: in_set_takeD in_set_dropD)
  obtain x where x: "x = set_ebp (cur_task s) (ebp s) (set_esp (cur_task s) (esp s) (set_eip (cur_task s) eip ?u))" by simp
  note sv = save_three_list [where s = ?u and ts = "without_next i ts" and a = "esp s" and b = "ebp s" and e = eip,
      OF l(3) assms(2) sub, folded x]
  obtain t where t: "t = x\<lparr>cur_task := ts ! i, cur_vm_page_dir := pcb_page_dir x (ts ! i),
      cr3 := peek x (dir_phy_slot (pcb_page_dir x (ts ! i))), esp := pcb_esp x (ts ! i), ebp := pcb_ebp x (ts ! i), if_flag := True\<rparr>"
    by simp
  have pk: "peek t = peek x" by (simp add: t)
  have "task_list x (without_next i ts)"
    using unlink_list(1) [OF assms(1) i] sv(1,7) by (simp add: task_list_def)
  moreover have "head_task t = head_task x" by (simp add: t)
  ultimately have tl: "task_list t (without_next i ts)" using task_list_cong [OF pk] by simp
  have run: "task_exit_pid pid eip s = Inr (Jump (pcb_eip t (ts ! i)), t)"
    using exit_pid_found [OF assms(1,2) i pid assms(3), folded x] unfolding pcb_cong [OF pk] unfolding t .
  have f: "cur_task t = ts ! i" "if_flag t" "esp t = pcb_esp t (ts ! i)" "ebp t = pcb_ebp t (ts ! i)"
    "cur_vm_page_dir t = pcb_page_dir t (ts ! i)"
    unfolding pcb_cong [OF pk] by (simp_all add: t)
  have o: "pcb_eip t (cur_task s) = eip" "pcb_esp t (cur_task s) = esp s" "pcb_ebp t (cur_task s) = ebp s"
    unfolding pcb_cong [OF pk] by (rule sv)+
  have q: "pcb_pid t c = pcb_pid s c" if c: "c \<in> set ts" for c
  proof -
    have "ts ! i \<in> set ts" using i by simp
    then show ?thesis
      unfolding pcb_cong [OF pk] x set_ebp_def set_esp_def set_eip_def set_next_def
      by (simp add: pid_poke [OF l(3) _ c] assms(2) del: poke_task_frame)
  qed
  have n: "next_pid t = next_pid s"
    by (simp add: t x set_ebp_def set_esp_def set_eip_def set_next_def)
  show ?thesis
    by (intro exI [of _ t] conjI ballI run tl found_unique [OF assms(1) i] f o q n)
qed

lemma exit_pid_missing:
  fixes s :: "'a tasking"
  assumes "task_list s ts" and "cur_task s \<in> set ts" and none: "\<forall>t \<in> set (tl ts). pcb_pid s t \<noteq> pid" "pcb_pid s 0 \<noteq> pid"
  shows "\<exists>t. task_exit_pid pid eip s = Inr (Return (), t) \<and> \<not> if_flag t \<and> mem t = mem s \<and> task_list t ts
    \<and> console t = console s @ ascii ''not thread with pid'' @ [10] \<and> cur_task t = cur_task s \<and> next_pid t = next_pid s"
proof -
  have l: "ts \<noteq> []" "chain s (head_task s) ts" "pcbs_apart ts" using assms(1) by (simp_all add: task_list_def)
  have nz: "head_task s \<noteq> 0" "cur_task s \<noteq> 0" using chain_hd [OF l(2,1)] chain_nonzero [OF l(2)] l(1) assms(2) by auto
  let ?s = "s\<lparr>if_flag := False\<rparr>"
  have pk: "peek ?s = peek s" by simp
  have "chain ?s (head_task s) ts = chain s (head_task s) ts" by (rule chain_cong) (simp only: pcb_cong [OF pk])
  then have "chain ?s (head_task s) ts" using l(2) by simp
  then have f: "find_before_pid ?s pid (head_task s) = Some None"
    by (rule find_before_missing [OF _ l(1)]) (use none in simp_all)
  let ?t = "kprintf (''not thread with pid'' @ [CHR 0x0A]) [] ?s"
  have "task_exit_pid pid eip s = Inr (Return (), ?t)"
    using nz f by (simp add: task_exit_pid_def Let_def)
  moreover have "peek ?t = peek s" by (simp add: peek_def fun_eq_iff)
  then have "task_list ?t ts = task_list s ts" by (rule task_list_cong) (simp add: kprintf_def)
  moreover have "console ?t = console s @ ascii ''not thread with pid'' @ [10]"
    by (simp add: kprintf_def ascii_def)
  moreover have "cur_task ?t = cur_task s" "next_pid ?t = next_pid s" by (simp_all add: kprintf_def)
  ultimately show ?thesis
    using assms(1) by (intro exI [of _ ?t]) simp
qed

text \<open>
  Property C19. \<open>task_exit_pid\<close> takes the first task with the pid after the head out of the list, saves the
  registers of the running task, and goes to the task before the one it took out. When no task after
  the head has the pid, it prints so and returns with the list as it was, but with interrupts disabled;
  so it does for the pid of the first task.
\<close>

theorem task_exit_pid_unlinks:
  fixes s :: "'a tasking"
  assumes "task_list s ts" and "cur_task s \<in> set ts" and "eip \<noteq> RESUMED"
  shows "(i + 1 < length ts \<and> pcb_pid s (ts ! (i + 1)) = pid \<and> (\<forall>j < i. pcb_pid s (ts ! (j + 1)) \<noteq> pid) \<longrightarrow>
      (\<exists>t. task_exit_pid pid eip s = Inr (Jump (pcb_eip t (ts ! i)), t) \<and> task_list t (without_next i ts)
        \<and> ts ! (i + 1) \<notin> set (without_next i ts) \<and> cur_task t = ts ! i
        \<and> pcb_eip t (cur_task s) = eip \<and> pcb_esp t (cur_task s) = esp s \<and> pcb_ebp t (cur_task s) = ebp s
        \<and> esp t = pcb_esp t (ts ! i) \<and> ebp t = pcb_ebp t (ts ! i) \<and> cur_vm_page_dir t = pcb_page_dir t (ts ! i) \<and> if_flag t))
    \<and> ((\<forall>t \<in> set (tl ts). pcb_pid s t \<noteq> pid) \<and> pcb_pid s 0 \<noteq> pid \<longrightarrow>
      (\<exists>t. task_exit_pid pid eip s = Inr (Return (), t) \<and> \<not> if_flag t \<and> mem t = mem s \<and> task_list t ts
        \<and> console t = console s @ ascii ''not thread with pid'' @ [10]))"
  using exit_pid_unlinks [OF assms, of i pid] exit_pid_missing [OF assms(1,2), of pid eip] by blast

theorem task_exit_pid_unlinks_witness:
  "\<exists>t. task_exit_pid 2 0x1234 two_tasks = Inr (Jump (pcb_eip t 0x1000), t) \<and> task_list t [0x1000]"
proof -
  have p: "pcb_pid two_tasks 0x2000 = 2" by code_simp
  have e: "(0x1234 :: u32) \<noteq> RESUMED" by (simp add: RESUMED_def)
  have c: "cur_task two_tasks \<in> set [0x1000, 0x2000]" using two_tasks_list(2) by simp
  show ?thesis
    using task_exit_pid_unlinks [OF two_tasks_list(1) c e, of 0 2] p by (auto simp: without_next_def)
qed

section \<open>The first task\<close>

lemma find_previous_off_list:
  "chain s p ts \<Longrightarrow> target \<notin> set (tl ts) \<Longrightarrow> target \<noteq> 0 \<Longrightarrow> find_previous s target p = find_previous s target 0"
proof (induction ts arbitrary: p)
  case (Cons t ts)
  show ?case
  proof (cases ts)
    case Nil
    then show ?thesis using Cons.prems by (subst find_previous.simps) simp
  next
    case (Cons u us)
    then have "pcb_next s t = u" "p = t" "u \<noteq> target" "find_previous s target u = find_previous s target 0"
      using Cons.prems Cons.IH [of u] by auto
    then show ?thesis by (subst find_previous.simps) simp
  qed
qed simp

lemma find_previous_chain:
  assumes "chain s p ts" and "i + 1 < length ts" and "distinct ts"
  shows "find_previous s (ts ! (i + 1)) p = Some (ts ! i)"
  using assms
proof (induction i arbitrary: p ts)
  case 0
  then obtain t u us where ts: "ts = t # u # us" by (cases ts; cases "tl ts") auto
  then show ?case using 0 by (subst find_previous.simps) simp
next
  case (Suc i)
  then obtain t u us where ts: "ts = t # u # us" by (cases ts; cases "tl ts") auto
  have "u \<noteq> ts ! (Suc i + 1)" using Suc.prems(2,3) ts by auto
  moreover have "pcb_next s t = u" "p = t" using Suc.prems(1) ts by auto
  moreover have "find_previous s ((u # us) ! (i + 1)) u = Some ((u # us) ! i)"
    using Suc.prems ts by (intro Suc.IH) auto
  ultimately show ?case using ts by (subst find_previous.simps) simp
qed

lemma find_previous_null_loop:
  "find_previous s target t = Some r \<Longrightarrow> \<not> (t = 0 \<and> pcb_next s 0 = 0 \<and> target \<noteq> 0)"
proof (induction s target t r rule: find_previous.raw_induct [rotated, consumes 1])
  case (1 rec s target t r)
  show ?case
  proof
    assume z: "t = 0 \<and> pcb_next s 0 = 0 \<and> target \<noteq> 0"
    then have "rec s target 0 = Some r" using 1(2) by simp
    from 1(1) [OF this] z show False by simp
  qed
qed

text \<open>
  Property C20. \<open>task_exit\<close> of a task that is not the first takes it out of the list, makes the task before
  it the running one, then calls \<open>free_all_page\<close> for the ended task's directory and \<open>kfree\<close> for its struct, and when \<open>kfree\<close>
  returns, resumes the task before. The first task cannot end: no task has it as its next, so the walk leaves the list
  at its null pointer and goes on at address 0; with a null word there it never ends, with interrupts
  disabled.
\<close>

theorem task_exit_result:
  fixes s :: "'a tasking"
  assumes "task_list s ts"
  shows "(i + 1 < length ts \<and> cur_task s = ts ! (i + 1) \<longrightarrow>
      (\<exists>u. task_list u (without_next i ts) \<and> ts ! (i + 1) \<notin> set (without_next i ts) \<and> cur_task u = ts ! i
        \<and> cur_vm_page_dir u = pcb_page_dir s (ts ! i)
        \<and> task_exit s = ebind (kfree (ts ! (i + 1)) (free_all_page (pcb_page_dir s (ts ! (i + 1))) u))
            (\<lambda>v. Inr (resume (pcb_esp s (ts ! i)) (pcb_ebp s (ts ! i)) (pcb_eip s (ts ! i)) v))))
    \<and> (cur_task s = head_task s \<longrightarrow>
      find_previous s (cur_task s) (head_task s) = find_previous s (cur_task s) 0
      \<and> (pcb_next s 0 = 0 \<longrightarrow> task_exit s = Inl Hang))"
proof (intro conjI impI)
  have l: "ts \<noteq> []" "chain s (head_task s) ts" "pcbs_apart ts" using assms by (simp_all add: task_list_def)
  have d: "distinct ts" by (rule pcbs_apart_distinct [OF l(3)])
  let ?s = "s\<lparr>if_flag := False\<rparr>"
  have pk: "peek ?s = peek s" by simp
  have "chain ?s (head_task s) ts = chain s (head_task s) ts" by (rule chain_cong) (simp only: pcb_cong [OF pk])
  then have c: "chain ?s (head_task s) ts" using l(2) by simp
  have h0: "head_task s \<noteq> 0" "head_task s = hd ts" using chain_hd [OF l(2,1)] chain_nonzero [OF l(2)] l(1) by auto
  show "\<exists>u. task_list u (without_next i ts) \<and> ts ! (i + 1) \<notin> set (without_next i ts) \<and> cur_task u = ts ! i
        \<and> cur_vm_page_dir u = pcb_page_dir s (ts ! i)
        \<and> task_exit s = ebind (kfree (ts ! (i + 1)) (free_all_page (pcb_page_dir s (ts ! (i + 1))) u))
            (\<lambda>v. Inr (resume (pcb_esp s (ts ! i)) (pcb_ebp s (ts ! i)) (pcb_eip s (ts ! i)) v))"
    if a: "i + 1 < length ts \<and> cur_task s = ts ! (i + 1)"
  proof -
    from a have i: "i + 1 < length ts" and cur: "cur_task s = ts ! (i + 1)" by simp_all
    have c0: "cur_task s \<noteq> 0" using chain_nonzero [OF l(2)] i cur by simp
    have f: "find_previous ?s (cur_task s) (head_task s) = Some (ts ! i)"
      unfolding cur by (rule find_previous_chain [OF c i d])
    have nx: "pcb_next ?s (ts ! i) = ts ! (i + 1)" using chain_next [OF l(2), of i] i by simp
    have ne: "ts ! (i + 1) \<noteq> ts ! i" using d i by (simp add: nth_eq_iff_index_eq)
    have tl: "task_list ?s ts" using assms task_list_cong [OF pk] by simp
    obtain x where x: "x = set_next (ts ! i) (pcb_next s (ts ! (i + 1))) ?s" by simp
    note ul = unlink_list [OF tl i, unfolded pcb_update pcb_if_flag, folded x]
    have px: "pcb_page_dir x (ts ! (i + 1)) = pcb_page_dir s (ts ! (i + 1))"
      using same_pcb_fields(6) [OF ul(2) [OF _ ne]] i by simp
    obtain u where u: "u = x\<lparr>cur_task := ts ! i, cur_vm_page_dir := pcb_page_dir x (ts ! i)\<rparr>" by simp
    have pu: "peek u = peek x" by (simp add: u)
    have "head_task u = head_task x" by (simp add: u)
    then have "task_list u (without_next i ts)" using ul(1) task_list_cong [OF pu] by simp
    moreover have "task_exit s = ebind (kfree (ts ! (i + 1)) (free_all_page (pcb_page_dir u (ts ! (i + 1))) u))
        (\<lambda>v. Inr (resume (pcb_esp x (ts ! i)) (pcb_ebp x (ts ! i)) (pcb_eip x (ts ! i)) v))"
      using h0(1) c0 f nx by (simp add: task_exit_def Let_def x [symmetric] u del: One_nat_def add_Suc_right)
    moreover have "cur_task u = ts ! i" "cur_vm_page_dir u = pcb_page_dir s (ts ! i)"
      using ul(6) by (simp_all add: u)
    ultimately show ?thesis
      using found_unique [OF assms i] ul(3-6) px pcb_cong(6) [OF pu] by (intro exI [of _ u]) simp
  qed
  assume cur: "cur_task s = head_task s"
  have nt: "cur_task s \<notin> set (tl ts)" using d h0(2) l(1) cur by (cases ts) auto
  show "find_previous s (cur_task s) (head_task s) = find_previous s (cur_task s) 0"
    using find_previous_off_list [OF l(2) nt] cur h0(1) by simp
  show "task_exit s = Inl Hang" if z: "pcb_next s 0 = 0"
  proof -
    have "find_previous ?s (cur_task s) (head_task s) = find_previous ?s (cur_task s) 0"
      using find_previous_off_list [OF c nt] cur h0(1) by simp
    also have "\<dots> = None"
      using find_previous_null_loop [of ?s "cur_task s" 0] z cur h0(1) by (cases "find_previous ?s (cur_task s) 0") auto
    finally show ?thesis using h0(1) cur by (simp add: task_exit_def Let_def)
  qed
qed

theorem task_exit_result_witness:
  "task_exit two_tasks = Inl Hang"
proof -
  have "pcb_next two_tasks 0 = 0" by code_simp
  moreover have "cur_task two_tasks = head_task two_tasks" by (simp add: two_tasks_def)
  ultimately show ?thesis using task_exit_result [OF two_tasks_list(1), of 0] by simp
qed

section \<open>Printing the list\<close>

definition task_line :: "'a kmem \<Rightarrow> u32 \<Rightarrow> u8 list" where
  "task_line s t = (case format (ascii (''%d    %x     %x     %x     %x    %d'' @ [CHR 0x0A]))
     [AInt (pcb_pid s t), AInt (pcb_esp s t), AInt (pcb_eip s t), AInt (pcb_ebp s t), AInt (pcb_page_dir s t), AInt (pcb_time s t)]
     of Some xs \<Rightarrow> xs | None \<Rightarrow> [])"

lemma task_line_cong:
  assumes "peek t = peek s"
  shows "task_line t = task_line s"
  unfolding fun_eq_iff task_line_def pcb_cong [OF assms] by simp

lemma console_peek [simp]: "peek (s\<lparr>console := c\<rparr>) = peek s"
  by (simp add: peek_def fun_eq_iff)

lemma print_tasks_step:
  "print_tasks t s = (if pcb_next s t \<noteq> 0 then print_tasks (pcb_next s t) (s\<lparr>console := console s @ task_line s t\<rparr>)
     else Some (s\<lparr>console := console s @ task_line s t\<rparr>))"
proof -
  let ?s = "s\<lparr>console := console s @ task_line s t\<rparr>"
  have k: "kprintf (''%d    %x     %x     %x     %x    %d'' @ [CHR 0x0A])
      [AInt (pcb_pid s t), AInt (pcb_esp s t), AInt (pcb_eip s t), AInt (pcb_ebp s t), AInt (pcb_page_dir s t), AInt (pcb_time s t)] s = ?s"
    by (simp only: kprintf_def task_line_def)
  have nx: "pcb_next ?s t = pcb_next s t" by (simp only: pcb_cong [OF console_peek])
  show ?thesis by (subst print_tasks.simps) (simp only: Let_def k nx)
qed

lemma print_tasks_chain:
  "chain s p ts \<Longrightarrow> ts \<noteq> [] \<Longrightarrow> print_tasks p s = Some (s\<lparr>console := console s @ concat (List.map (task_line s) ts)\<rparr>)"
proof (induction ts arbitrary: p s)
  case (Cons t ts)
  show ?case
  proof (cases ts)
    case Nil
    then show ?thesis using Cons.prems by (subst print_tasks_step) simp
  next
    case (Cons u us)
    let ?s = "s\<lparr>console := console s @ task_line s t\<rparr>"
    have n: "pcb_next s t \<noteq> 0" "p = t" using Cons.prems Cons by auto
    have "chain ?s (pcb_next s t) ts = chain s (pcb_next s t) ts"
      by (rule chain_cong) (simp only: pcb_cong [OF console_peek])
    then have "print_tasks (pcb_next s t) ?s = Some (?s\<lparr>console := console ?s @ concat (List.map (task_line ?s) ts)\<rparr>)"
      using Cons.IH [of ?s] Cons.prems Cons by auto
    then show ?thesis using n by (subst print_tasks_step) (simp add: task_line_cong [OF console_peek])
  qed
qed simp

text \<open>
  \<open>print_task\<close> returns, having printed its heading and one line for each task of the list, in
  order, and changed nothing else.
\<close>

theorem print_task_lines:
  fixes s :: "'a tasking"
  assumes "task_list s ts"
  shows "print_task s = Inr (s\<lparr>console := console s
    @ ascii (''pid    esp        eip        ebp        diraddr    time'' @ [CHR 0x0A]) @ concat (List.map (task_line s) ts) @ [10]\<rparr>)"
proof -
  have l: "ts \<noteq> []" "chain s (head_task s) ts" using assms by (simp_all add: task_list_def)
  obtain h where h: "h = ascii (''pid    esp        eip        ebp        diraddr    time'' @ [CHR 0x0A])" by simp
  let ?s = "s\<lparr>console := console s @ h\<rparr>"
  have pk: "peek ?s = peek s" by (simp add: peek_def fun_eq_iff)
  have line: "task_line ?s = task_line s" by (rule task_line_cong [OF pk])
  have k: "kprintf (''pid    esp        eip        ebp        diraddr    time'' @ [CHR 0x0A]) [] s = ?s"
    by (simp add: kprintf_def ascii_def h)
  have e: "kprintf [CHR 0x0A] [] v = v\<lparr>console := console v @ [10]\<rparr>" for v :: "'a tasking"
    by (simp add: kprintf_def ascii_def)
  have "chain ?s (head_task s) ts = chain s (head_task s) ts" by (rule chain_cong) (simp only: pcb_cong [OF pk])
  then have "print_tasks (head_task s) ?s = Some (?s\<lparr>console := console ?s @ concat (List.map (task_line ?s) ts)\<rparr>)"
    using print_tasks_chain [of ?s "head_task s" ts] l by simp
  then show ?thesis
    unfolding print_task_def Let_def k e h [symmetric] line by (simp add: e)
qed

theorem print_task_lines_witness:
  "\<exists>t. print_task two_tasks = Inr t \<and> mem t = mem two_tasks"
  using print_task_lines [OF two_tasks_list(1)] by simp


end
