(* ===== verification/Task_System.thy ===== *)
theory Task_System
  imports Task_Endings
begin

text \<open>
  The operations of \<open>src/src/task.c\<close> together: a step relation between the states of the kernel, and a
  specification of what the steps do to the tasks, without the structs, the links and the registers.
\<close>

section \<open>The specification\<close>

text \<open>The pids in the order of the list, the place of the running task, and the next pid.\<close>

record schedule =
  pids :: "u32 list"
  running :: nat
  fresh :: u32

text \<open>
  What happens to the running task: it computes, it is interrupted by the timer, it calls \<open>fork\<close>, or it
  calls \<open>task_exit_pid\<close>. The words are the registers it leaves, the address \<open>read_eip\<close> gives, and the pid.
\<close>

datatype task_event = Work u32 u32 | Tick u32 | Fork u32 | Kill u32 u32

fun place_of :: "u32 \<Rightarrow> u32 list \<Rightarrow> nat option" where
  "place_of p [] = None"
| "place_of p (q # qs) = (if q = p then Some 0 else map_option Suc (place_of p qs))"

fun schedule_step :: "task_event \<Rightarrow> schedule \<Rightarrow> schedule" where
  "schedule_step (Work sp bp) a = a"
| "schedule_step (Tick eip) a = a\<lparr>running := Suc (running a) mod length (pids a)\<rparr>"
| "schedule_step (Fork eip) a = a\<lparr>pids := pids a @ [fresh a], fresh := fresh a + 1\<rparr>"
| "schedule_step (Kill p eip) a = (case place_of p (tl (pids a)) of
     None \<Rightarrow> a | Some i \<Rightarrow> a\<lparr>pids := without_next i (pids a), running := i\<rparr>)"

definition schedule_ok :: "schedule \<Rightarrow> bool" where
  "schedule_ok a \<longleftrightarrow> running a < length (pids a) \<and> distinct (pids a) \<and> (\<forall>p \<in> set (pids a). p < fresh a)"

lemma place_of_None: "place_of p qs = None \<longleftrightarrow> p \<notin> set qs"
  by (induction qs) auto

lemma place_of_Some:
  "place_of p qs = Some i \<Longrightarrow> i < length qs \<and> qs ! i = p \<and> (\<forall>j < i. qs ! j \<noteq> p)"
proof (induction qs arbitrary: i)
  case (Cons q qs)
  show ?case
  proof (cases "q = p")
    case False
    then obtain k where k: "i = Suc k" "place_of p qs = Some k" using Cons.prems by auto
    note ih = Cons.IH [OF k(2)]
    have "(q # qs) ! j \<noteq> p" if "j < i" for j
      using that k(1) ih False by (cases j) auto
    then show ?thesis using k(1) ih by simp
  qed (use Cons.prems in simp)
qed simp

lemma set_without_next: "set (without_next i xs) \<subseteq> set xs"
  by (auto simp: without_next_def dest: in_set_takeD in_set_dropD)

lemma map_without_next: "map f (without_next i xs) = without_next i (map f xs)"
  by (simp add: without_next_def take_map drop_map)

lemma nth_without_next: "i < length xs \<Longrightarrow> without_next i xs ! i = xs ! i"
  by (simp add: without_next_def nth_append)

lemma length_without_next: "Suc i < length xs \<Longrightarrow> length (without_next i xs) = length xs - 1"
  by (simp add: without_next_def)

lemma hd_without_next: "xs \<noteq> [] \<Longrightarrow> hd (without_next i xs) = hd xs"
  by (cases xs) (simp_all add: without_next_def)

lemma distinct_without_next: "distinct xs \<Longrightarrow> distinct (without_next i xs)"
proof -
  assume d: "distinct xs"
  have "set (take (Suc i) xs) \<inter> set (drop (Suc (Suc i)) xs) = {}"
    using set_take_disj_set_drop_if_distinct [OF d, of "Suc i" "Suc (Suc i)"] by simp
  then show ?thesis using d by (simp add: without_next_def)
qed

text \<open>Every step keeps the pids different, the running task in the list and the first task first.\<close>

lemma schedule_step_ok:
  assumes "schedule_ok a" and "(\<exists>eip. e = Fork eip) \<longrightarrow> fresh a + 1 \<noteq> 0"
  shows "schedule_ok (schedule_step e a)" and "hd (pids (schedule_step e a)) = hd (pids a)"
    and "e = Kill p eip \<Longrightarrow> p \<noteq> hd (pids a) \<Longrightarrow> p \<notin> set (pids (schedule_step e a))"
proof -
  have ne: "pids a \<noteq> []" using assms(1) by (auto simp: schedule_ok_def)
  have inc: "p < fresh a + 1" if "p \<le> fresh a" "fresh a + 1 \<noteq> 0" for p
  proof -
    have "unat (fresh a + 1) = Suc (unat (fresh a))"
      using unatSuc [of "fresh a"] that(2) by (simp add: add.commute)
    then show ?thesis using that(1) by (simp add: word_less_nat_alt word_le_nat_alt)
  qed
  show "schedule_ok (schedule_step e a)"
  proof (cases e)
    case (Fork eip)
    then have w: "fresh a + 1 \<noteq> 0" using assms(2) by simp
    have "fresh a \<notin> set (pids a)" using assms(1) by (auto simp: schedule_ok_def)
    moreover have "p < fresh a + 1" if "p \<in> set (pids a) \<or> p = fresh a" for p
      using that assms(1) inc [OF _ w] by (auto simp: schedule_ok_def dest: less_imp_le)
    ultimately show ?thesis using assms(1) Fork by (auto simp: schedule_ok_def)
  next
    case (Kill p eip)
    show ?thesis
    proof (cases "place_of p (tl (pids a))")
      case (Some i)
      then have "i < length (tl (pids a))" using place_of_Some [OF Some] by blast
      then have "Suc i < length (pids a)" by simp
      moreover have "distinct (without_next i (pids a))" using assms(1) distinct_without_next by (auto simp: schedule_ok_def)
      ultimately show ?thesis
        using Some Kill assms(1) set_without_next [of i "pids a"] length_without_next [of i "pids a"]
        by (auto simp: schedule_ok_def)
    qed (use Kill assms(1) in simp)
  qed (use assms(1) ne in \<open>auto simp: schedule_ok_def\<close>)
  show "hd (pids (schedule_step e a)) = hd (pids a)"
    using ne by (cases e) (auto split: option.split simp: hd_without_next)
  show "p \<notin> set (pids (schedule_step e a))" if e: "e = Kill p eip" and p: "p \<noteq> hd (pids a)"
  proof (cases "place_of p (tl (pids a))")
    case None
    then have "p \<notin> set (tl (pids a))" by (simp add: place_of_None)
    then have "p \<notin> set (pids a)" using p ne by (cases "pids a") auto
    then show ?thesis using None e by simp
  next
    case (Some i)
    then have "i < length (tl (pids a))" "tl (pids a) ! i = p" using place_of_Some [OF Some] by blast+
    then have i: "Suc i < length (pids a)" "pids a ! Suc i = p" by (simp_all add: nth_tl)
    have d: "distinct (pids a)" using assms(1) by (simp add: schedule_ok_def)
    have "pids a = take (Suc i) (pids a) @ p # drop (Suc (Suc i)) (pids a)"
      using id_take_nth_drop [OF i(1)] i(2) by simp
    then have "distinct (take (Suc i) (pids a) @ p # drop (Suc (Suc i)) (pids a))" using d by simp
    then have "p \<notin> set (without_next i (pids a))" by (simp add: without_next_def)
    then show ?thesis using Some e by simp
  qed
qed

section \<open>The steps of the kernel\<close>

text \<open>What \<open>fork\<close> relies on: copying the directory and making the struct leave the structs of the tasks alone.\<close>

definition gives_task :: "nat \<Rightarrow> 'a tasking \<Rightarrow> bool" where
  "gives_task n s \<longleftrightarrow> (\<forall>dir u p v.
     clone_dir n (cur_vm_page_dir s) (s\<lparr>if_flag := False\<rparr>) = Inr (dir, u) \<and> malloc_s n sizeof_pcb u = Inr (p, v) \<longrightarrow>
     p \<noteq> 0 \<and> (\<forall>ts. task_list s ts \<longrightarrow> (\<forall>t \<in> set ts. apart p 56 t 56 \<and> same_pcb s v t)))"

text \<open>
  The walk of \<open>task_exit_pid\<close> reads a pid at address 0 after the last task; the step asks for a pid that
  is not found there.
\<close>

inductive task_step :: "'a tasking \<Rightarrow> task_event \<Rightarrow> 'a tasking \<Rightarrow> bool" where
  worked: "task_step s (Work sp bp) (s\<lparr>esp := sp, ebp := bp\<rparr>)"
| ticked: "eip \<noteq> RESUMED \<Longrightarrow> task_step s (Tick eip) (snd (timer_callback eip s))"
| forked: "fork n eip s = Inr (r, t) \<Longrightarrow> gives_task n s \<Longrightarrow> task_step s (Fork eip) t"
| killed: "eip \<noteq> RESUMED \<Longrightarrow> pcb_pid s 0 \<noteq> p \<Longrightarrow> task_exit_pid p eip s = Inr (c, t) \<Longrightarrow> task_step s (Kill p eip) t"

inductive_cases work_stepE: "task_step s (Work sp bp) t"
inductive_cases tick_stepE: "task_step s (Tick eip) t"
inductive_cases fork_stepE: "task_step s (Fork eip) t"
inductive_cases kill_stepE: "task_step s (Kill p eip) t"

definition schedules :: "'a tasking \<Rightarrow> schedule \<Rightarrow> bool" where
  "schedules s a \<longleftrightarrow> (\<exists>ts. task_list s ts \<and> running a < length ts \<and> cur_task s = ts ! running a
     \<and> pids a = List.map (pcb_pid s) ts \<and> fresh a = next_pid s)"

lemma schedulesE:
  assumes "schedules s a"
  obtains ts where "task_list s ts" "running a < length ts" "cur_task s = ts ! running a"
    "pids a = List.map (pcb_pid s) ts" "fresh a = next_pid s" "length (pids a) = length ts" "cur_task s \<in> set ts"
  using assms by (auto simp: schedules_def)

lemma schedulesI:
  assumes "task_list s ts" "running a < length ts" "cur_task s = ts ! running a" "pids a = List.map (pcb_pid s) ts"
    "fresh a = next_pid s"
  shows "schedules s a"
  using assms by (auto simp: schedules_def)

lemma work_refines:
  fixes s :: "'a tasking"
  assumes "schedules s a"
  shows "schedules (s\<lparr>esp := sp, ebp := bp\<rparr>) a"
proof -
  from assms obtain ts where t: "task_list s ts" "running a < length ts" "cur_task s = ts ! running a"
    "pids a = List.map (pcb_pid s) ts" "fresh a = next_pid s" by (rule schedulesE)
  have pk: "peek (s\<lparr>esp := sp, ebp := bp\<rparr>) = peek s" by simp
  show ?thesis
    by (rule schedulesI [of _ ts]) (use t task_list_cong [OF pk] pcb_cong(1) [OF pk] in simp_all)
qed

lemma tick_refines:
  fixes s :: "'a tasking"
  assumes "schedules s a" and "eip \<noteq> RESUMED"
  shows "schedules (snd (timer_callback eip s)) (schedule_step (Tick eip) a)"
proof -
  from assms(1) obtain ts where t: "task_list s ts" "running a < length ts" "cur_task s = ts ! running a"
    "pids a = List.map (pcb_pid s) ts" "fresh a = next_pid s" "length (pids a) = length ts" "cur_task s \<in> set ts"
    by (rule schedulesE)
  let ?s = "s\<lparr>tick := tick s + 1\<rparr>" and ?t = "snd (timer_callback eip s)"
  have pk: "peek ?s = peek s" by simp
  have l: "task_list ?s ts" using t(1) task_list_cong [OF pk] by simp
  have c: "cur_task ?s = ts ! running a" using t(3) by simp
  have e: "?t = snd (task_switch eip ?s)" by (simp add: timer_callback_def)
  note r = switch_result [OF l t(2) c assms(2), folded e]
  have q: "pcb_pid ?t d = pcb_pid s d" if "d \<in> set ts" for d
    using that r(13) [THEN same_pcb_fields(1)] r(14) pcb_cong(1) [OF pk] by (cases "d = ts ! running a") auto
  have n: "next_pid ?t = next_pid s"
    unfolding e switch_eq [OF l t(2) c assms(2)] by (simp add: save_context_frame)
  have "0 < length ts" using t(2) by linarith
  then show ?thesis
    by (intro schedulesI [OF r(1)]) (use t(4-6) r(2) q n in \<open>simp_all add: turn_def\<close>)
qed

lemma fork_refines:
  fixes s :: "'a tasking"
  assumes "schedules s a" and "fork n eip s = Inr (r, t)" and "gives_task n s"
  shows "schedules t (schedule_step (Fork eip) a)"
proof -
  from assms(1) obtain ts where ts: "task_list s ts" "running a < length ts" "cur_task s = ts ! running a"
    "pids a = List.map (pcb_pid s) ts" "fresh a = next_pid s" "length (pids a) = length ts" "cur_task s \<in> set ts"
    by (rule schedulesE)
  obtain dir u where d: "clone_dir n (cur_vm_page_dir s) (s\<lparr>if_flag := False\<rparr>) = Inr (dir, u)"
    using assms(2) by (cases "clone_dir n (cur_vm_page_dir s) (s\<lparr>if_flag := False\<rparr>)") (auto simp: fork_def fork_prepare_def Let_def)
  obtain p v where m: "malloc_s n sizeof_pcb u = Inr (p, v)"
    using assms(2) d by (cases "malloc_s n sizeof_pcb u") (auto simp: fork_def fork_prepare_def Let_def)
  have g: "p \<noteq> 0" "\<forall>t \<in> set ts. apart p 56 t 56 \<and> same_pcb s v t"
    using assms(3) d m ts(1) unfolding gives_task_def by blast+
  from fork_result [OF ts(1) d m g ts(7), of eip] assms(2)
  have t: "task_list t (ts @ [p])" "next_pid t = next_pid s + 1" "cur_task t = cur_task s" "pcb_pid t p = next_pid s"
    "\<forall>c \<in> set ts. pcb_pid t c = pcb_pid s c" by auto
  show ?thesis
    by (rule schedulesI [OF t(1)]) (use ts t in \<open>simp_all add: nth_append\<close>)
qed

lemma kill_refines:
  fixes s :: "'a tasking"
  assumes "schedules s a" and "eip \<noteq> RESUMED" and "pcb_pid s 0 \<noteq> p" and "task_exit_pid p eip s = Inr (c, t)"
  shows "schedules t (schedule_step (Kill p eip) a)"
proof -
  from assms(1) obtain ts where ts: "task_list s ts" "running a < length ts" "cur_task s = ts ! running a"
    "pids a = List.map (pcb_pid s) ts" "fresh a = next_pid s" "length (pids a) = length ts" "cur_task s \<in> set ts"
    by (rule schedulesE)
  have tlp: "tl (pids a) = List.map (pcb_pid s) (tl ts)" using ts(4) by (simp add: map_tl)
  show ?thesis
  proof (cases "place_of p (tl (pids a))")
    case None
    then have "\<forall>t \<in> set (tl ts). pcb_pid s t \<noteq> p" by (auto simp: place_of_None tlp)
    from exit_pid_missing [OF ts(1,7) this assms(3), of eip] assms(4)
    have t: "mem t = mem s" "task_list t ts" "cur_task t = cur_task s" "next_pid t = next_pid s" by auto
    have pk: "peek t = peek s" by (rule ext) (simp add: peek_def t(1))
    show ?thesis
      using None by (intro schedulesI [OF t(2)]) (use ts t pcb_cong(1) [OF pk] in simp_all)
  next
    case (Some i)
    from place_of_Some [OF Some] have i: "i < length (tl ts)" "pcb_pid s (tl ts ! i) = p" "\<And>j. j < i \<Longrightarrow> pcb_pid s (tl ts ! j) \<noteq> p"
      by (auto simp: tlp)
    then have j: "i + 1 < length ts" "pcb_pid s (ts ! (i + 1)) = p" "\<And>j. j < i \<Longrightarrow> pcb_pid s (ts ! (j + 1)) \<noteq> p"
      by (auto simp: nth_tl)
    from exit_pid_unlinks [OF ts(1,7) assms(2) j] assms(4)
    have t: "task_list t (without_next i ts)" "cur_task t = ts ! i" "\<forall>c \<in> set ts. pcb_pid t c = pcb_pid s c" "next_pid t = next_pid s"
      by auto
    have q: "List.map (pcb_pid t) (without_next i ts) = List.map (pcb_pid s) (without_next i ts)"
      using t(3) set_without_next [of i ts] by auto
    show ?thesis
      by (rule schedulesI [OF t(1)])
        (use Some ts j(1) t q length_without_next [of i ts] nth_without_next [of i ts] in \<open>simp_all add: map_without_next\<close>)
  qed
qed

lemma task_step_refines: "task_step s e t \<Longrightarrow> schedules s a \<Longrightarrow> schedules t (schedule_step e a)"
  for s :: "'a tasking"
proof (induction rule: task_step.induct)
  case (worked s sp bp)
  then show ?case using work_refines by simp
qed (blast intro: tick_refines fork_refines kill_refines)+

interpretation tasks: simulation "task_step :: 'a tasking \<Rightarrow> task_event \<Rightarrow> 'a tasking \<Rightarrow> bool" schedule_step schedules
  by unfold_locales (rule task_step_refines)

text \<open>
  Property C4. Whatever the tasks do, in whatever order, the structs in memory, their links, and \<open>cur_task\<close>
  follow the specification: every run of the kernel's steps from a state that stands for a schedule
  ends in a state that stands for the schedule the specification computes. A \<open>fork\<close> is a step when its struct is given
  outside the structs of the tasks and these stay as they are (\<open>gives_task\<close>).
\<close>

theorem tasks_follow_schedule:
  fixes s :: "'a tasking"
  assumes "schedules s a" and "runs task_step s es t"
  shows "schedules t (fold schedule_step es a)"
  using assms(2,1) by (rule tasks.runs_simulate)

lemma two_tasks_schedule: "schedules two_tasks \<lparr>pids = [1, 2], running = 0, fresh = 3\<rparr>"
proof -
  have "List.map (pcb_pid two_tasks) [0x1000, 0x2000] = [1, 2]" by code_simp
  then show ?thesis
    using two_tasks_list by (intro schedulesI [of _ "[0x1000, 0x2000]"]) (simp_all add: two_tasks_def)
qed

lemma two_tasks_run: "\<exists>t. runs task_step two_tasks [Kill 2 0x5000, Tick 0x4000] t"
proof -
  have p: "pcb_pid two_tasks 0x2000 = 2" "pcb_pid two_tasks 0 \<noteq> 2" by code_simp+
  have "\<exists>c t. task_exit_pid 2 0x5000 two_tasks = Inr (c, t)"
    using exit_pid_unlinks [OF two_tasks_list(1), of "0x5000" 0 2] two_tasks_list(2) p(1) by (auto simp: RESUMED_def)
  then obtain c t where t: "task_exit_pid 2 0x5000 two_tasks = Inr (c, t)" by blast
  have "task_step two_tasks (Kill 2 0x5000) t" by (rule killed [OF _ p(2) t]) (simp add: RESUMED_def)
  moreover have "task_step t (Tick 0x4000) (snd (timer_callback 0x4000 t))" by (rule ticked) (simp add: RESUMED_def)
  ultimately show ?thesis by auto
qed

theorem tasks_follow_schedule_witness:
  "\<exists>t. runs task_step two_tasks [Kill 2 0x5000, Tick 0x4000] t \<and> schedules t \<lparr>pids = [1], running = 0, fresh = 3\<rparr>"
proof -
  obtain t where t: "runs task_step two_tasks [Kill 2 0x5000, Tick 0x4000] t" using two_tasks_run by blast
  have "fold schedule_step [Kill 2 0x5000, Tick 0x4000] \<lparr>pids = [1, 2], running = 0, fresh = 3\<rparr> = \<lparr>pids = [1], running = 0, fresh = 3\<rparr>"
    by (simp add: without_next_def)
  then show ?thesis using tasks_follow_schedule [OF two_tasks_schedule t] t by auto
qed

section \<open>What holds of every run\<close>

definition forks :: "task_event list \<Rightarrow> nat" where
  "forks es = length (filter (\<lambda>e. case e of Fork eip \<Rightarrow> True | _ \<Rightarrow> False) es)"

lemma schedule_run_ok:
  "schedule_ok a \<Longrightarrow> unat (fresh a) + forks es < 2 ^ 32 \<Longrightarrow>
    schedule_ok (fold schedule_step es a) \<and> hd (pids (fold schedule_step es a)) = hd (pids a)"
proof (induction es arbitrary: a)
  case (Cons e es)
  have f: "fresh (schedule_step e a) = (if \<exists>eip. e = Fork eip then fresh a + 1 else fresh a)"
    by (cases e) (auto split: option.split)
  have le: "unat (fresh a) + forks (e # es) < 2 ^ 32" by (rule Cons.prems(2))
  have up: "unat (fresh a + 1) = Suc (unat (fresh a))" "fresh a + 1 \<noteq> 0" if "\<exists>eip. e = Fork eip"
  proof -
    have "Suc (unat (fresh a)) < 2 ^ 32" using that le by (auto simp: forks_def)
    then show "unat (fresh a + 1) = Suc (unat (fresh a))" by (simp add: unat_word_ariths)
    then show "fresh a + 1 \<noteq> 0" by auto
  qed
  note ok = schedule_step_ok(1,2) [OF Cons.prems(1), of e]
  have "unat (fresh (schedule_step e a)) + forks es < 2 ^ 32"
    using le up(1) unfolding f by (cases e) (auto simp: forks_def)
  from Cons.IH [OF ok(1) this] up(2) ok(2) show ?case by simp
qed simp

text \<open>
  Property C29. In every state a run of the kernel's steps reaches, as long as the pids do not wrap and every \<open>fork\<close> gets
  its struct from an allocator that keeps it apart from the structs of the tasks (\<open>gives_task\<close>), the walk from
  \<open>head_task\<close> along the \<open>next\<close> pointers ends at a null pointer, \<open>cur_task\<close> is one of the structs on it, their pids are
  different, and the first task is still the first one.
\<close>

theorem tasks_stay_well_formed:
  fixes s :: "'a tasking"
  assumes "schedules s a" and "schedule_ok a" and "runs task_step s es t" and "unat (next_pid s) + forks es < 2 ^ 32"
  shows "\<exists>ts. chain t (head_task t) ts \<and> cur_task t \<in> set ts \<and> distinct (List.map (pcb_pid t) ts)
    \<and> pcb_pid t (head_task t) = pcb_pid s (head_task s)"
proof -
  let ?b = "fold schedule_step es a"
  have "fresh a = next_pid s" using assms(1) by (auto simp: schedules_def)
  then have ok: "schedule_ok ?b" "hd (pids ?b) = hd (pids a)"
    using schedule_run_ok [OF assms(2), of es] assms(4) by simp_all
  have hd: "hd (pids c) = pcb_pid u (head_task u)" if "task_list u us" "pids c = List.map (pcb_pid u) us" for c us and u :: "'a tasking"
    using that chain_hd [of u "head_task u" us] by (simp add: task_list_def hd_map)
  from tasks.runs_simulate [OF assms(3,1)] obtain ts where ts: "task_list t ts" "pids ?b = List.map (pcb_pid t) ts" "cur_task t \<in> set ts"
    by (rule schedulesE)
  from assms(1) obtain us where us: "task_list s us" "pids a = List.map (pcb_pid s) us" by (rule schedulesE)
  show ?thesis
    using ts ok hd [OF ts(1,2)] hd [OF us] by (auto simp: schedule_ok_def task_list_def)
qed

theorem tasks_stay_well_formed_witness:
  "\<exists>t ts. runs task_step two_tasks [Kill 2 0x5000, Tick 0x4000] t \<and> chain t (head_task t) ts \<and> distinct (List.map (pcb_pid t) ts)"
proof -
  obtain t where t: "runs task_step two_tasks [Kill 2 0x5000, Tick 0x4000] t" using two_tasks_run by blast
  have "schedule_ok \<lparr>pids = [1, 2], running = 0, fresh = 3\<rparr>" by (simp add: schedule_ok_def)
  moreover have "unat (next_pid two_tasks) + forks [Kill 2 0x5000, Tick 0x4000] < 2 ^ 32" by (simp add: two_tasks_def forks_def)
  ultimately show ?thesis using tasks_stay_well_formed [OF two_tasks_schedule _ t] t by blast
qed

end
