(* ===== verification/Task_Start.thy ===== *)
theory Task_Start
  imports Task_System
begin

text \<open>
  \<open>move_stack\<close> and \<open>init_multitask\<close> of \<open>src/src/task.c\<close>: the boot stack is copied to its new place, the
  words in it that look like addresses of the old stack are moved along, and the first task is made,
  from which the runs of \<open>Task_System\<close> start.
\<close>

section \<open>The loops of move_stack\<close>

text \<open>The loop that maps the new stack ends unless the stack reaches down to the first page.\<close>

lemma map_stack_returns:
  assumes "0x1000 \<le> lower"
  shows "\<exists>r. map_stack n lower i s = Some r"
proof (induction "unat i" arbitrary: i s rule: less_induct)
  case less
  show ?case
  proof (cases "lower \<le> i")
    case True
    then have "0x1000 \<le> i" using assms by simp
    then have "unat (i - 0x1000) < unat i" by (simp add: unat_sub_if' word_le_nat_alt)
    from less [OF this] show ?thesis by (subst map_stack.simps) (simp split: sum.split)
  qed (subst map_stack.simps, simp)
qed

definition relocated :: "u32 \<Rightarrow> u32 \<Rightarrow> u32 \<Rightarrow> u32 \<Rightarrow> u32" where
  "relocated old_stack_p initial offset w = (if old_stack_p < w \<and> w < initial then w + offset else w)"

lemma relocate_stack_result:
  assumes "unat lower + 4 * k < 2 ^ 32"
  shows "\<exists>t. relocate_stack lower p q c (off lower (4 * k)) s = Some t \<and> t = s\<lparr>mem := mem t\<rparr>
    \<and> (\<forall>j. 1 \<le> j \<and> j \<le> k \<longrightarrow> peek t (off lower (4 * j)) = relocated p q c (peek s (off lower (4 * j))))
    \<and> (\<forall>y. \<not> in_range (off lower 4) (4 * k) y \<longrightarrow> mem t y = mem s y)"
  using assms
proof (induction k arbitrary: s)
  case 0
  show ?case by (subst relocate_stack.simps) (simp add: off_def)
next
  case (Suc k)
  let ?i = "off lower (4 * Suc k)"
  let ?u = "if p < peek s ?i \<and> peek s ?i < q then poke ?i (peek s ?i + c) s else s"
  have lt: "lower < ?i"
  proof -
    have "unat ?i = unat lower + 4 * Suc k"
      using Suc.prems unat_of_nat_small [of "4 * Suc k"] by (simp add: off_def unat_word_ariths)
    then show ?thesis by (simp add: word_less_nat_alt)
  qed
  have down: "?i - 4 = off lower (4 * k)" by (simp add: off_def)
  have run: "relocate_stack lower p q c ?i s = relocate_stack lower p q c (off lower (4 * k)) ?u"
    by (subst relocate_stack.simps) (simp only: lt down if_True)
  obtain t where t: "relocate_stack lower p q c (off lower (4 * k)) ?u = Some t" "t = ?u\<lparr>mem := mem t\<rparr>"
    "\<And>j. 1 \<le> j \<Longrightarrow> j \<le> k \<Longrightarrow> peek t (off lower (4 * j)) = relocated p q c (peek ?u (off lower (4 * j)))"
    "\<And>y. \<not> in_range (off lower 4) (4 * k) y \<Longrightarrow> mem t y = mem ?u y"
    using Suc.IH [of ?u] Suc.prems by auto
  have u_other: "mem ?u y = mem s y" if "\<not> in_range ?i 4 y" for y
    using that by (simp add: store32_other)
  have u_word: "peek ?u (off lower (4 * j)) = peek s (off lower (4 * j))" if "j \<le> k" for j
  proof -
    have "apart ?i 4 (off lower (4 * j)) 4"
      using Suc.prems that by (subst apart_sym, intro off_apart) simp_all
    then show ?thesis by (intro peek_cong u_other) (rule apart_in_range)
  qed
  have top: "peek t ?i = relocated p q c (peek s ?i)"
  proof -
    have "\<not> in_range (off lower 4) (4 * k) y" if "in_range ?i 4 y" for y
    proof (cases "k = 0")
      case False
      then have "apart (off lower 4) (4 * k) ?i 4" using Suc.prems by (intro off_apart) simp_all
      then show ?thesis using that by (rule apart_in_range)
    qed (simp add: in_range_def)
    then have "peek t ?i = peek ?u ?i" by (intro peek_cong t(4))
    then show ?thesis by (simp add: relocated_def peek_poke_same)
  qed
  have "t = s\<lparr>mem := mem t\<rparr>"
  proof -
    have "?u\<lparr>mem := m\<rparr> = s\<lparr>mem := m\<rparr>" for m by (simp add: poke_def)
    with t(2) show ?thesis by metis
  qed
  moreover have "peek t (off lower (4 * j)) = relocated p q c (peek s (off lower (4 * j)))" if "1 \<le> j" "j \<le> Suc k" for j
  proof (cases "j = Suc k")
    case False
    then have "j \<le> k" using that(2) by simp
    then show ?thesis using t(3) [OF that(1)] u_word by metis
  qed (use top in simp)
  moreover have "mem t y = mem s y" if y: "\<not> in_range (off lower 4) (4 * Suc k) y" for y
  proof -
    have "\<not> in_range (off lower 4) (4 * k) y" using y in_range_mono [of "off lower 4" "4 * k" y] by auto
    moreover have "\<not> in_range ?i 4 y"
      using y in_range_off [of "off lower 4" "4 * k" 4 y "4 * Suc k"] Suc.prems by (auto simp: off_def add.assoc)
    ultimately show ?thesis using t(4) u_other by metis
  qed
  ultimately show ?case using run t(1) by (intro exI [of _ t]) auto
qed

section \<open>The stack in its new place\<close>

lemma copied_word:
  assumes "\<And>i. i < n \<Longrightarrow> m' (d + of_nat i) = m (s + of_nat i)" and "i + 4 \<le> n"
  shows "load32 m' (off d i) = load32 m (off s i)"
  using assms(1) [of i] assms(1) [of "i + 1"] assms(1) [of "i + 2"] assms(1) [of "i + 3"] assms(2)
  by (simp add: load32_def off_def ac_simps)

lemma move_stack_result:
  fixes s u :: "'a tasking"
  assumes "map_stack n (stk - of_nat (4 * K)) stk s = Some (Inr u)" and "4 * K \<le> unat stk" and "unat stk + 4 \<le> 2 ^ 32" and "k < K"
    and "initial_esp u - esp u = of_nat (4 * k)" and "apart (esp u) (4 * k) (stk - of_nat (4 * k)) (4 * k)"
  defines "d \<equiv> stk - initial_esp u"
  shows "\<exists>t. move_stack n stk (of_nat (4 * K)) s = Inr t \<and> t = u\<lparr>mem := mem t, esp := esp t, ebp := ebp t\<rparr> \<and> esp t = stk - of_nat (4 * k) \<and> ebp t = ebp u + d
    \<and> (\<forall>j < k. peek t (off (esp t) (4 * j)) = relocated (esp u) (initial_esp u) d (peek u (off (esp u) (4 * j))))
    \<and> (\<forall>y. \<not> in_range (off (stk - of_nat (4 * K)) 4) (4 * K) y \<longrightarrow> mem t y = mem u y)"
proof -
  obtain lower where lower: "lower = stk - of_nat (4 * K)" by simp
  have K: "4 * K < 2 ^ 32" using assms(2,3) by linarith
  have uK: "unat (of_nat (4 * K) :: u32) = 4 * K" by (rule unat_of_nat_small [OF K])
  have ul: "unat lower + 4 * K = unat stk"
  proof -
    have "unat lower = unat stk - 4 * K"
      unfolding lower using assms(2) uK by (simp only: unat_sub_if' if_True word_le_nat_alt)
    then show ?thesis using assms(2) by simp
  qed
  then have fit: "unat lower + 4 * K < 2 ^ 32" using assms(3) by simp
  have stk: "off lower (4 * K) = stk" by (simp add: off_def lower)
  obtain sp where sp: "sp = stk - of_nat (4 * k)" by simp
  have spd: "esp u + d = sp" using assms(5) by (simp add: sp d_def algebra_simps)
  have spo: "sp = off lower (4 * (K - k))" using assms(4) by (simp add: sp lower off_def of_nat_diff algebra_simps)
  have uk: "unat (of_nat (4 * k) :: u32) = 4 * k" using K assms(4) by (intro unat_of_nat_small) simp
  obtain kw :: u32 where kw: "kw = of_nat (4 * k)" by simp
  obtain Kw :: u32 where Kw: "Kw = of_nat (4 * K)" by simp
  obtain v where v: "v = u\<lparr>mem := fst (memcpy (mem u) sp (esp u) kw)\<rparr>" by simp
  have vm: "mem v = memcpy_loop (mem u) sp (esp u) (4 * k)" by (simp only: v kw memcpy_def fst_conv uk) simp
  have copied: "mem v (sp + of_nat i) = mem u (esp u + of_nat i)" if "i < 4 * k" for i
    unfolding vm
  proof (rule memcpy_loop_in [OF _ _ that])
    show "4 * k \<le> 2 ^ 32" using K assms(4) by simp
    show "sp + of_nat a \<noteq> esp u + of_nat b" if "a < 4 * k" "b < 4 * k" for a b
      using apart_offsets [OF assms(6) that(2,1)] K assms(4) unfolding sp by simp
  qed
  have words: "peek v (off sp (4 * j)) = peek u (off (esp u) (4 * j))" if "j < k" for j
    unfolding peek_def using that by (intro copied_word [where n = "4 * k"] copied) simp_all
  have vo: "mem v y = mem u y" if y: "\<not> in_range (off lower 4) (4 * K) y" for y
  proof (cases "k = 0")
    case False
    have o: "off (off lower 4) (4 * (K - k) - 4) = sp" using assms(4) unfolding spo by (simp add: off_def of_nat_diff algebra_simps)
    have "\<not> in_range sp (4 * k) y"
    proof
      assume "in_range sp (4 * k) y"
      then have "in_range (off (off lower 4) (4 * (K - k) - 4)) (4 * k) y" unfolding o .
      then have "in_range (off lower 4) (4 * K) y" by (rule in_range_off) (use K assms(4) False in simp_all)
      with y show False by simp
    qed
    then show ?thesis unfolding vm using K assms(4) by (intro memcpy_loop_other) simp_all
  qed (simp add: vm)
  obtain t where t: "relocate_stack lower (esp u) (initial_esp u) d stk v = Some t" "t = v\<lparr>mem := mem t\<rparr>"
    "\<And>j. 1 \<le> j \<Longrightarrow> j \<le> K \<Longrightarrow> peek t (off lower (4 * j)) = relocated (esp u) (initial_esp u) d (peek v (off lower (4 * j)))"
    "\<And>y. \<not> in_range (off lower 4) (4 * K) y \<Longrightarrow> mem t y = mem v y"
    using relocate_stack_result [OF fit, of "esp u" "initial_esp u" d v] unfolding stk by blast
  obtain w where w: "w = t\<lparr>esp := sp, ebp := ebp u + d\<rparr>" by simp
  have "move_stack n stk Kw s = Inr w"
    using assms(1) [folded Kw] t(1) [unfolded lower, folded Kw] assms(5) [folded kw]
    by (simp add: move_stack_def Let_def d_def [symmetric] spd v [symmetric] w)
  moreover have "w = u\<lparr>mem := mem w, esp := esp w, ebp := ebp w\<rparr>"
  proof -
    have "t = u\<lparr>mem := mem t\<rparr>" by (subst t(2)) (simp add: v)
    then have "w = (u\<lparr>mem := mem t\<rparr>)\<lparr>esp := sp, ebp := ebp u + d\<rparr>" unfolding w by metis
    then show ?thesis by simp
  qed
  moreover have "esp w = sp" "ebp w = ebp u + d" "mem w = mem t" by (simp_all add: w)
  moreover have "peek w (off sp (4 * j)) = relocated (esp u) (initial_esp u) d (peek u (off (esp u) (4 * j)))" if j: "j < k" for j
  proof -
    have o: "off sp (4 * j) = off lower (4 * (K - k + j))" unfolding spo by (simp add: off_def algebra_simps)
    have "peek w (off sp (4 * j)) = peek t (off lower (4 * (K - k + j)))" unfolding o by (simp add: peek_def w)
    also have "\<dots> = relocated (esp u) (initial_esp u) d (peek v (off sp (4 * j)))"
      unfolding o using assms(4) j by (intro t(3)) simp_all
    finally show ?thesis using words [OF j] by simp
  qed
  ultimately show ?thesis
    using t(4) vo unfolding sp [symmetric] Kw [symmetric] lower [unfolded Kw [symmetric]] by (intro exI [of _ w]) simp
qed

text \<open>
  Property C30. When the pages of the new stack could be mapped, \<open>move_stack\<close> returns with the stack pointer and the
  base pointer moved to the new stack. Each word of the old stack has been copied to the same distance from
  the new top, and a word that, read as an address, lies inside the old stack has been moved by the same
  offset. Nothing outside the new stack and the word above it is written.
\<close>

theorem move_stack_relocates:
  fixes s u :: "'a tasking"
  assumes "map_stack n (stk - of_nat (4 * K)) stk s = Some (Inr u)" and "4 * K \<le> unat stk" and "unat stk + 4 \<le> 2 ^ 32" and "k < K"
    and "initial_esp u - esp u = of_nat (4 * k)" and "apart (esp u) (4 * k) (stk - of_nat (4 * k)) (4 * k)"
  defines "d \<equiv> stk - initial_esp u"
  shows "\<exists>t. move_stack n stk (of_nat (4 * K)) s = Inr t \<and> esp t = stk - of_nat (4 * k) \<and> ebp t = ebp u + d
    \<and> (\<forall>j < k. peek t (off (esp t) (4 * j)) = relocated (esp u) (initial_esp u) d (peek u (off (esp u) (4 * j))))
    \<and> (\<forall>y. \<not> in_range (off (stk - of_nat (4 * K)) 4) (4 * K) y \<longrightarrow> mem t y = mem u y)"
  using move_stack_result [OF assms(1-6)] unfolding d_def by blast

text \<open>Two words on the stack below 0x9000, the upper one with an address of the other.\<close>

definition boot_stack :: task_memory where
  "boot_stack = two_tasks\<lparr>mem := (\<lambda>_. 0)(0x10002 := 2, 0x20009 := 0x10, 0x2000D := 0x10, 0x8FF8 := 5, 0x8FFC := 0xFC, 0x8FFD := 0x8F),
     initial_esp := 0x9000, esp := 0x8FF8, ebp := 0x8FFC\<rparr>"

lemma boot_stack_mapped: "map_stack 0 0x2000 0x3000 boot_stack = Some (Inr boot_stack)"
proof -
  have d: "cur_vm_page_dir boot_stack = 0x10000" by (simp add: boot_stack_def two_tasks_def)
  have t: "peek boot_stack (table_slot 0x10000 0) = 0x20000" by code_simp
  have f: "frame_of (peek boot_stack (page_slot 0x20000 3)) \<noteq> 0" "frame_of (peek boot_stack (page_slot 0x20000 2)) \<noteq> 0" by code_simp+
  have g: "get_page (malloc_ap 0) 0x3000 1 0x10000 boot_stack = Inr (page_slot 0x20000 3, boot_stack)"
    "get_page (malloc_ap 0) 0x2000 1 0x10000 boot_stack = Inr (page_slot 0x20000 2, boot_stack)"
    using get_page_finds [of boot_stack "0x10000" "0x3000" "malloc_ap 0" 1] get_page_finds [of boot_stack "0x10000" "0x2000" "malloc_ap 0" 1] t by simp_all
  have a: "alloc_frame (page_slot 0x20000 3) 0 1 boot_stack = boot_stack" "alloc_frame (page_slot 0x20000 2) 0 1 boot_stack = boot_stack"
    using f by (simp_all add: alloc_frame_def)
  have "map_stack 0 0x2000 0x1000 boot_stack = Some (Inr boot_stack)" by (subst map_stack.simps) simp
  then have "map_stack 0 0x2000 0x2000 boot_stack = Some (Inr boot_stack)" by (subst map_stack.simps) (simp add: d g a)
  then show ?thesis by (subst map_stack.simps) (simp add: d g a)
qed

theorem move_stack_relocates_witness:
  "\<exists>t. move_stack 0 0x3000 0x1000 boot_stack = Inr t \<and> esp t = 0x2FF8 \<and> ebp t = 0x2FFC
    \<and> peek t 0x2FF8 = 5 \<and> peek t 0x2FFC = 0x2FFC"
proof -
  have m: "map_stack 0 (0x3000 - of_nat (4 * 0x400)) 0x3000 boot_stack = Some (Inr boot_stack)"
    using boot_stack_mapped by simp
  have r: "initial_esp boot_stack = 0x9000" "esp boot_stack = 0x8FF8" "ebp boot_stack = 0x8FFC" by (simp_all add: boot_stack_def)
  have w: "peek boot_stack 0x8FF8 = 5" "peek boot_stack 0x8FFC = 0x8FFC" by code_simp+
  have "\<exists>t. move_stack 0 0x3000 (of_nat (4 * 0x400)) boot_stack = Inr t \<and> esp t = 0x3000 - of_nat (4 * 2)
    \<and> ebp t = 0x8FFC + (0x3000 - 0x9000)
    \<and> (\<forall>j < 2. peek t (off (esp t) (4 * j)) = relocated 0x8FF8 0x9000 (0x3000 - 0x9000) (peek boot_stack (off 0x8FF8 (4 * j))))"
    using move_stack_relocates [OF m, of 2] unfolding r by (simp add: apart_def) blast
  then obtain t where t: "move_stack 0 0x3000 0x1000 boot_stack = Inr t" "esp t = 0x2FF8" "ebp t = 0x2FFC"
    "\<And>j. j < 2 \<Longrightarrow> peek t (off 0x2FF8 (4 * j)) = relocated 0x8FF8 0x9000 (- 0x6000) (peek boot_stack (off 0x8FF8 (4 * j)))"
    by auto
  show ?thesis
    using t(1-3) t(4) [of 0] t(4) [of 1] w by (intro exI [of _ t]) (simp add: off_def relocated_def)
qed

section \<open>The first task\<close>

text \<open>
  \<open>init_multitask\<close> ends with interrupts enabled and one task, which runs: the list of tasks is the
  schedule of that task alone. Its directory is the current one; its time is what memory held.
\<close>

lemma init_multitask_result:
  fixes s u v :: "'a tasking"
  assumes "move_stack n 0xE0000000 0x2000 (s\<lparr>if_flag := False\<rparr>) = Inr u" and "malloc_s n sizeof_pcb u = Inr (p, v)" and "p \<noteq> 0"
  shows "\<exists>t. init_multitask n s = Inr t \<and> schedules t \<lparr>pids = [next_pid u], running = 0, fresh = next_pid u + 1\<rparr>
    \<and> cur_task t = p \<and> head_task t = p \<and> if_flag t \<and> esp t = esp u \<and> ebp t = ebp u
    \<and> pcb_page_dir t p = cur_vm_page_dir u \<and> pcb_state t p = TASK_RUNNABLE \<and> pcb_time t p = pcb_time v p
    \<and> (\<forall>y. \<not> in_range p 56 y \<longrightarrow> mem t y = mem v y) \<and> kheap t = kheap v"
proof -
  have "kept u v" using malloc_kept(1) [OF assms(2)] .
  note k = kept_tasks [OF this]
  have kd: "cur_vm_page_dir v = cur_vm_page_dir u" using malloc_kept(1) [OF assms(2)] by (simp add: kept_def)
  let ?w = "v\<lparr>head_task := p, cur_task := p\<rparr>"
  let ?x = "(set_pid p (next_pid u) ?w)\<lparr>next_pid := next_pid u + 1\<rparr>"
  let ?y = "set_state p TASK_RUNNABLE (set_next p 0 (set_page_dir p (cur_vm_page_dir u) (set_eip p 0 (set_esp p 0 (set_ebp p 0 ?x)))))"
  let ?t = "?y\<lparr>if_flag := True\<rparr>"
  have run: "init_multitask n s = Inr ?t"
    using assms(1,2) k kd by (simp add: init_multitask_def Let_def set_pcb_defs)
  have pt: "peek ?t = peek ?y" by simp
  have px: "peek ?x = peek (set_pid p (next_pid u) ?w)" by simp
  have pw: "peek ?w = peek v" by simp
  note get = peek_poke_off px pw
  have f: "pcb_pid ?t p = next_pid u" "pcb_next ?t p = 0" "pcb_page_dir ?t p = cur_vm_page_dir u"
    "pcb_state ?t p = TASK_RUNNABLE" "pcb_time ?t p = pcb_time v p"
    unfolding pcb_cong [OF pt] unfolding set_pcb_defs pcb_defs by (simp_all add: peek_poke_off)
  have g: "cur_task ?t = p" "head_task ?t = p" "if_flag ?t" "esp ?t = esp u" "ebp ?t = ebp u" "next_pid ?t = next_pid u + 1" "kheap ?t = kheap v"
    using k by (simp_all add: set_pcb_defs)
  have tl: "task_list ?t [p]" using f(2) assms(3) g(2) by (simp add: task_list_def pcbs_apart_def)
  then have "schedules ?t \<lparr>pids = [next_pid u], running = 0, fresh = next_pid u + 1\<rparr>"
    by (rule schedulesI) (use f(1) g in simp_all)
  moreover have "mem ?t y = mem v y" if "\<not> in_range p 56 y" for y
    using that by (simp add: set_pcb_defs off_outside)
  ultimately show ?thesis using run f g by blast
qed

end
