(* ===== verification/Lock.thy ===== *)
theory Lock
  imports Prelude
begin

text \<open>
  \<open>src/src/lock.c\<close>: the spin lock. One \<open>xchg\<close> is one indivisible step, so threads that use the lock
  are modelled as a step relation over the shared word and the place each thread has come to.
\<close>

definition SPINLOCK_LOCKED :: u32 where "SPINLOCK_LOCKED = 0"
definition SPINLOCK_UNLOCKED :: u32 where "SPINLOCK_UNLOCKED = 1"

text \<open>The exchange puts the value of the register, \<open>SPINLOCK_UNLOCKED\<close>, into the lock.\<close>

definition atomic_test_and_set :: "memory \<Rightarrow> u32 \<Rightarrow> u32 \<times> memory" where
  "atomic_test_and_set m lock = (load32 m lock, store32 m lock SPINLOCK_UNLOCKED)"

partial_function (option) spinlock_lock :: "memory \<Rightarrow> u32 \<Rightarrow> memory option" where
  "spinlock_lock m lock =
     (let r = atomic_test_and_set m lock in
      if fst r = SPINLOCK_LOCKED then spinlock_lock (snd r) lock else Some (snd r))"

text \<open>The same loop with its exchanges counted: \<open>exchanges lock k m m'\<close> when it ends after the \<open>k\<close>-th.\<close>

inductive exchanges :: "u32 \<Rightarrow> nat \<Rightarrow> memory \<Rightarrow> memory \<Rightarrow> bool" for lock where
  last: "atomic_test_and_set m lock = (v, m') \<Longrightarrow> v \<noteq> SPINLOCK_LOCKED \<Longrightarrow> exchanges lock 1 m m'"
| again: "atomic_test_and_set m lock = (v, m') \<Longrightarrow> v = SPINLOCK_LOCKED \<Longrightarrow> exchanges lock k m' m'' \<Longrightarrow> exchanges lock (Suc k) m m''"

definition spinlock_unlock :: "memory \<Rightarrow> u32 \<Rightarrow> memory" where
  "spinlock_unlock m lock = store32 m lock 0"

section \<open>Threads\<close>

text \<open>A thread is before \<open>spinlock_lock\<close>, in its loop, or past it and before \<open>spinlock_unlock\<close>.\<close>

datatype place = Before | Spinning | Holding

record lock_state =
  shared :: memory
  place_of :: "nat \<Rightarrow> place"

inductive thread_step :: "u32 \<Rightarrow> nat \<Rightarrow> lock_state \<Rightarrow> lock_state \<Rightarrow> bool" for lock t where
  call: "place_of s t = Before \<Longrightarrow> thread_step lock t s (s\<lparr>place_of := (place_of s)(t := Spinning)\<rparr>)"
| spin: "place_of s t = Spinning \<Longrightarrow> atomic_test_and_set (shared s) lock = (v, m) \<Longrightarrow> v = SPINLOCK_LOCKED \<Longrightarrow>
    thread_step lock t s (s\<lparr>shared := m\<rparr>)"
| enter: "place_of s t = Spinning \<Longrightarrow> atomic_test_and_set (shared s) lock = (v, m) \<Longrightarrow> v \<noteq> SPINLOCK_LOCKED \<Longrightarrow>
    thread_step lock t s (s\<lparr>shared := m, place_of := (place_of s)(t := Holding)\<rparr>)"
| release: "place_of s t = Holding \<Longrightarrow>
    thread_step lock t s (s\<lparr>shared := spinlock_unlock (shared s) lock, place_of := (place_of s)(t := Before)\<rparr>)"

inductive reaches :: "u32 \<Rightarrow> lock_state \<Rightarrow> lock_state \<Rightarrow> bool" for lock where
  here: "reaches lock s s"
| later: "reaches lock s u \<Longrightarrow> thread_step lock t u v \<Longrightarrow> reaches lock s v"

inductive_cases thread_stepE: "thread_step lock t s u"

definition nobody :: "memory \<Rightarrow> lock_state" where
  "nobody m = \<lparr>shared = m, place_of = \<lambda>_. Before\<rparr>"

text \<open>The lock's word is all that the threads write.\<close>

lemma thread_step_memory:
  "thread_step lock t s u \<Longrightarrow> \<not> in_range lock 4 x \<Longrightarrow> shared u x = shared s x"
  by (erule thread_stepE) (auto simp: atomic_test_and_set_def spinlock_unlock_def store32_other)

lemma reaches_memory:
  "reaches lock s u \<Longrightarrow> \<not> in_range lock 4 x \<Longrightarrow> shared u x = shared s x"
  by (induction rule: reaches.induct) (simp_all add: thread_step_memory)

section \<open>The lock never keeps a thread out\<close>

lemma spinlock_lock_step:
  "spinlock_lock m lock = (if load32 m lock = 0 then spinlock_lock (store32 m lock 1) lock else Some (store32 m lock 1))"
  by (subst spinlock_lock.simps) (simp add: Let_def atomic_test_and_set_def SPINLOCK_LOCKED_def SPINLOCK_UNLOCKED_def)

lemma store32_twice: "store32 (store32 m a v) a v = store32 m a v"
  by (simp add: store32_def fun_eq_iff)

text \<open>Every run of the loop that ends is counted.\<close>

lemma exchanges_returns: "exchanges lock k m m' \<Longrightarrow> spinlock_lock m lock = Some m'"
proof (induction rule: exchanges.induct)
  case (last m v m')
  then show ?case by (subst spinlock_lock.simps) simp
next
  case (again m v m' k m'')
  then show ?case by (subst spinlock_lock.simps) simp
qed

lemma exchanges_open: "load32 m lock \<noteq> 0 \<Longrightarrow> exchanges lock k m m' \<longleftrightarrow> k = 1 \<and> m' = store32 m lock 1"
  by (subst exchanges.simps) (auto simp: atomic_test_and_set_def SPINLOCK_LOCKED_def SPINLOCK_UNLOCKED_def)

lemma exchanges_closed:
  assumes "load32 m lock = 0"
  shows "exchanges lock k m m' \<longleftrightarrow> k = 2 \<and> m' = store32 m lock 1"
proof -
  have "load32 (store32 m lock 1) lock \<noteq> 0" by (simp add: load32_store32_same)
  from exchanges_open [OF this] show ?thesis
    using assms
    by (subst exchanges.simps) (auto simp: atomic_test_and_set_def SPINLOCK_LOCKED_def SPINLOCK_UNLOCKED_def store32_twice)
qed

text \<open>
  Property C33. Whatever the lock holds, \<open>spinlock_lock\<close> returns and leaves 1 in it: after one exchange when the lock
  holds anything but 0, after two when it holds 0. So a lock that has been unlocked takes two, and one that has
  been locked and not unlocked takes one and keeps nobody waiting.
\<close>

theorem spinlock_lock_never_waits:
  "spinlock_lock m lock = Some (store32 m lock 1)
   \<and> {(k, m'). exchanges lock k m m'} = {(if load32 m lock = 0 then 2 else 1, store32 m lock 1)}
   \<and> {(k, m'). exchanges lock k (spinlock_unlock m lock) m'} = {(2, store32 m lock 1)}
   \<and> {(k, m'). exchanges lock k (store32 m lock 1) m'} = {(1, store32 m lock 1)}"
proof -
  have any: "{(k, m'). exchanges lock k m m'} = {(if load32 m lock = 0 then 2 else 1, store32 m lock 1)}" for m
    using exchanges_open [of m lock] exchanges_closed [of m lock] by (cases "load32 m lock = 0") auto
  then have "exchanges lock (if load32 m lock = 0 then 2 else 1) m (store32 m lock 1)" by blast
  then have "spinlock_lock m lock = Some (store32 m lock 1)" by (rule exchanges_returns)
  moreover have "store32 (store32 m lock 0) lock 1 = store32 m lock 1" by (simp add: store32_def fun_eq_iff)
  ultimately show ?thesis using any by (simp add: spinlock_unlock_def load32_store32_same store32_twice)
qed

lemma reaches_trans: "reaches lock s u \<Longrightarrow> reaches lock u v \<Longrightarrow> reaches lock s v"
  by (rotate_tac, induction rule: reaches.induct) (auto intro: reaches.intros)

lemma thread_gets_in:
  assumes "place_of s t = Before"
  shows "\<exists>m. reaches lock s \<lparr>shared = m, place_of = (place_of s)(t := Holding)\<rparr>"
proof -
  let ?s = "s\<lparr>place_of := (place_of s)(t := Spinning)\<rparr>"
  let ?m = "store32 (shared s) lock 1"
  have called: "reaches lock s ?s" by (rule later [OF here call]) (rule assms)
  have second: "thread_step lock t (?s\<lparr>shared := ?m\<rparr>) (?s\<lparr>shared := ?m, place_of := (place_of ?s)(t := Holding)\<rparr>)"
  proof -
    have "thread_step lock t (?s\<lparr>shared := ?m\<rparr>) ((?s\<lparr>shared := ?m\<rparr>)\<lparr>shared := ?m, place_of := (place_of (?s\<lparr>shared := ?m\<rparr>))(t := Holding)\<rparr>)"
      by (rule enter [where v = 1])
        (simp_all add: atomic_test_and_set_def SPINLOCK_LOCKED_def SPINLOCK_UNLOCKED_def load32_store32_same store32_twice)
    then show ?thesis by simp
  qed
  have "reaches lock s (?s\<lparr>shared := ?m, place_of := (place_of ?s)(t := Holding)\<rparr>)"
  proof (cases "load32 (shared s) lock = 0")
    case True
    have "thread_step lock t ?s (?s\<lparr>shared := ?m\<rparr>)"
      by (rule spin [where v = 0])
        (simp_all add: atomic_test_and_set_def SPINLOCK_LOCKED_def SPINLOCK_UNLOCKED_def True)
    from later [OF later [OF called this] second] show ?thesis .
  next
    case False
    have "thread_step lock t ?s (?s\<lparr>shared := ?m, place_of := (place_of ?s)(t := Holding)\<rparr>)"
      by (rule enter [where v = "load32 (shared s) lock"])
        (simp_all add: atomic_test_and_set_def SPINLOCK_LOCKED_def SPINLOCK_UNLOCKED_def False)
    from later [OF called this] show ?thesis .
  qed
  then show ?thesis by (cases s) (auto simp: fun_upd_def cong: if_cong)
qed

text \<open>
  Property C32. The lock excludes nobody: from the state in which no thread has locked it, whatever the
  lock holds, the threads can all come to hold it at the same time.
\<close>

theorem mutual_exclusion_fails:
  "\<exists>s. reaches lock (nobody m) s \<and> {t. place_of s t = Holding} = {..<n}
    \<and> (\<forall>x. in_range lock 4 x \<or> shared s x = m x)"
proof -
  have "\<exists>s. reaches lock (nobody m) s \<and> place_of s = (\<lambda>t. if t < n then Holding else Before)"
  proof (induction n)
    case 0
    show ?case by (rule exI [of _ "nobody m"]) (simp add: here, simp add: nobody_def)
  next
    case (Suc n)
    then obtain s where s: "reaches lock (nobody m) s" "place_of s = (\<lambda>t. if t < n then Holding else Before)" by blast
    then obtain m' where "reaches lock s \<lparr>shared = m', place_of = (place_of s)(n := Holding)\<rparr>"
      using thread_gets_in [of s n lock] by auto
    with s show ?case
      by (intro exI [of _ "\<lparr>shared = m', place_of = (place_of s)(n := Holding)\<rparr>"] conjI reaches_trans [OF s(1)])
        (auto simp: fun_eq_iff less_Suc_eq)
  qed
  then obtain s where "reaches lock (nobody m) s" "place_of s = (\<lambda>t. if t < n then Holding else Before)" by blast
  then show ?thesis
    using reaches_memory [of lock "nobody m" s] by (intro exI [of _ s]) (auto simp: nobody_def)
qed

end
