(* ===== verification/Fs.thy ===== *)
theory Fs
  imports Tasking
begin

text \<open>
  \<open>src/src/fs.c\<close>: the layer between the shell and a file system. A node is an \<open>fs_node_t\<close> of 184 bytes
  in memory: \<open>name\<close> at 0, \<open>mask\<close> at 128, \<open>uid\<close> at 132, \<open>gid\<close> at 136, \<open>flags\<close> at 140, \<open>inode\<close> at 144,
  \<open>length\<close> at 148, \<open>impl\<close> at 152, the addresses of the six operations \<open>read\<close>, \<open>write\<close>, \<open>open\<close>, \<open>close\<close>,
  \<open>readdir\<close>, \<open>finddir\<close> from 156 on, and \<open>ptr\<close> at 180. A \<open>dirent_t\<close> has \<open>name\<close> at 0 and \<open>ino\<close> at 128.

  A call through the pointer of a node goes to the code at the address the node holds. What is there
  is the argument \<open>driver\<close>: for each type of operation, the behaviour of the code at an address.
\<close>

section \<open>State and nodes\<close>

record fs_memory = task_memory +
  fs_root :: u32

type_synonym 'a fs = "'a fs_memory_scheme"

definition FS_FILE :: u32 where "FS_FILE = 0x01"
definition FS_DIRECTORY :: u32 where "FS_DIRECTORY = 0x02"

definition sizeof_node :: u32 where "sizeof_node = 184"

definition node_flags :: "'a kmem \<Rightarrow> u32 \<Rightarrow> u32" where "node_flags s x = peek s (off x 140)"
definition node_inode :: "'a kmem \<Rightarrow> u32 \<Rightarrow> u32" where "node_inode s x = peek s (off x 144)"
definition node_length :: "'a kmem \<Rightarrow> u32 \<Rightarrow> u32" where "node_length s x = peek s (off x 148)"
definition node_read :: "'a kmem \<Rightarrow> u32 \<Rightarrow> u32" where "node_read s x = peek s (off x 156)"
definition node_write :: "'a kmem \<Rightarrow> u32 \<Rightarrow> u32" where "node_write s x = peek s (off x 160)"
definition node_open :: "'a kmem \<Rightarrow> u32 \<Rightarrow> u32" where "node_open s x = peek s (off x 164)"
definition node_close :: "'a kmem \<Rightarrow> u32 \<Rightarrow> u32" where "node_close s x = peek s (off x 168)"
definition node_readdir :: "'a kmem \<Rightarrow> u32 \<Rightarrow> u32" where "node_readdir s x = peek s (off x 172)"
definition node_finddir :: "'a kmem \<Rightarrow> u32 \<Rightarrow> u32" where "node_finddir s x = peek s (off x 176)"

record 's driver =
  call_read :: "u32 \<Rightarrow> u32 \<Rightarrow> u32 \<Rightarrow> u32 \<Rightarrow> u32 \<Rightarrow> 's \<Rightarrow> fault + (u32 \<times> 's)"
  call_write :: "u32 \<Rightarrow> u32 \<Rightarrow> u32 \<Rightarrow> u32 \<Rightarrow> u32 \<Rightarrow> 's \<Rightarrow> fault + (u32 \<times> 's)"
  call_open :: "u32 \<Rightarrow> u32 \<Rightarrow> 's \<Rightarrow> fault + (u32 \<times> 's)"
  call_close :: "u32 \<Rightarrow> u32 \<Rightarrow> 's \<Rightarrow> fault + 's"
  call_readdir :: "u32 \<Rightarrow> u32 \<Rightarrow> u32 \<Rightarrow> 's \<Rightarrow> fault + (u32 \<times> 's)"
  call_finddir :: "u32 \<Rightarrow> u32 \<Rightarrow> u32 \<Rightarrow> 's \<Rightarrow> fault + (u32 \<times> 's)"

section \<open>The operations\<close>

definition read_fs :: "'a kmem driver \<Rightarrow> u32 \<Rightarrow> u32 \<Rightarrow> u32 \<Rightarrow> u32 \<Rightarrow> 'a kmem \<Rightarrow> fault + (u32 \<times> 'a kmem)" where
  "read_fs drv node offset sz buffer s =
     (if node_read s node \<noteq> 0 then call_read drv (node_read s node) node offset sz buffer s else Inr (0, s))"

definition write_fs :: "'a kmem driver \<Rightarrow> u32 \<Rightarrow> u32 \<Rightarrow> u32 \<Rightarrow> u32 \<Rightarrow> 'a kmem \<Rightarrow> fault + (u32 \<times> 'a kmem)" where
  "write_fs drv node offset sz buffer s =
     (if node_write s node \<noteq> 0 then call_write drv (node_write s node) node offset sz buffer s else Inr (0, s))"

text \<open>Without an \<open>open\<close> operation \<open>open_fs\<close> ends without a value; its two last arguments are not used.\<close>

definition open_fs :: "'a kmem driver \<Rightarrow> u32 \<Rightarrow> u32 \<Rightarrow> u8 \<Rightarrow> u8 \<Rightarrow> 'a kmem \<Rightarrow> fault + (u32 option \<times> 'a kmem)" where
  "open_fs drv node name rd wr s =
     (if node_open s node \<noteq> 0
      then ebind (call_open drv (node_open s node) name s) (\<lambda>(x, s). Inr (Some x, s))
      else Inr (None, s))"

definition close_fs :: "'a kmem driver \<Rightarrow> u32 \<Rightarrow> u32 \<Rightarrow> 'a kmem \<Rightarrow> fault + 'a kmem" where
  "close_fs drv node name s =
     (if node_close s node \<noteq> 0 then call_close drv (node_close s node) name s else Inr s)"

definition readdir_fs :: "'a kmem driver \<Rightarrow> u32 \<Rightarrow> u32 \<Rightarrow> 'a kmem \<Rightarrow> fault + (u32 \<times> 'a kmem)" where
  "readdir_fs drv node i s =
     (if node_flags s node AND 0x7 = FS_DIRECTORY \<and> node_readdir s node \<noteq> 0
      then call_readdir drv (node_readdir s node) node i s else Inr (0, s))"

definition finddir_fs :: "'a kmem driver \<Rightarrow> u32 \<Rightarrow> u32 \<Rightarrow> 'a kmem \<Rightarrow> fault + (u32 \<times> 'a kmem)" where
  "finddir_fs drv node name s =
     (if node_flags s node AND 0x7 = FS_DIRECTORY \<and> node_finddir s node \<noteq> 0
      then call_finddir drv (node_finddir s node) node name s else Inr (0, s))"

section \<open>Printing the root directory\<close>

text \<open>The string at an address: none when no NUL follows, and then \<open>printf\<close> does not end.\<close>

definition string_at :: "'a kmem \<Rightarrow> u32 \<Rightarrow> u8 list option" where
  "string_at s a = map_option (\<lambda>l. bytes_at (mem s) a (unat l)) (strlen (mem s) a)"

definition print_found :: "u32 \<Rightarrow> 'a kmem \<Rightarrow> fault + 'a kmem" where
  "print_found node s =
     ebind (or_hang (string_at s node)) (\<lambda>name.
       Inr (kprintf (''find file:%s'' @ [CHR 0x0A]) [AStr name] s))"

partial_function (option) print_all_from :: "('a fs) driver \<Rightarrow> u32 \<Rightarrow> 'a fs \<Rightarrow> (fault + 'a fs) option" where
  "print_all_from drv i s =
     (case readdir_fs drv (fs_root s) i s of
        Inl e \<Rightarrow> Some (Inl e)
      | Inr r \<Rightarrow>
          if fst r = 0 then Some (Inr (snd r))
          else (case print_found (fst r) (snd r) of
              Inl e \<Rightarrow> Some (Inl e)
            | Inr s \<Rightarrow> print_all_from drv (i + 1) s))"

definition print_all_file :: "('a fs) driver \<Rightarrow> 'a fs \<Rightarrow> fault + 'a fs" where
  "print_all_file drv s = (case print_all_from drv 0 s of None \<Rightarrow> Inl Hang | Some r \<Rightarrow> r)"

text \<open>The loop over \<open>j\<close> prints the bytes of \<open>buf\<close> one by one.\<close>

fun print_bytes :: "u32 \<Rightarrow> nat \<Rightarrow> nat \<Rightarrow> 'a kmem \<Rightarrow> 'a kmem" where
  "print_bytes buf j 0 s = s"
| "print_bytes buf j (Suc k) s =
     print_bytes buf (Suc j) k (kprintf ''%c'' [AInt (scast (load8 (mem s) (off buf j)))] s)"

text \<open>One entry: what is printed after its name. \<open>buf\<close> is the address of the local array.\<close>

definition print_content :: "('a fs) driver \<Rightarrow> u32 \<Rightarrow> u32 \<Rightarrow> 'a fs \<Rightarrow> fault + 'a fs" where
  "print_content drv buf node s =
     ebind (finddir_fs drv (fs_root s) node s) (\<lambda>(fsnode, s).
       if node_flags s fsnode AND 0x7 = FS_DIRECTORY then Inr (kprintf (''(directory)'' @ [CHR 0x0A]) [] s)
       else
         let s = kprintf (''contents:'' @ [CHR 0x22, CHR 0x0A]) [] s in
         ebind (read_fs drv fsnode 0 256 buf s) (\<lambda>(sz, s).
           let s = print_bytes buf 0 (unat sz) s
           in Inr (kprintf [CHR 0x22, CHR 0x0A] [] s)))"

partial_function (option) print_contents_from :: "('a fs) driver \<Rightarrow> u32 \<Rightarrow> u32 \<Rightarrow> 'a fs \<Rightarrow> (fault + 'a fs) option" where
  "print_contents_from drv buf i s =
     (case readdir_fs drv (fs_root s) i s of
        Inl e \<Rightarrow> Some (Inl e)
      | Inr r \<Rightarrow>
          if fst r = 0 then Some (Inr (snd r))
          else (case ebind (print_found (fst r) (snd r)) (print_content drv buf (fst r)) of
              Inl e \<Rightarrow> Some (Inl e)
            | Inr s \<Rightarrow> print_contents_from drv buf (i + 1) s))"

definition print_all_file_content :: "('a fs) driver \<Rightarrow> u32 \<Rightarrow> 'a fs \<Rightarrow> fault + 'a fs" where
  "print_all_file_content drv buf s = (case print_contents_from drv buf 0 s of None \<Rightarrow> Inl Hang | Some r \<Rightarrow> r)"

lemma string_at_cstr: "cstr (mem s) a xs \<Longrightarrow> length xs < 2 ^ 32 \<Longrightarrow> string_at s a = Some xs"
  using strlen_loop_cstr [of "mem s" a 0 xs]
  by (auto simp: string_at_def strlen_def unat_of_nat_small cstr_iff intro!: bytes_at_eqI)

text \<open>The lines printed for an entry.\<close>

definition found_line :: "u8 list \<Rightarrow> u8 list" where
  "found_line nm = ascii ''find file:'' @ nm @ [10]"

definition content_text :: "u8 list option \<Rightarrow> u8 list" where
  "content_text r = (case r of None \<Rightarrow> ascii ''(directory)'' @ [10]
     | Some bs \<Rightarrow> ascii ''contents:'' @ [34, 10] @ take 256 bs @ [34, 10])"

lemma ucast_scast_u8: "ucast (scast b :: u32) = b" for b :: u8
  by (rule bit_word_eqI) (simp add: bit_simps)

lemma print_bytes_result: "print_bytes buf j k s = s\<lparr>console := console s @ bytes_at (mem s) (off buf j) k\<rparr>"
proof (induction k arbitrary: j s)
  case (Suc k)
  have "kprintf ''%c'' [AInt (scast (load8 (mem s) (off buf j)))] s = s\<lparr>console := console s @ [mem s (off buf j)]\<rparr>"
    by (simp add: kprintf_def ascii_def ucast_scast_u8 load8_def)
  moreover have "off buf (Suc j) = off buf j + 1" by (simp add: off_def)
  ultimately show ?case by (simp add: Suc.IH)
qed simp

section \<open>What the layer relies on\<close>

text \<open>
  The contract of a mounted file system towards this layer. In a state that \<open>lists\<close> the files \<open>f\<close>,
  reading the entries of the root by their index gives the name of each once, in order, and then the
  null pointer; neither reading nor printing changes what is listed.
\<close>

locale directory =
  fixes drv :: "('a fs) driver" and lists :: "'a fs \<Rightarrow> 'f \<Rightarrow> bool" and names :: "'f \<Rightarrow> u8 list list"
  assumes entry: "lists s f \<Longrightarrow> i < length (names f) \<Longrightarrow>
      \<exists>d t. readdir_fs drv (fs_root s) (of_nat i) s = Inr (d, t) \<and> d \<noteq> 0 \<and> cstr (mem t) d (names f ! i)
        \<and> lists t f \<and> console t = console s"
    and no_entry: "lists s f \<Longrightarrow> readdir_fs drv (fs_root s) (of_nat (length (names f))) s = Inr (0, s)"
    and printed: "lists s f \<Longrightarrow> lists (s\<lparr>console := c\<rparr>) f"
    and short: "lists s f \<Longrightarrow> nm \<in> set (names f) \<Longrightarrow> length nm < 2 ^ 32"
begin

lemma print_found_name:
  assumes "lists t f" and "nm \<in> set (names f)" and "cstr (mem t) d nm"
  shows "print_found d t = Inr (t\<lparr>console := console t @ found_line nm\<rparr>)"
  using string_at_cstr [OF assms(3) short [OF assms(1,2)]]
  by (simp add: print_found_def kprintf_def ascii_def found_line_def)

text \<open>A loop over the entries that does \<open>body\<close> with each, and what it prints.\<close>

lemma entries_loop:
  assumes loop: "\<And>i s. loop i s = (case readdir_fs drv (fs_root s) i s of
        Inl e \<Rightarrow> Some (Inl e)
      | Inr r \<Rightarrow>
          if fst r = 0 then Some (Inr (snd r))
          else (case body (fst r) (snd r) of Inl e \<Rightarrow> Some (Inl e) | Inr s \<Rightarrow> loop (i + 1) s))"
    and body: "\<And>t d nm. lists t f \<Longrightarrow> nm \<in> set (names f) \<Longrightarrow> cstr (mem t) d nm \<Longrightarrow>
        \<exists>u. body d t = Inr u \<and> lists u f \<and> console u = console t @ shown nm"
  shows "lists s f \<Longrightarrow> i \<le> length (names f) \<Longrightarrow>
    \<exists>t. loop (of_nat i) s = Some (Inr t) \<and> lists t f
      \<and> console t = console s @ concat (List.map shown (drop i (names f)))"
proof (induction "length (names f) - i" arbitrary: i s)
  case 0
  then have i: "i = length (names f)" by simp
  show ?case
    using no_entry [OF 0(2)] 0(2) by (subst loop) (simp add: i)
next
  case (Suc k)
  then have i: "i < length (names f)" by simp
  obtain d t where d: "readdir_fs drv (fs_root s) (of_nat i) s = Inr (d, t)" "d \<noteq> 0"
    "cstr (mem t) d (names f ! i)" "lists t f" "console t = console s"
    using entry [OF Suc(3) i] by blast
  obtain u where u: "body d t = Inr u" "lists u f" "console u = console t @ shown (names f ! i)"
    using body [OF d(4) nth_mem [OF i] d(3)] by blast
  have "k = length (names f) - Suc i" "Suc i \<le> length (names f)" using Suc(2) i by simp_all
  from Suc(1) [OF this(1) u(2) this(2)]
  obtain v where v: "loop (of_nat (Suc i)) u = Some (Inr v)" "lists v f"
    "console v = console u @ concat (List.map shown (drop (Suc i) (names f)))" by blast
  have "loop (of_nat i) s = loop (of_nat (Suc i)) u"
    using d(1,2) u(1) by (subst loop) (simp add: add.commute)
  then show ?case
    using v u(3) d(5) i by (intro exI [of _ v]) (simp add: Cons_nth_drop_Suc [symmetric])
qed

lemma print_all_file_lists:
  assumes "lists s f"
  shows "\<exists>t. print_all_file drv s = Inr t \<and> lists t f
    \<and> console t = console s @ concat (List.map found_line (names f))"
proof -
  have "\<exists>u. print_found d t = Inr u \<and> lists u f \<and> console u = console t @ found_line nm"
    if "lists t f" "nm \<in> set (names f)" "cstr (mem t) d nm" for t d nm
    using print_found_name [OF that] printed [OF that(1)] by simp
  from entries_loop [where loop = "print_all_from drv" and body = print_found and shown = found_line and i = "0",
      OF print_all_from.simps this assms]
  show ?thesis by (auto simp: print_all_file_def)
qed

end

text \<open>
  A directory that can also be searched and read: what \<open>content\<close> gives for a name is nothing for a
  directory and otherwise the bytes of the file, and reading 256 bytes from the start stores the
  first of them, at most 256, at \<open>buf\<close>.
\<close>

locale readable_directory = directory drv lists names
  for drv :: "('a fs) driver" and lists :: "'a fs \<Rightarrow> 'f \<Rightarrow> bool" and names :: "'f \<Rightarrow> u8 list list" +
  fixes buf :: u32 and content :: "'f \<Rightarrow> u8 list \<Rightarrow> u8 list option"
  assumes node: "lists s f \<Longrightarrow> nm \<in> set (names f) \<Longrightarrow> cstr (mem s) d nm \<Longrightarrow>
      \<exists>x. finddir_fs drv (fs_root s) d s = Inr (x, s)
        \<and> (node_flags s x AND 0x7 = FS_DIRECTORY \<longleftrightarrow> content f nm = None)
        \<and> (\<forall>c bs. content f nm = Some bs \<longrightarrow> (\<exists>t. read_fs drv x 0 256 buf (s\<lparr>console := c\<rparr>) = Inr (of_nat (length (take 256 bs)), t)
             \<and> bytes_at (mem t) buf (length (take 256 bs)) = take 256 bs \<and> lists t f \<and> console t = c))"
begin

lemma print_content_text:
  assumes "lists s f" and "nm \<in> set (names f)" and "cstr (mem s) d nm"
  shows "\<exists>u. print_content drv buf d s = Inr u \<and> lists u f \<and> console u = console s @ content_text (content f nm)"
proof -
  obtain x where x: "finddir_fs drv (fs_root s) d s = Inr (x, s)"
    "node_flags s x AND 0x7 = FS_DIRECTORY \<longleftrightarrow> content f nm = None"
    and rd: "\<And>c bs. content f nm = Some bs \<Longrightarrow> \<exists>t. read_fs drv x 0 256 buf (s\<lparr>console := c\<rparr>) = Inr (of_nat (length (take 256 bs)), t)
             \<and> bytes_at (mem t) buf (length (take 256 bs)) = take 256 bs \<and> lists t f \<and> console t = c"
    using node [OF assms] by metis
  show ?thesis
  proof (cases "content f nm")
    case None
    then show ?thesis
      using x printed [OF assms(1)] by (simp add: print_content_def kprintf_def ascii_def content_text_def)
  next
    case (Some bs)
    let ?c = "console s @ ascii ''contents:'' @ [34, 10]"
    obtain t where t: "read_fs drv x 0 256 buf (s\<lparr>console := ?c\<rparr>) = Inr (of_nat (length (take 256 bs)), t)"
      "bytes_at (mem t) buf (length (take 256 bs)) = take 256 bs" "lists t f" "console t = ?c"
      using rd [OF Some] by blast
    have k: "kprintf (''contents:'' @ [CHR 0x22, CHR 0x0A]) [] s = s\<lparr>console := ?c\<rparr>"
      by (simp add: kprintf_def ascii_def)
    have e: "kprintf [CHR 0x22, CHR 0x0A] [] u = u\<lparr>console := console u @ [34, 10]\<rparr>" for u :: "'a fs"
      by (simp add: kprintf_def ascii_def)
    have n: "unat (of_nat (length (take 256 bs)) :: u32) = length (take 256 bs)"
      by (rule unat_of_nat_small) simp
    have pb: "print_bytes buf 0 (length (take 256 bs)) t = t\<lparr>console := ?c @ take 256 bs\<rparr>"
      using t(2,4) by (simp only: print_bytes_result off_def) simp
    have "print_content drv buf d s = Inr (t\<lparr>console := ?c @ take 256 bs @ [34, 10]\<rparr>)"
      using x(2) Some unfolding print_content_def x(1) ebind_simps prod.case Let_def k t(1)
      by (simp add: n pb e del: length_take)
    then show ?thesis using printed [OF t(3)] Some by (simp add: content_text_def)
  qed
qed

lemma print_all_file_content_lists:
  assumes "lists s f"
  shows "\<exists>t. print_all_file_content drv buf s = Inr t \<and> lists t f
    \<and> console t = console s @ concat (List.map (\<lambda>nm. found_line nm @ content_text (content f nm)) (names f))"
proof -
  have "\<exists>u. ebind (print_found d t) (print_content drv buf d) = Inr u \<and> lists u f
      \<and> console u = console t @ found_line nm @ content_text (content f nm)"
    if a: "lists t f" "nm \<in> set (names f)" "cstr (mem t) d nm" for t d nm
    using print_content_text [OF printed [OF a(1)] a(2), where d = d and c1 = "console t @ found_line nm"]
      print_found_name [OF a] a(3) by auto
  from entries_loop [where loop = "print_contents_from drv buf" and i = "0"
        and body = "\<lambda>d t. ebind (print_found d t) (print_content drv buf d)"
        and shown = "\<lambda>nm. found_line nm @ content_text (content f nm)",
      OF print_contents_from.simps this assms]
  show ?thesis by (auto simp: print_all_file_content_def)
qed

end

end
