(* ===== verification/Initrd.thy ===== *)
theory Initrd
  imports Fs
begin

text \<open>
  \<open>src/src/initrd.c\<close>: the file system on the image the boot loader put in memory. The image starts with
  the number of files (\<open>initrd_header_t\<close>), then one \<open>initrd_file_header_t\<close> of 76 bytes for each: \<open>magic\<close>
  at 0, \<open>name\<close> at 1, \<open>offset\<close> at 68, \<open>length\<close> at 72. The nodes of the files are an array of \<open>fs_node_t\<close>.

  The argument \<open>img\<close> holds the addresses the linker gives to what the code names: its operations, the
  global \<open>dirent\<close>, and the two string literals.
\<close>

section \<open>State\<close>

record initrd_memory = fs_memory +
  initrd_header :: u32
  file_headers :: u32
  initrd_root :: u32
  initrd_dev :: u32
  root_nodes :: u32
  nroot_nodes :: u32

type_synonym 'a ird = "'a initrd_memory_scheme"

record image =
  at_read :: u32
  at_open :: u32
  at_close :: u32
  at_readdir :: u32
  at_finddir :: u32
  at_dirent :: u32
  lit_dev :: u32
  lit_initrd :: u32

definition nfiles :: "'a ird \<Rightarrow> u32" where "nfiles s = peek s (initrd_header s)"
definition set_nfiles :: "u32 \<Rightarrow> 'a ird \<Rightarrow> 'a ird" where "set_nfiles v s = poke (initrd_header s) v s"

definition file_header :: "'a ird \<Rightarrow> u32 \<Rightarrow> u32" where "file_header s i = file_headers s + i * 76"
definition header_offset :: "'a kmem \<Rightarrow> u32 \<Rightarrow> u32" where "header_offset s h = peek s (off h 68)"
definition header_length :: "'a kmem \<Rightarrow> u32 \<Rightarrow> u32" where "header_length s h = peek s (off h 72)"

definition root_node :: "'a ird \<Rightarrow> u32 \<Rightarrow> u32" where "root_node s i = root_nodes s + i * sizeof_node"

section \<open>Reading and writing\<close>

text \<open>How much of a request lies in the file; \<open>offset + size\<close> wraps at 32 bits.\<close>

definition cut_size :: "u32 \<Rightarrow> u32 \<Rightarrow> u32 \<Rightarrow> u32" where
  "cut_size len offset sz = (if len < offset + sz then len - offset else sz)"

definition initrd_read :: "u32 \<Rightarrow> u32 \<Rightarrow> u32 \<Rightarrow> u32 \<Rightarrow> 'a ird \<Rightarrow> u32 \<times> 'a ird" where
  "initrd_read node offset sz buffer s =
     (let h = file_header s (node_inode s node); len = header_length s h; start = header_offset s h in
      if len < offset then (0, s)
      else let sz = cut_size len offset sz
           in (sz, s\<lparr>mem := fst (memcpy (mem s) buffer (start + offset) sz)\<rparr>))"

text \<open>\<open>initrd_write\<close> returns 0 for an offset past the end, and otherwise ends without a value.\<close>

definition initrd_write :: "u32 \<Rightarrow> u32 \<Rightarrow> u32 \<Rightarrow> u32 \<Rightarrow> 'a ird \<Rightarrow> u32 option \<times> 'a ird" where
  "initrd_write node offset sz buffer s =
     (let h = file_header s (node_inode s node); len = header_length s h; start = header_offset s h in
      if len < offset then (Some 0, s)
      else let sz = cut_size len offset sz
           in (None, s\<lparr>mem := fst (memcpy (mem s) (start + offset) buffer sz)\<rparr>))"

section \<open>The directory\<close>

definition initrd_readdir :: "image \<Rightarrow> u32 \<Rightarrow> u32 \<Rightarrow> 'a ird \<Rightarrow> fault + (u32 \<times> 'a ird)" where
  "initrd_readdir img node i s =
     (if node = initrd_root s \<and> i = 0 then
        ebind (strcpy (mem s) (at_dirent img) (lit_dev img)) (\<lambda>(m, _).
          let s = s\<lparr>mem := m\<rparr>;
              s = poke8 (off (at_dirent img) 3) 0 s;
              s = poke (off (at_dirent img) 128) 0 s
          in Inr (at_dirent img, s))
      else if nroot_nodes s \<le> i - 1 then Inr (0, s)
      else
        let x = root_node s (i - 1) in
        ebind (strcpy (mem s) (at_dirent img) x) (\<lambda>(m, _).
          let s = s\<lparr>mem := m\<rparr> in
          ebind (or_hang (strlen (mem s) x)) (\<lambda>l.
            let s = poke8 (at_dirent img + l) 0 s;
                s = poke (off (at_dirent img) 128) (node_inode s x) s
            in Inr (at_dirent img, s))))"

text \<open>The loops over the nodes compare signed numbers.\<close>

definition node_count :: "'a ird \<Rightarrow> nat" where
  "node_count s = nat (sint (nroot_nodes s))"

text \<open>The first node from place \<open>i\<close> on that has the name, if there is one.\<close>

fun find_named :: "u32 \<Rightarrow> nat \<Rightarrow> nat \<Rightarrow> 'a ird \<Rightarrow> fault + (nat option)" where
  "find_named name i 0 s = Inr None"
| "find_named name i (Suc k) s =
     ebind (or_hang (strcmp (mem s) name (root_node s (of_nat i)))) (\<lambda>r.
       if r = 0 then Inr (Some i) else find_named name (Suc i) k s)"

definition initrd_finddir :: "u32 \<Rightarrow> u32 \<Rightarrow> image \<Rightarrow> 'a ird \<Rightarrow> fault + u32" where
  "initrd_finddir node name img s =
     (let search = ebind (find_named name 0 (node_count s) s) (\<lambda>r.
          Inr (case r of Some i \<Rightarrow> root_node s (of_nat i) | None \<Rightarrow> 0))
      in if node = initrd_root s then
           ebind (or_hang (strcmp (mem s) name (lit_dev img))) (\<lambda>r.
             if r = 0 then Inr (initrd_dev s) else search)
         else search)"

section \<open>Making and removing files\<close>

text \<open>What \<open>initrd_open\<close> and \<open>initialise_initrd\<close> store into the node of a file.\<close>

definition set_file_node :: "image \<Rightarrow> u32 \<Rightarrow> u32 \<Rightarrow> u32 \<Rightarrow> 'a kmem \<Rightarrow> 'a kmem" where
  "set_file_node img x len inode s =
     (let s = poke (off x 128) 0 s;
          s = poke (off x 132) 0 s;
          s = poke (off x 136) 0 s;
          s = poke (off x 148) len s;
          s = poke (off x 144) inode s;
          s = poke (off x 140) FS_FILE s;
          s = poke (off x 156) (at_read img) s;
          s = poke (off x 160) 0 s;
          s = poke (off x 172) 0 s;
          s = poke (off x 176) 0 s;
          s = poke (off x 164) 0 s;
          s = poke (off x 168) 0 s
      in poke (off x 152) 0 s)"

text \<open>The copy of the nodes is made, and \<open>root_nodes\<close> goes on pointing at the old array.\<close>

definition initrd_open :: "image \<Rightarrow> nat \<Rightarrow> u32 \<Rightarrow> 'a ird \<Rightarrow> fault + (u32 \<times> 'a ird)" where
  "initrd_open img n name s =
     ebind (malloc_s n (sizeof_node * (nfiles s + 1)) s) (\<lambda>(t_root, s).
       let s = s\<lparr>mem := fst (memcpy (mem s) t_root (root_nodes s) (sizeof_node * nfiles s))\<rparr>;
           s = set_nfiles (nfiles s + 1) s;
           s = s\<lparr>nroot_nodes := nfiles s\<rparr>;
           i = nroot_nodes s - 1;
           x = root_node s i
       in ebind (strcpy (mem s) x name) (\<lambda>(m, _).
            let s = s\<lparr>mem := m\<rparr>;
                s = set_file_node img x 0 i s
            in Inr (x, s)))"

text \<open>The struct assignment \<open>root_nodes[i] = root_nodes[i+1]\<close>.\<close>

definition copy_node :: "nat \<Rightarrow> 'a ird \<Rightarrow> 'a ird" where
  "copy_node i s =
     s\<lparr>mem := fst (memcpy (mem s) (root_node s (of_nat i)) (root_node s (of_nat (i + 1))) sizeof_node)\<rparr>"

definition initrd_close :: "nat \<Rightarrow> u32 \<Rightarrow> 'a ird \<Rightarrow> fault + 'a ird" where
  "initrd_close n name s =
     ebind (find_named name 0 (node_count s) s) (\<lambda>r.
       let i = (case r of Some i \<Rightarrow> i | None \<Rightarrow> node_count s);
           s = fold copy_node [i..<node_count s - 1] s
       in ebind (malloc_s n (sizeof_node * (nfiles s - 1)) s) (\<lambda>(t_root, s).
            let s = s\<lparr>mem := fst (memcpy (mem s) t_root (root_nodes s) (sizeof_node * (nfiles s - 1)))\<rparr>;
                s = set_nfiles (nfiles s - 1) s
            in Inr (s\<lparr>nroot_nodes := nfiles s\<rparr>)))"

section \<open>Mounting\<close>

definition set_dir_node :: "image \<Rightarrow> u32 \<Rightarrow> 'a kmem \<Rightarrow> 'a kmem" where
  "set_dir_node img x s =
     (let s = poke (off x 128) 0 s;
          s = poke (off x 132) 0 s;
          s = poke (off x 136) 0 s;
          s = poke (off x 144) 0 s;
          s = poke (off x 148) 0 s;
          s = poke (off x 140) FS_DIRECTORY s;
          s = poke (off x 156) 0 s;
          s = poke (off x 160) 0 s;
          s = poke (off x 164) (at_open img) s;
          s = poke (off x 168) (at_close img) s;
          s = poke (off x 172) (at_readdir img) s;
          s = poke (off x 176) (at_finddir img) s;
          s = poke (off x 180) 0 s
      in poke (off x 152) 0 s)"

text \<open>One round of the loop over the files of the image.\<close>

definition mount_file :: "image \<Rightarrow> u32 \<Rightarrow> nat \<Rightarrow> 'a ird \<Rightarrow> fault + 'a ird" where
  "mount_file img loc i s =
     (let h = file_header s (of_nat i); x = root_node s (of_nat i);
          s = poke (off h 68) (header_offset s h + loc) s
      in ebind (strcpy (mem s) x (off h 1)) (\<lambda>(m, _).
           let s = s\<lparr>mem := m\<rparr> in Inr (set_file_node img x (header_length s h) (of_nat i) s)))"

fun mount_files :: "image \<Rightarrow> u32 \<Rightarrow> nat list \<Rightarrow> 'a ird \<Rightarrow> fault + 'a ird" where
  "mount_files img loc [] s = Inr s"
| "mount_files img loc (i # is) s = ebind (mount_file img loc i s) (mount_files img loc is)"

definition initialise_initrd :: "image \<Rightarrow> nat \<Rightarrow> u32 \<Rightarrow> 'a ird \<Rightarrow> fault + (u32 \<times> 'a ird)" where
  "initialise_initrd img n loc s =
     (let s = s\<lparr>initrd_header := loc\<rparr>;
          s = s\<lparr>file_headers := loc + 4\<rparr>
      in ebind (malloc_s n sizeof_node s) (\<lambda>(x, s).
         let s = s\<lparr>initrd_root := x\<rparr> in
         ebind (strcpy (mem s) (initrd_root s) (lit_initrd img)) (\<lambda>(m, _).
         let s = set_dir_node img (initrd_root s) (s\<lparr>mem := m\<rparr>) in
         ebind (malloc_s n sizeof_node s) (\<lambda>(y, s).
         let s = s\<lparr>initrd_dev := y\<rparr> in
         ebind (strcpy (mem s) (initrd_dev s) (lit_dev img)) (\<lambda>(m, _).
         let s = set_dir_node img (initrd_dev s) (s\<lparr>mem := m\<rparr>) in
         ebind (malloc_s n (sizeof_node * nfiles s) s) (\<lambda>(z, s).
         let s = s\<lparr>root_nodes := z\<rparr>;
             s = s\<lparr>nroot_nodes := nfiles s\<rparr>
         in ebind (mount_files img loc [0..<node_count s] s) (\<lambda>s. Inr (initrd_root s, s))))))))"

section \<open>The operations behind the pointers\<close>

text \<open>
  The addresses the nodes hold lead to these operations; no node holds the address of \<open>initrd_write\<close>.
\<close>

definition initrd_driver :: "image \<Rightarrow> nat \<Rightarrow> ('a ird) driver" where
  "initrd_driver img n =
     \<lparr>call_read = (\<lambda>f node offset sz buffer s.
        if f = at_read img then Inr (initrd_read node offset sz buffer s) else Inl (Wild_call f)),
      call_write = (\<lambda>f node offset sz buffer s. Inl (Wild_call f)),
      call_open = (\<lambda>f name s. if f = at_open img then initrd_open img n name s else Inl (Wild_call f)),
      call_close = (\<lambda>f name s. if f = at_close img then initrd_close n name s else Inl (Wild_call f)),
      call_readdir = (\<lambda>f node i s. if f = at_readdir img then initrd_readdir img node i s else Inl (Wild_call f)),
      call_finddir = (\<lambda>f node name s.
        if f = at_finddir img then ebind (initrd_finddir node name img s) (\<lambda>x. Inr (x, s)) else Inl (Wild_call f))\<rparr>"

end
