(* ===== verification/Initrd_Correctness.thy ===== *)
theory Initrd_Correctness
  imports Initrd
begin

text \<open>
  What the file system of \<open>src/src/initrd.c\<close> does: reading a file, listing and searching the directory,
  as the contract of \<open>src/src/fs.c\<close> asks, and what becomes of the array of nodes when files are made and
  removed.
\<close>

section \<open>Reading\<close>

lemma cut_size_within:
  assumes "unat offset + unat sz < 2 ^ 32" and "offset \<le> len"
  shows "unat (cut_size len offset sz) = min (unat sz) (unat len - unat offset)"
proof -
  have "unat (offset + sz) = unat offset + unat sz" using assms(1) by (simp add: unat_word_ariths)
  moreover have "unat offset \<le> unat len" using assms(2) by (simp add: word_le_nat_alt)
  ultimately show ?thesis
    by (auto simp: cut_size_def word_less_nat_alt unat_sub [OF assms(2)] min_def)
qed

lemma cut_size_wrapped:
  assumes "2 ^ 32 \<le> unat offset + unat sz" and "offset \<le> len"
  shows "cut_size len offset sz = sz"
proof -
  have "unat (offset + sz) = unat offset + unat sz - 2 ^ 32"
    using assms(1) unat_u32_lt [of offset] unat_u32_lt [of sz] by (simp add: unat_word_ariths le_mod_geq)
  moreover have "unat offset \<le> unat len" using assms(2) by (simp add: word_le_nat_alt)
  ultimately have "\<not> len < offset + sz"
    using unat_u32_lt [of sz] by (simp add: word_less_nat_alt)
  then show ?thesis by (simp add: cut_size_def)
qed

lemma memcpy_result:
  assumes "\<And>i j. i < unat k \<Longrightarrow> j < unat k \<Longrightarrow> d + of_nat i \<noteq> a + of_nat j"
  shows "bytes_at (fst (memcpy m d a k)) d (unat k) = bytes_at m a (unat k)"
    and "\<not> in_range d (unat k) x \<Longrightarrow> fst (memcpy m d a k) x = m x"
  using assms unat_u32_lt [of k]
  by (auto simp: memcpy_def memcpy_loop_other nth_bytes_at memcpy_loop_in intro!: bytes_at_eqI)

text \<open>
  Property C23. \<open>initrd_read\<close> of a part of a file: nothing for an offset past the end; otherwise the bytes of
  the request that lie in the file, stored at the buffer, with their number as the result. But when
  offset and size add up to 2^32 or more the sum wraps, and the whole size is copied, whatever lies
  after the file.
\<close>

theorem initrd_read_result:
  fixes s :: "'a ird"
  assumes "h = file_header s (node_inode s node)" and "len = header_length s h" and "r = initrd_read node offset sz buffer s"
    and "\<And>i j. i < unat sz \<Longrightarrow> j < unat sz \<Longrightarrow> buffer + of_nat i \<noteq> header_offset s h + offset + of_nat j"
  shows "(len < offset \<longrightarrow> r = (0, s))
    \<and> (offset \<le> len \<longrightarrow>
        unat (fst r) = (if unat offset + unat sz < 2 ^ 32 then min (unat sz) (unat len - unat offset) else unat sz)
        \<and> bytes_at (mem (snd r)) buffer (unat (fst r)) = bytes_at (mem s) (header_offset s h + offset) (unat (fst r))
        \<and> (\<forall>x. \<not> in_range buffer (unat (fst r)) x \<longrightarrow> mem (snd r) x = mem s x))"
proof (intro conjI impI allI)
  show "r = (0, s)" if "len < offset"
    using assms(1-3) that by (simp add: initrd_read_def Let_def)
  assume le: "offset \<le> len"
  let ?k = "cut_size len offset sz"
  have r: "r = (?k, s\<lparr>mem := fst (memcpy (mem s) buffer (header_offset s h + offset) ?k)\<rparr>)"
    using assms(1-3) le by (simp add: initrd_read_def Let_def not_less [symmetric])
  show k: "unat (fst r) = (if unat offset + unat sz < 2 ^ 32 then min (unat sz) (unat len - unat offset) else unat sz)"
    using cut_size_within [OF _ le, of sz] cut_size_wrapped [OF _ le, of sz] by (simp add: r not_less)
  have kl: "unat ?k \<le> unat sz" using k by (simp add: r split: if_splits)
  have ap: "buffer + of_nat i \<noteq> header_offset s h + offset + of_nat j" if "i < unat ?k" "j < unat ?k" for i j
    using assms(4) kl that by simp
  show "bytes_at (mem (snd r)) buffer (unat (fst r)) = bytes_at (mem s) (header_offset s h + offset) (unat (fst r))"
    unfolding r fst_conv snd_conv using memcpy_result(1) [OF ap, where m = "mem s"] by simp
  fix x assume x: "\<not> in_range buffer (unat (fst r)) x"
  show "mem (snd r) x = mem s x"
    using memcpy_result(2) [OF ap, where m = "mem s" and x = x] x unfolding r fst_conv snd_conv by simp
qed

section \<open>A mounted image\<close>

text \<open>
  Ranges of addresses are pairs of a start and a number of bytes. \<open>area\<close> lists the ranges the file
  system reads: the literal, the two directories, and of each file the node, the header and the bytes.
\<close>

definition clear_of :: "u32 \<Rightarrow> nat \<Rightarrow> (u32 \<times> nat) list \<Rightarrow> bool" where
  "clear_of a k rs = list_all (\<lambda>(b, n). apart a k b n) rs"

definition same_on :: "(u32 \<times> nat) list \<Rightarrow> memory \<Rightarrow> memory \<Rightarrow> bool" where
  "same_on rs m m' \<longleftrightarrow> (\<forall>(b, n) \<in> set rs. \<forall>x. in_range b n x \<longrightarrow> m x = m' x)"

definition header_of :: "'a ird \<Rightarrow> u32 \<Rightarrow> u32" where
  "header_of s x = file_header s (node_inode s x)"

definition file_area :: "'a ird \<Rightarrow> u32 \<Rightarrow> nat \<Rightarrow> (u32 \<times> nat) list" where
  "file_area s x len = [(x, 184), (header_of s x, 76), (header_offset s (header_of s x), len)]"

definition area :: "image \<Rightarrow> 'a ird \<Rightarrow> (u8 list \<times> u8 list) list \<Rightarrow> (u32 \<times> nat) list" where
  "area img s files = (lit_dev img, 4) # (initrd_root s, 184) # (initrd_dev s, 184)
     # concat (List.map (\<lambda>i. file_area s (root_node s (of_nat i)) (length (snd (files ! i)))) [0..<length files])"

text \<open>The node \<open>x\<close> is the file with the name and the bytes.\<close>

definition is_file :: "image \<Rightarrow> 'a ird \<Rightarrow> u32 \<Rightarrow> u8 list \<times> u8 list \<Rightarrow> bool" where
  "is_file img s x f \<longleftrightarrow> cstr (mem s) x (fst f) \<and> fst f \<noteq> [] \<and> length (fst f) < 128 \<and> x \<noteq> 0
     \<and> node_flags s x = FS_FILE \<and> node_read s x = at_read img
     \<and> unat (header_length s (header_of s x)) = length (snd f)
     \<and> bytes_at (mem s) (header_offset s (header_of s x)) (length (snd f)) = snd f"

text \<open>
  The initrd is mounted with the given files, and neither \<open>dirent\<close> nor the ranges \<open>rs\<close>, which others
  write to, overlap what the file system reads.
\<close>

definition mounted :: "image \<Rightarrow> (u32 \<times> nat) list \<Rightarrow> 'a ird \<Rightarrow> (u8 list \<times> u8 list) list \<Rightarrow> bool" where
  "mounted img rs s files \<longleftrightarrow> fs_root s = initrd_root s \<and> node_flags s (initrd_root s) = FS_DIRECTORY
     \<and> node_readdir s (initrd_root s) = at_readdir img \<and> node_finddir s (initrd_root s) = at_finddir img
     \<and> node_flags s (initrd_dev s) = FS_DIRECTORY
     \<and> at_dirent img \<noteq> 0 \<and> at_readdir img \<noteq> 0 \<and> at_finddir img \<noteq> 0 \<and> at_read img \<noteq> 0 \<and> lit_dev img \<noteq> 0
     \<and> cstr (mem s) (lit_dev img) (ascii ''dev'')
     \<and> length files < 2 ^ 20 \<and> nroot_nodes s = of_nat (length files)
     \<and> list_all (\<lambda>i. is_file img s (root_node s (of_nat i)) (files ! i)) [0..<length files]
     \<and> list_all (\<lambda>(a, k). clear_of a k (area img s files)) ((at_dirent img, 132) # rs)"

lemma same_on_clear:
  "clear_of a k rs \<Longrightarrow> (\<And>x. \<not> in_range a k x \<Longrightarrow> m x = m' x) \<Longrightarrow> same_on rs m m'"
  by (fastforce simp: clear_of_def same_on_def list_all_iff dest: apart_in_range)

lemma same_on_range: "same_on rs m m' \<Longrightarrow> (b, n) \<in> set rs \<Longrightarrow> in_range b n x \<Longrightarrow> m x = m' x"
  by (auto simp: same_on_def)

lemma same_on_peek:
  assumes "same_on rs (mem t) (mem s)" and "(b, n) \<in> set rs" and "i + 4 \<le> n" and "n \<le> 2 ^ 32"
  shows "peek t (off b i) = peek s (off b i)"
  unfolding peek_def
  by (rule load32_cong) (use assms in_range_off [of b i 4 _ n] same_on_range in auto)

lemma same_on_byte:
  assumes "same_on rs m m'" and "(b, n) \<in> set rs" and "i < n" and "n \<le> 2 ^ 32"
  shows "m (b + of_nat i) = m' (b + of_nat i)"
  by (rule same_on_range [OF assms(1,2) in_range_offset [OF assms(3,4)]])

lemma same_on_cstr:
  assumes "same_on rs m m'" and "(b, n) \<in> set rs" and "length xs < n" and "n \<le> 2 ^ 32"
  shows "cstr m b xs = cstr m' b xs"
  by (rule cstr_cong) (use assms same_on_byte in simp)

lemma same_on_bytes:
  assumes "same_on rs m m'" and "(b, n) \<in> set rs" and "n \<le> 2 ^ 32"
  shows "bytes_at m b n = bytes_at m' b n"
  by (rule bytes_at_eqI) (use assms same_on_byte in \<open>auto simp: nth_bytes_at\<close>)

lemma in_area:
  "i < length files \<Longrightarrow> r \<in> set (file_area s (root_node s (of_nat i)) (length (snd (files ! i)))) \<Longrightarrow> r \<in> set (area img s files)"
  by (auto simp: area_def)

text \<open>A state in which the globals and the memory of the area are the same has the same files mounted.\<close>

definition same_files :: "image \<Rightarrow> (u8 list \<times> u8 list) list \<Rightarrow> 'a ird \<Rightarrow> 'a ird \<Rightarrow> bool" where
  "same_files img files s t \<longleftrightarrow> same_on (area img s files) (mem t) (mem s) \<and> fs_root t = fs_root s
     \<and> file_headers t = file_headers s \<and> initrd_root t = initrd_root s \<and> initrd_dev t = initrd_dev s
     \<and> root_nodes t = root_nodes s \<and> nroot_nodes t = nroot_nodes s"

lemma is_file_same:
  assumes "same_files img files s t" and "i < length files" and "is_file img s (root_node s (of_nat i)) (files ! i)"
  shows "is_file img t (root_node t (of_nat i)) (files ! i)"
    and "file_area t (root_node t (of_nat i)) n = file_area s (root_node s (of_nat i)) n"
proof -
  let ?x = "root_node s (of_nat i)"
  have x: "root_node t (of_nat i) = ?x" using assms(1) by (simp add: root_node_def same_files_def)
  have so: "same_on (area img s files) (mem t) (mem s)" using assms(1) by (simp add: same_files_def)
  note ar = in_area [OF assms(2), of _ s img]
  have nd: "peek t (off ?x j) = peek s (off ?x j)" if "j + 4 \<le> 184" for j
    by (rule same_on_peek [OF so ar that]) (simp_all add: file_area_def)
  have h: "header_of t ?x = header_of s ?x"
    using assms(1) nd [of 144] by (simp add: header_of_def file_header_def node_inode_def same_files_def)
  have hd: "peek t (off (header_of s ?x) j) = peek s (off (header_of s ?x) j)" if "j + 4 \<le> 76" for j
    by (rule same_on_peek [OF so ar that]) (simp_all add: file_area_def)
  have ho: "header_offset t (header_of t ?x) = header_offset s (header_of s ?x)"
    "header_length t (header_of t ?x) = header_length s (header_of s ?x)"
    using hd [of 68] hd [of 72] by (simp_all add: h header_offset_def header_length_def)
  then show "file_area t (root_node t (of_nat i)) n = file_area s (root_node s (of_nat i)) n"
    by (simp add: file_area_def x h)
  have len: "length (snd (files ! i)) \<le> 2 ^ 32" "length (fst (files ! i)) < 184"
    using assms(3) unat_u32_lt [of "header_length s (header_of s ?x)"] by (simp_all add: is_file_def)
  have bs: "bytes_at (mem t) (header_offset s (header_of s ?x)) (length (snd (files ! i)))
      = bytes_at (mem s) (header_offset s (header_of s ?x)) (length (snd (files ! i)))"
    by (rule same_on_bytes [OF so ar len(1)]) (simp add: file_area_def)
  have nm: "cstr (mem t) ?x (fst (files ! i)) = cstr (mem s) ?x (fst (files ! i))"
    by (rule same_on_cstr [OF so ar len(2)]) (simp_all add: file_area_def)
  show "is_file img t (root_node t (of_nat i)) (files ! i)"
    using assms(3) nd [of 140] nd [of 156] bs nm ho by (simp add: is_file_def x node_flags_def node_read_def)
qed

lemma area_same:
  assumes "same_files img files s t" and "\<And>i. i < length files \<Longrightarrow> is_file img s (root_node s (of_nat i)) (files ! i)"
  shows "area img t files = area img s files"
proof -
  have "file_area t (root_node t (of_nat i)) n = file_area s (root_node s (of_nat i)) n" if "i < length files" for i n
    using is_file_same(2) [OF assms(1) that assms(2) [OF that]] .
  then have "List.map (\<lambda>i. file_area t (root_node t (of_nat i)) (length (snd (files ! i)))) [0..<length files]
      = List.map (\<lambda>i. file_area s (root_node s (of_nat i)) (length (snd (files ! i)))) [0..<length files]" by simp
  then show ?thesis using assms(1) unfolding area_def same_files_def by (simp only:)
qed

lemma mounted_same:
  assumes "mounted img rs s files" and "same_files img files s t"
  shows "mounted img rs t files"
proof -
  have f: "is_file img s (root_node s (of_nat i)) (files ! i)" if "i < length files" for i
    using assms(1) that by (simp add: mounted_def list_all_iff)
  have so: "same_on (area img s files) (mem t) (mem s)" using assms(2) by (simp add: same_files_def)
  have g: "fs_root t = fs_root s" "initrd_root t = initrd_root s" "initrd_dev t = initrd_dev s" "nroot_nodes t = nroot_nodes s"
    using assms(2) by (simp_all add: same_files_def)
  have rt: "peek t (off (initrd_root s) j) = peek s (off (initrd_root s) j)" if "j + 4 \<le> 184" for j
    by (rule same_on_peek [OF so _ that]) (simp_all add: area_def)
  have dv: "peek t (off (initrd_dev s) j) = peek s (off (initrd_dev s) j)" if "j + 4 \<le> 184" for j
    by (rule same_on_peek [OF so _ that]) (simp_all add: area_def)
  have lit: "cstr (mem t) (lit_dev img) (ascii ''dev'') = cstr (mem s) (lit_dev img) (ascii ''dev'')"
    by (rule same_on_cstr [OF so, where n = 4]) (simp_all add: area_def ascii_def)
  have "list_all (\<lambda>i. is_file img t (root_node t (of_nat i)) (files ! i)) [0..<length files]"
    using is_file_same(1) [OF assms(2) _ f] by (simp add: list_all_iff)
  then show ?thesis
    using assms(1) g rt dv lit area_same [OF assms(2) f]
    by (simp add: mounted_def node_flags_def node_readdir_def node_finddir_def)
qed

section \<open>Listing the directory\<close>

text \<open>The name of an entry, copied to a \<open>dirent\<close> that does not overlap it, terminated, and its number.\<close>

lemma copy_name:
  assumes "cstr m x nm" and "nm \<noteq> []" and "length nm < 128" and "x \<noteq> 0" and "d \<noteq> 0"
    and "apart d 132 x n" and "length nm < n" and "n \<le> 2 ^ 32"
  defines "m' \<equiv> memcpy_loop m d x (length nm)"
  shows "strcpy m d x = Inr (m', d + of_nat (length nm))"
    and "cstr m' x nm"
    and "cstr (store32 (store8 m' (off d (length nm)) 0) (off d 128) v) d nm"
    and "\<not> in_range d 132 y \<Longrightarrow> store32 (store8 m' (off d (length nm)) 0) (off d 128) v y = m y"
    and "\<not> in_range d 132 y \<Longrightarrow> m' y = m y"
proof -
  have ne: "d + of_nat i \<noteq> x + of_nat j" if "i < length nm" "j \<le> length nm" for i j
    using apart_offsets [OF assms(6), of i j] that assms(3,7,8) by simp
  show "strcpy m d x = Inr (m', d + of_nat (length nm))"
    unfolding m'_def by (rule strcpy_cstr [OF assms(1,2,5,4) ne])
  show out: "m' y = m y" if "\<not> in_range d 132 y" for y
    unfolding m'_def by (rule memcpy_loop_other) (use that assms(3) in_range_mono in auto)
  show "cstr m' x nm"
  proof -
    have "m' (x + of_nat j) = m (x + of_nat j)" if "j \<le> length nm" for j
      using out apart_in_range [OF assms(6) in_range_offset [of j n x]] that assms(7,8) by simp
    then show ?thesis using assms(1) cstr_cong [of nm m' x m] by simp
  qed
  show "store32 (store8 m' (off d (length nm)) 0) (off d 128) v y = m y" if "\<not> in_range d 132 y"
    using that assms(3) out by (simp add: off_simps)
  have small: "unat (of_nat i :: u32) = i" if "i \<le> length nm" for i
    using that assms(3) by (simp add: unat_of_nat_small)
  have byte: "store32 (store8 m' (off d (length nm)) 0) (off d 128) v (d + of_nat i)
      = (if i = length nm then 0 else m' (d + of_nat i))" if "i \<le> length nm" for i
  proof -
    have "\<not> in_range (off d 128) 4 (d + of_nat i)"
      using apart_in_range [OF off_apart [of i 1 128 4 d, THEN apart_sym [THEN iffD1]], of "d + of_nat i"] that assms(3)
      by (simp add: in_range_1 off_def)
    moreover have "d + of_nat i = off d (length nm) \<longleftrightarrow> i = length nm"
      using small [OF that] small [of "length nm"] by (metis add_left_cancel off_def order_refl)
    ultimately show ?thesis by (simp add: store32_other store8_def)
  qed
  show "cstr (store32 (store8 m' (off d (length nm)) 0) (off d 128) v) d nm"
    unfolding cstr_iff
  proof (intro conjI allI impI)
    fix i assume i: "i < length nm"
    have "m' (d + of_nat i) = m (x + of_nat i)"
      unfolding m'_def by (rule memcpy_loop_in) (use ne i assms(3) in auto)
    then show "store32 (store8 m' (off d (length nm)) 0) (off d 128) v (d + of_nat i) = nm ! i"
      using i byte [of i] assms(1) by (simp add: cstr_iff)
    show "nm ! i \<noteq> 0" using i assms(1) by (simp add: cstr_iff)
  qed (simp add: byte)
qed

lemma mounted_file:
  assumes "mounted img rs s files" and "i < length files"
  shows "is_file img s (root_node s (of_nat i)) (files ! i)"
    and "apart (at_dirent img) 132 (root_node s (of_nat i)) 184"
    and "(buf, k) \<in> set rs \<Longrightarrow> apart buf k (header_offset s (header_of s (root_node s (of_nat i)))) (length (snd (files ! i)))"
proof -
  show "is_file img s (root_node s (of_nat i)) (files ! i)"
    using assms by (simp add: mounted_def list_all_iff)
  have "(root_node s (of_nat i), 184) \<in> set (area img s files)"
    "(header_offset s (header_of s (root_node s (of_nat i))), length (snd (files ! i))) \<in> set (area img s files)"
    by (rule in_area [OF assms(2)], simp add: file_area_def)+
  then show "apart (at_dirent img) 132 (root_node s (of_nat i)) 184"
    "(buf, k) \<in> set rs \<Longrightarrow> apart buf k (header_offset s (header_of s (root_node s (of_nat i)))) (length (snd (files ! i)))"
    using assms(1) by (fastforce simp: mounted_def clear_of_def list_all_iff)+
qed

text \<open>Writing only to \<open>dirent\<close> or to one of the ranges, and to the console, keeps the files.\<close>

lemma mounted_scratch:
  assumes "mounted img rs s files" and "(a, k) \<in> set ((at_dirent img, 132) # rs)"
    and "\<And>x. \<not> in_range a k x \<Longrightarrow> m' x = mem s x"
  shows "mounted img rs (s\<lparr>mem := m', console := c\<rparr>) files"
proof (rule mounted_same [OF assms(1)])
  have "clear_of a k (area img s files)"
    using assms(1,2) by (auto simp: mounted_def list_all_iff)
  then have "same_on (area img s files) m' (mem s)" using assms(3) by (rule same_on_clear)
  then show "same_files img files s (s\<lparr>mem := m', console := c\<rparr>)"
    by (simp add: same_files_def)
qed

definition entry_names :: "(u8 list \<times> u8 list) list \<Rightarrow> u8 list list" where
  "entry_names files = ascii ''dev'' # List.map fst files"

lemma readdir_entry:
  assumes "mounted img rs s files" and "i < length (entry_names files)"
  shows "\<exists>t. readdir_fs (initrd_driver img n) (fs_root s) (of_nat i) s = Inr (at_dirent img, t)
    \<and> cstr (mem t) (at_dirent img) (entry_names files ! i) \<and> mounted img rs t files \<and> console t = console s"
proof -
  have g: "fs_root s = initrd_root s" "node_flags s (initrd_root s) = FS_DIRECTORY" "node_readdir s (initrd_root s) = at_readdir img"
    "at_dirent img \<noteq> 0" "at_readdir img \<noteq> 0" "lit_dev img \<noteq> 0" "cstr (mem s) (lit_dev img) (ascii ''dev'')"
    "nroot_nodes s = of_nat (length files)" "length files < 2 ^ 20" "apart (at_dirent img) 132 (lit_dev img) 4"
    using assms(1) by (simp_all add: mounted_def clear_of_def area_def)
  have disp: "readdir_fs (initrd_driver img n) (fs_root s) (of_nat i) s = initrd_readdir img (initrd_root s) (of_nat i) s"
    using g by (simp add: readdir_fs_def initrd_driver_def FS_DIRECTORY_def)
  show ?thesis
  proof (cases i)
    case 0
    have len: "ascii ''dev'' \<noteq> []" "length (ascii ''dev'') = 3" by (simp_all add: ascii_def)
    note cp = copy_name [OF g(7) len(1) _ g(6,4,10), unfolded len(2), simplified]
    let ?m = "store32 (store8 (memcpy_loop (mem s) (at_dirent img) (lit_dev img) 3) (off (at_dirent img) 3) 0) (off (at_dirent img) 128) 0"
    let ?t = "s\<lparr>mem := ?m\<rparr>"
    have "initrd_readdir img (initrd_root s) 0 s = Inr (at_dirent img, ?t)"
      by (simp add: initrd_readdir_def cp(1) poke_def poke8_def)
    moreover have "mounted img rs (s\<lparr>mem := ?m, console := console s\<rparr>) files"
      by (rule mounted_scratch [OF assms(1), where a = "at_dirent img"]) (use cp(4) [where v = 0] in auto)
    ultimately show ?thesis using disp 0 cp(3) [where v = 0] by (intro exI [of _ ?t]) (simp add: entry_names_def)
  next
    case (Suc j)
    then have j: "j < length files" using assms(2) by (simp add: entry_names_def)
    let ?x = "root_node s (of_nat j)" and ?nm = "fst (files ! j)"
    have f: "cstr (mem s) ?x ?nm" "?nm \<noteq> []" "length ?nm < 128" "?x \<noteq> 0"
      using mounted_file(1) [OF assms(1) j] by (simp_all add: is_file_def)
    have l184: "length ?nm < 184" "(184 :: nat) \<le> 2 ^ 32" using f(3) by simp_all
    let ?i = "node_inode (s\<lparr>mem := memcpy_loop (mem s) (at_dirent img) ?x (length ?nm)\<rparr>) ?x"
    note cp = copy_name [OF f(1-4) g(4) mounted_file(2) [OF assms(1) j] l184]
    let ?m = "memcpy_loop (mem s) (at_dirent img) ?x (length ?nm)"
    have sl: "strlen ?m ?x = Some (of_nat (length ?nm))"
      using strlen_loop_cstr [of ?m ?x 0 ?nm] cp(2) by (simp add: strlen_def)
    have ij: "(of_nat i :: u32) - 1 = of_nat j" "(of_nat i :: u32) \<noteq> 0"
    proof -
      show "(of_nat i :: u32) - 1 = of_nat j" by (simp add: Suc)
      have "unat (of_nat i :: u32) = i" using g(9) j Suc by (intro unat_of_nat_small) simp
      then show "(of_nat i :: u32) \<noteq> 0" using Suc by auto
    qed
    have lt: "\<not> (of_nat (length files) :: u32) \<le> of_nat j"
      using g(9) j by (simp add: word_le_nat_alt unat_of_nat_small)
    let ?s = "s\<lparr>mem := ?m\<rparr>"
    let ?u = "poke8 (off (at_dirent img) (length ?nm)) 0 ?s"
    let ?v = "node_inode ?u ?x"
    let ?t = "poke (off (at_dirent img) 128) ?v ?u"
    have rd: "initrd_readdir img (initrd_root s) (of_nat i) s = Inr (at_dirent img, ?t)"
      unfolding initrd_readdir_def ij(1) g(8) using ij(2) lt by (simp add: cp(1) sl Let_def or_hang_def off_def)
    have mt: "mem ?t = store32 (store8 ?m (off (at_dirent img) (length ?nm)) 0) (off (at_dirent img) 128) ?v" by simp
    have "mounted img rs (s\<lparr>mem := mem ?t, console := console s\<rparr>) files"
      unfolding mt by (rule mounted_scratch [OF assms(1), where a = "at_dirent img"]) (use cp(4) [where v = ?v] in auto)
    moreover have "s\<lparr>mem := mem ?t, console := console s\<rparr> = ?t" by (simp add: poke_def poke8_def)
    ultimately have "mounted img rs ?t files" by simp
    then show ?thesis
      using disp rd cp(3) [where v = ?v] j by (intro exI [of _ ?t]) (simp add: Suc entry_names_def)
  qed
qed

lemma readdir_no_entry:
  assumes "mounted img rs s files"
  shows "readdir_fs (initrd_driver img n) (fs_root s) (of_nat (length (entry_names files))) s = Inr (0, s)"
proof -
  have g: "fs_root s = initrd_root s" "node_flags s (initrd_root s) = FS_DIRECTORY" "node_readdir s (initrd_root s) = at_readdir img"
    "at_readdir img \<noteq> 0" "nroot_nodes s = of_nat (length files)" "length files < 2 ^ 20"
    using assms by (simp_all add: mounted_def)
  have "unat (of_nat (Suc (length files)) :: u32) = Suc (length files)" using g(6) by (intro unat_of_nat_small) simp
  then have "(of_nat (Suc (length files)) :: u32) \<noteq> 0" by auto
  then show ?thesis
    using g by (simp add: readdir_fs_def initrd_driver_def FS_DIRECTORY_def initrd_readdir_def entry_names_def)
qed

section \<open>Searching the directory\<close>

lemma strcmp_equal:
  assumes "cstr m a xs" and "cstr m b ys"
  shows "\<exists>r. strcmp m a b = Some r \<and> (r = 0 \<longleftrightarrow> xs = ys)"
  using strcmp_correct_aux [OF assms] by (auto simp: strcmp_result_def)

lemma find_named_find:
  assumes "cstr (mem s) name nm" and "\<And>j. i \<le> j \<Longrightarrow> j < i + k \<Longrightarrow> cstr (mem s) (root_node s (of_nat j)) (nms j)"
  shows "find_named name i k s = Inr (List.find (\<lambda>j. nms j = nm) [i..<i + k])"
  using assms(2)
proof (induction k arbitrary: i)
  case (Suc k)
  obtain r where r: "strcmp (mem s) name (root_node s (of_nat i)) = Some r" "r = 0 \<longleftrightarrow> nm = nms i"
    using strcmp_equal [OF assms(1) Suc.prems [of i]] by auto
  have "find_named name (Suc i) k s = Inr (List.find (\<lambda>j. nms j = nm) [Suc i..<Suc i + k])"
    by (rule Suc.IH) (use Suc.prems in simp)
  then show ?case using r by (auto simp: or_hang_def upt_conv_Cons simp del: upt_Suc)
qed simp

lemma node_count_small:
  "nroot_nodes s = of_nat k \<Longrightarrow> k < 2 ^ 20 \<Longrightarrow> node_count s = k"
  by (simp add: node_count_def sint_u32 word_less_nat_alt unat_of_nat_small uint_nat)

lemma find_nth_map_of:
  "List.find (\<lambda>j. fst (fs ! j) = nm) [0..<length fs] = Some j \<Longrightarrow> j < length fs \<and> map_of fs nm = Some (snd (fs ! j))"
  "List.find (\<lambda>j. fst (fs ! j) = nm) [0..<length fs] = None \<Longrightarrow> map_of fs nm = None"
proof -
  assume "List.find (\<lambda>j. fst (fs ! j) = nm) [0..<length fs] = Some j"
  then have j: "j < length fs" "fst (fs ! j) = nm" "\<And>i. i < j \<Longrightarrow> fst (fs ! i) \<noteq> nm"
    by (auto simp: find_Some_iff)
  from j have "map_of fs nm = Some (snd (fs ! j))"
  proof (induction fs arbitrary: j)
    case (Cons f fs)
    show ?case
    proof (cases j)
      case (Suc k)
      have "fst f \<noteq> nm" using Cons.prems(3) [of 0] Suc by simp
      moreover have "map_of fs nm = Some (snd (fs ! k))"
      proof (rule Cons.IH)
        show "fst (fs ! i) \<noteq> nm" if "i < k" for i using Cons.prems(3) [of "Suc i"] that Suc by simp
      qed (use Cons.prems Suc in simp_all)
      ultimately show ?thesis using Suc by (cases f) simp
    qed (use Cons.prems in \<open>cases f; simp\<close>)
  qed simp
  with j show "j < length fs \<and> map_of fs nm = Some (snd (fs ! j))" by simp
next
  assume "List.find (\<lambda>j. fst (fs ! j) = nm) [0..<length fs] = None"
  then have "\<And>j. j < length fs \<Longrightarrow> fst (fs ! j) \<noteq> nm" by (auto simp: find_None_iff)
  then show "map_of fs nm = None" by (fastforce simp: map_of_eq_None_iff in_set_conv_nth)
qed

text \<open>What a name stands for: the literal name of the device directory comes before the files.\<close>

definition content_of :: "(u8 list \<times> u8 list) list \<Rightarrow> u8 list \<Rightarrow> u8 list option" where
  "content_of files nm = (if nm = ascii ''dev'' then None else map_of files nm)"

lemma finddir_result:
  assumes "mounted img rs s files" and "cstr (mem s) d nm"
  shows "finddir_fs (initrd_driver img n) (fs_root s) d s =
    Inr (if nm = ascii ''dev'' then initrd_dev s
         else case List.find (\<lambda>j. fst (files ! j) = nm) [0..<length files] of
           Some j \<Rightarrow> root_node s (of_nat j) | None \<Rightarrow> 0, s)"
proof -
  have g: "fs_root s = initrd_root s" "node_flags s (initrd_root s) = FS_DIRECTORY" "node_finddir s (initrd_root s) = at_finddir img"
    "at_finddir img \<noteq> 0" "nroot_nodes s = of_nat (length files)" "length files < 2 ^ 20"
    "cstr (mem s) (lit_dev img) (ascii ''dev'')"
    using assms(1) by (simp_all add: mounted_def)
  obtain r where r: "strcmp (mem s) d (lit_dev img) = Some r" "r = 0 \<longleftrightarrow> nm = ascii ''dev''"
    using strcmp_equal [OF assms(2) g(7)] by auto
  have "find_named d 0 (node_count s) s = Inr (List.find (\<lambda>j. fst (files ! j) = nm) [0..<0 + node_count s])"
    by (rule find_named_find [OF assms(2)])
      (use mounted_file(1) [OF assms(1)] node_count_small [OF g(5,6)] in \<open>auto simp: is_file_def\<close>)
  then have f: "find_named d 0 (node_count s) s = Inr (List.find (\<lambda>j. fst (files ! j) = nm) [0..<length files])"
    by (simp add: node_count_small [OF g(5,6)])
  show ?thesis
    using g r by (auto simp: finddir_fs_def initrd_driver_def FS_DIRECTORY_def initrd_finddir_def f or_hang_def
        split: option.splits)
qed

lemma read_file_start:
  assumes "mounted img rs s files" and "j < length files" and "(buf, 256) \<in> set rs"
  defines "bs \<equiv> snd (files ! j)"
  shows "\<exists>t. read_fs (initrd_driver img n) (root_node s (of_nat j)) 0 256 buf s = Inr (of_nat (length (take 256 bs)), t)
    \<and> bytes_at (mem t) buf (length (take 256 bs)) = take 256 bs \<and> mounted img rs t files \<and> console t = console s"
proof -
  let ?x = "root_node s (of_nat j)"
  let ?h = "header_of s ?x"
  have f: "node_read s ?x = at_read img" "at_read img \<noteq> 0" "unat (header_length s ?h) = length bs"
    "bytes_at (mem s) (header_offset s ?h) (length bs) = bs" "apart buf 256 (header_offset s ?h) (length bs)"
    using mounted_file(1) [OF assms(1,2)] mounted_file(3) [OF assms(1-3)] assms(1)
    by (simp_all add: is_file_def mounted_def bs_def)
  let ?k = "cut_size (header_length s ?h) 0 256"
  have k: "unat ?k = length (take 256 bs)"
    using cut_size_within [of 0 256 "header_length s ?h"] f(3) by (simp add: min.commute)
  then have kw: "?k = of_nat (length (take 256 bs))" by (simp only: k [symmetric]) simp
  let ?t = "s\<lparr>mem := fst (memcpy (mem s) buf (header_offset s ?h) ?k)\<rparr>"
  have kl: "unat ?k \<le> 256" "unat ?k \<le> length bs" using k by simp_all
  have bl: "length bs \<le> 2 ^ 32" using f(3) unat_u32_lt [of "header_length s ?h"] by simp
  have ap: "buf + of_nat i \<noteq> header_offset s ?h + of_nat l" if "i < unat ?k" "l < unat ?k" for i l
    using apart_offsets [OF f(5), of i l] that kl bl by simp
  have "read_fs (initrd_driver img n) ?x 0 256 buf s = Inr (?k, ?t)"
    using f(1,2) by (simp add: read_fs_def initrd_driver_def initrd_read_def header_of_def Let_def)
  moreover have "bytes_at (mem ?t) buf (unat ?k) = take 256 bs"
  proof -
    have "bytes_at (mem ?t) buf (unat ?k) = bytes_at (mem s) (header_offset s ?h) (unat ?k)"
      using memcpy_result(1) [OF ap, where m = "mem s"] by simp
    also have "\<dots> = take 256 bs"
    proof (rule bytes_at_eqI)
      fix i assume i: "i < unat ?k"
      have "bytes_at (mem s) (header_offset s ?h) (length bs) ! i = mem s (header_offset s ?h + of_nat i)"
        using i kl(2) by (intro nth_bytes_at) simp
      then show "mem s (header_offset s ?h + of_nat i) = take 256 bs ! i" using i k f(4) by simp
    qed (simp add: k)
    finally show ?thesis .
  qed
  moreover have "mounted img rs (s\<lparr>mem := mem ?t, console := console s\<rparr>) files"
  proof (rule mounted_scratch [OF assms(1)])
    show "(buf, 256) \<in> set ((at_dirent img, 132) # rs)" using assms(3) by simp
    show "mem ?t x = mem s x" if "\<not> in_range buf 256 x" for x
      using memcpy_result(2) [OF ap, where m = "mem s" and x = x] that in_range_mono [OF _ kl(1), of buf x] by auto
  qed
  ultimately show ?thesis using k kw by (intro exI [of _ ?t]) simp
qed

lemma mounted_printed: "mounted img rs s files \<Longrightarrow> mounted img rs (s\<lparr>console := c\<rparr>) files"
  by (erule mounted_same) (simp add: same_files_def same_on_def)

interpretation initrd: directory "initrd_driver img n" "mounted img rs" entry_names for img n rs
proof
  fix s :: "'a ird" and f i c nm
  assume m: "mounted img rs s f"
  show "\<exists>d t. readdir_fs (initrd_driver img n) (fs_root s) (of_nat i) s = Inr (d, t) \<and> d \<noteq> 0
      \<and> cstr (mem t) d (entry_names f ! i) \<and> mounted img rs t f \<and> console t = console s" if "i < length (entry_names f)"
  proof -
    have "at_dirent img \<noteq> 0" using m by (simp add: mounted_def)
    then show ?thesis using readdir_entry [OF m that, of n] by blast
  qed
  show "readdir_fs (initrd_driver img n) (fs_root s) (of_nat (length (entry_names f))) s = Inr (0, s)"
    by (rule readdir_no_entry [OF m])
  show "mounted img rs (s\<lparr>console := c\<rparr>) f" by (rule mounted_printed [OF m])
  show "length nm < 2 ^ 32" if nm: "nm \<in> set (entry_names f)"
  proof -
    have "length (fst (f ! j)) < 2 ^ 32" if "j < length f" for j
      using mounted_file(1) [OF m that] by (simp add: is_file_def)
    then show ?thesis using nm by (fastforce simp: entry_names_def ascii_def in_set_conv_nth)
  qed
qed

interpretation initrd: readable_directory "initrd_driver img n" "mounted img ((buf, 256) # rs)" entry_names buf content_of
  for img n buf rs
proof
  fix s :: "'a ird" and f nm d
  assume m: "mounted img ((buf, 256) # rs) s f"
  assume nm: "nm \<in> set (entry_names f)" and d: "cstr (mem s) d nm"
  note fd = finddir_result [OF m d, of n]
  show "\<exists>x. finddir_fs (initrd_driver img n) (fs_root s) d s = Inr (x, s)
        \<and> (node_flags s x AND 0x7 = FS_DIRECTORY \<longleftrightarrow> content_of f nm = None)
        \<and> (\<forall>c bs. content_of f nm = Some bs \<longrightarrow> (\<exists>t. read_fs (initrd_driver img n) x 0 256 buf (s\<lparr>console := c\<rparr>) = Inr (of_nat (length (take 256 bs)), t)
             \<and> bytes_at (mem t) buf (length (take 256 bs)) = take 256 bs \<and> mounted img ((buf, 256) # rs) t f \<and> console t = c))"
  proof (cases "nm = ascii ''dev''")
    case True
    then show ?thesis using fd m by (simp add: content_of_def mounted_def FS_DIRECTORY_def)
  next
    case False
    then obtain l where l: "l < length f" "fst (f ! l) = nm" using nm by (auto simp: entry_names_def in_set_conv_nth)
    then have "List.find (\<lambda>j. fst (f ! j) = nm) [0..<length f] \<noteq> None" by (auto simp: find_None_iff)
    then obtain j where j: "List.find (\<lambda>j. fst (f ! j) = nm) [0..<length f] = Some j" by auto
    note jm = find_nth_map_of(1) [OF j]
    let ?x = "root_node s (of_nat j)"
    have x: "finddir_fs (initrd_driver img n) (fs_root s) d s = Inr (?x, s)" using fd j False by simp
    have fl: "node_flags s ?x = FS_FILE" using mounted_file(1) [OF m] jm by (simp add: is_file_def)
    have rd: "\<exists>t. read_fs (initrd_driver img n) ?x 0 256 buf (s\<lparr>console := c\<rparr>) = Inr (of_nat (length (take 256 (snd (f ! j)))), t)
             \<and> bytes_at (mem t) buf (length (take 256 (snd (f ! j)))) = take 256 (snd (f ! j)) \<and> mounted img ((buf, 256) # rs) t f \<and> console t = c" for c
      using read_file_start [OF mounted_printed [OF m, where c = c], where j = j and n = n and buf = buf] jm by (simp add: root_node_def)
    show ?thesis
      using x fl jm rd False by (intro exI [of _ ?x]) (auto simp: content_of_def FS_FILE_def FS_DIRECTORY_def)
  qed
qed

section \<open>A small image\<close>

text \<open>One file named \<open>a\<close> with the bytes of \<open>hi\<close>, mounted.\<close>

definition demo_image :: image where
  "demo_image = \<lparr>at_read = 0x10, at_open = 0x20, at_close = 0x30, at_readdir = 0x40, at_finddir = 0x50,
     at_dirent = 0x200, lit_dev = 0x300, lit_initrd = 0x310\<rparr>"

definition demo_bytes :: "(u32 \<times> u8) list" where
  "demo_bytes = [(0x300, 100), (0x301, 101), (0x302, 118),
     (0x108C, 2), (0x10A4, 0x20), (0x10A8, 0x30), (0x10AC, 0x40), (0x10B0, 0x50), (0x118C, 2),
     (0x2000, 97), (0x208C, 1), (0x209C, 0x10), (0x3000, 1), (0x3049, 0x40), (0x304C, 2), (0x4000, 104), (0x4001, 105)]"

definition demo_mem :: memory where
  "demo_mem a = (case map_of demo_bytes a of Some v \<Rightarrow> v | None \<Rightarrow> 0)"

definition demo_with :: "'a \<Rightarrow> 'a ird" where
  "demo_with x = \<lparr>mem = demo_mem, phys = \<lambda>_. 0, placement_address = 0x8000, kheap = None, frames = 0, frames_bitmap_size = 0,
     vm_page_dir = 0, cur_vm_page_dir = 0, cr3 = 0, cr0 = 0, if_flag = True, console = [],
     cur_task = 0, head_task = 0, next_pid = 1, initial_esp = 0, esp = 0, ebp = 0, tick = 0, fs_root = 0x1000,
     initrd_header = 0x3000, file_headers = 0x3004, initrd_root = 0x1000, initrd_dev = 0x1100, root_nodes = 0x2000,
     nroot_nodes = 1, \<dots> = x\<rparr>"

abbreviation demo :: initrd_memory where "demo \<equiv> demo_with ()"

definition demo_files :: "(u8 list \<times> u8 list) list" where
  "demo_files = [(ascii ''a'', ascii ''hi'')]"

lemma demo_facts:
  "mem (demo_with x) = demo_mem" "root_node (demo_with x) 0 = 0x2000" "header_of (demo_with x) 0x2000 = 0x3004"
  "header_offset (demo_with x) 0x3004 = 0x4000" "header_length (demo_with x) 0x3004 = 2"
proof -
  show m: "mem (demo_with x) = demo_mem" by (simp add: demo_with_def)
  note ev = peek_def m load32_def off_def demo_mem_def demo_bytes_def
  show "root_node (demo_with x) 0 = 0x2000" by (simp add: root_node_def demo_with_def sizeof_node_def)
  show "header_of (demo_with x) 0x2000 = 0x3004"
    by (simp add: header_of_def file_header_def node_inode_def ev) (simp add: demo_with_def)
  show "header_offset (demo_with x) 0x3004 = 0x4000" "header_length (demo_with x) 0x3004 = 2"
    by (simp_all add: header_offset_def header_length_def ev)
qed

lemma demo_console: "console (demo_with x) = []"
  by (simp add: demo_with_def)

lemma demo_mounted: "mounted demo_image [(0x5000, 256), (0x6000, 256)] (demo_with x) demo_files"
proof -
  note m = demo_facts(1) and rn = demo_facts(2) and h = demo_facts(3) and ho = demo_facts(4,5)
  note ev = peek_def m load32_def off_def demo_mem_def demo_bytes_def
  have flags: "node_flags (demo_with x) 0x1000 = 2" "node_flags (demo_with x) 0x1100 = 2" "node_flags (demo_with x) 0x2000 = 1"
    by (simp_all add: node_flags_def ev)
  have ops: "node_readdir (demo_with x) 0x1000 = 0x40" "node_finddir (demo_with x) 0x1000 = 0x50" "node_read (demo_with x) 0x2000 = 0x10"
    by (simp_all add: node_readdir_def node_finddir_def node_read_def ev)
  have f: "is_file demo_image (demo_with x) 0x2000 (ascii ''a'', ascii ''hi'')"
  proof -
    have a: "cstr demo_mem 0x2000 (ascii ''a'')" "length (ascii ''hi'') = 2" "ascii ''a'' \<noteq> []" "length (ascii ''a'') < 128"
      by (simp_all add: ascii_def demo_mem_def demo_bytes_def)
    have "bytes_at demo_mem 0x4000 (Suc (Suc 0)) = ascii ''hi''"
      by (simp add: ascii_def demo_mem_def demo_bytes_def)
    then have b: "bytes_at demo_mem 0x4000 2 = ascii ''hi''" by (simp only: numeral_2_eq_2)
    show ?thesis
      unfolding is_file_def fst_conv snd_conv m h ho flags ops a(2) b
      by (intro conjI a) (simp_all add: FS_FILE_def demo_image_def)
  qed
  have ar: "area demo_image (demo_with x) demo_files = [(0x300, 4), (0x1000, 184), (0x1100, 184), (0x2000, 184), (0x3004, 76), (0x4000, 2)]"
    by (simp add: area_def demo_files_def file_area_def rn h ho ascii_def) (simp add: demo_with_def demo_image_def)
  have c: "clear_of 0x200 132 (area demo_image (demo_with x) demo_files)" "clear_of 0x5000 256 (area demo_image (demo_with x) demo_files)"
    "clear_of 0x6000 256 (area demo_image (demo_with x) demo_files)"
    by (simp_all add: ar clear_of_def apart_def)
  have g: "fs_root (demo_with x) = 0x1000" "initrd_root (demo_with x) = 0x1000" "initrd_dev (demo_with x) = 0x1100" "nroot_nodes (demo_with x) = 1"
    by (simp_all add: demo_with_def)
  have i: "at_dirent demo_image = 0x200" "at_readdir demo_image = 0x40" "at_finddir demo_image = 0x50"
    "at_read demo_image = 0x10" "lit_dev demo_image = 0x300" by (simp_all add: demo_image_def)
  have d: "cstr demo_mem 0x300 (ascii ''dev'')"
    by (simp add: ascii_def demo_mem_def demo_bytes_def)
  show ?thesis
    unfolding mounted_def g i flags ops m
    by (intro conjI d) (simp_all add: c, simp_all add: demo_files_def FS_DIRECTORY_def rn f)
qed

text \<open>
  Property C16. With an initrd mounted, \<open>print_all_file\<close> prints one line for each entry: the device
  directory, then every file of the image in order; and the files are still mounted.
\<close>

theorem print_all_file_lists_files:
  assumes "mounted img rs s files"
  shows "\<exists>t. print_all_file (initrd_driver img n) s = Inr t \<and> mounted img rs t files
    \<and> console t = console s @ concat (List.map found_line (ascii ''dev'' # List.map fst files))"
  using initrd.print_all_file_lists [OF assms] by (simp add: entry_names_def)

theorem print_all_file_lists_files_witness:
  "\<exists>t. print_all_file (initrd_driver demo_image 0) demo = Inr t \<and> console t = found_line (ascii ''dev'') @ found_line (ascii ''a'')"
  using print_all_file_lists_files [OF demo_mounted [where x = "()"], of 0] by (auto simp: demo_files_def demo_console)

text \<open>
  Property C15. \<open>print_all_file_content\<close> prints each entry with what is behind its name: the mark of a directory,
  or the first 256 bytes of the first file of that name.
\<close>

theorem print_all_file_content_shows_files:
  assumes "mounted img ((buf, 256) # rs) s files"
  shows "\<exists>t. print_all_file_content (initrd_driver img n) buf s = Inr t \<and> mounted img ((buf, 256) # rs) t files
    \<and> console t = console s @ concat (List.map (\<lambda>nm. found_line nm @ content_text (content_of files nm)) (ascii ''dev'' # List.map fst files))"
  using initrd.print_all_file_content_lists [OF assms] by (simp add: entry_names_def)

theorem print_all_file_content_shows_files_witness:
  "\<exists>t. print_all_file_content (initrd_driver demo_image 0) 0x5000 demo = Inr t
    \<and> console t = found_line (ascii ''dev'') @ content_text None @ found_line (ascii ''a'') @ content_text (Some (ascii ''hi''))"
  using print_all_file_content_shows_files [OF demo_mounted [where x = "()"], of 0]
  by (auto simp: demo_files_def demo_console content_of_def ascii_def)

theorem initrd_read_result_witness:
  "\<exists>r. initrd_read 0x2000 1 5 0x5000 demo = r \<and> unat (fst r) = 1 \<and> bytes_at (mem (snd r)) 0x5000 1 = [105]"
proof -
  have h: "0x3004 = file_header demo (node_inode demo 0x2000)" "2 = header_length demo 0x3004"
    using demo_facts(3,5) by (simp_all add: header_of_def)
  have ap: "apart 0x5000 5 0x4001 5" by (simp add: apart_def)
  have "0x5000 + of_nat i \<noteq> header_offset demo 0x3004 + 1 + of_nat j" if "i < unat (5 :: u32)" "j < unat (5 :: u32)" for i j
    using apart_offsets [OF ap, of i j] that by (simp add: demo_facts(4))
  note res = initrd_read_result [where offset = "1" and sz = "5" and buffer = "0x5000", OF h refl this, simplified demo_facts]
  then have k: "unat (fst (initrd_read 0x2000 1 5 0x5000 demo)) = Suc 0" by simp
  have r: "bytes_at (mem (snd (initrd_read 0x2000 1 5 0x5000 demo))) 0x5000 1 = bytes_at demo_mem 0x4001 1"
    using res unfolding k by simp
  have "bytes_at demo_mem 0x4001 1 = [105]" by (simp add: demo_mem_def demo_bytes_def)
  with r k show ?thesis by simp
qed

end
