(* ===== verification/Initrd_Changes.thy ===== *)
theory Initrd_Changes
  imports Initrd_Correctness Globals_Kept Paging_Correctness
begin

text \<open>
  What mounting, \<open>initrd_open\<close> and \<open>initrd_close\<close> of \<open>src/src/initrd.c\<close> do to the array of nodes. The array
  is seen as the list of its blocks of 184 bytes.
\<close>

section \<open>The array of nodes\<close>

definition node_at :: "u32 \<Rightarrow> nat \<Rightarrow> u32" where
  "node_at base k = off base (k * 184)"

definition block :: "memory \<Rightarrow> u32 \<Rightarrow> nat \<Rightarrow> u8 list" where
  "block m base k = bytes_at m (node_at base k) 184"

definition blocks :: "memory \<Rightarrow> u32 \<Rightarrow> nat \<Rightarrow> u8 list list" where
  "blocks m base n = List.map (block m base) [0..<n]"

lemma root_node_at: "root_node s (of_nat k) = node_at (root_nodes s) k"
  by (simp add: root_node_def node_at_def off_def sizeof_node_def)

lemma nodes_apart:
  assumes "i \<noteq> j" and "Suc i * 184 \<le> 2 ^ 32" and "Suc j * 184 \<le> 2 ^ 32"
  shows "apart (node_at base i) 184 (node_at base j) 184"
proof -
  have *: "apart (node_at base a) 184 (node_at base b) 184" if "a < b" "Suc b * 184 \<le> 2 ^ 32" for a b :: nat
  proof -
    have "a * 184 + 184 \<le> b * 184" using that(1) by simp
    then show ?thesis unfolding node_at_def by (rule off_apart) (use that(2) in simp_all)
  qed
  from assms(1) consider "i < j" | "j < i" by linarith
  then show ?thesis using *[of i j] *[of j i] assms(2,3) by cases (simp_all add: apart_sym)
qed

lemma node_in_array:
  assumes "in_range (node_at base k) 184 x" and "k < n" and "n * 184 \<le> 2 ^ 32"
  shows "in_range base (n * 184) x"
proof -
  have "k * 184 + 184 \<le> n * 184" using assms(2) by simp
  then show ?thesis using in_range_off [OF assms(1) [unfolded node_at_def] _ assms(3)] by simp
qed

lemma block_cong: "(\<And>x. in_range (node_at base k) 184 x \<Longrightarrow> m' x = m x) \<Longrightarrow> block m' base k = block m base k"
  unfolding block_def by (rule bytes_at_eqI) (simp_all add: nth_bytes_at in_range_offset)

lemma blocks_cong: "(\<And>x. in_range base (n * 184) x \<Longrightarrow> m' x = m x) \<Longrightarrow> n * 184 \<le> 2 ^ 32 \<Longrightarrow> blocks m' base n = blocks m base n"
  unfolding blocks_def by (auto intro!: block_cong dest: node_in_array)

text \<open>The struct assignment copies the block of the next node.\<close>

lemma copy_node_result:
  fixes s :: "'a ird"
  assumes "i + 1 < n" and "n * 184 \<le> 2 ^ 32"
  defines "base \<equiv> root_nodes s"
  shows "blocks (mem (copy_node i s)) base n = (blocks (mem s) base n)[i := blocks (mem s) base n ! (i + 1)]"
    and "\<not> in_range base (n * 184) x \<Longrightarrow> mem (copy_node i s) x = mem s x"
    and "copy_node i s = s\<lparr>mem := mem (copy_node i s)\<rparr>"
proof -
  let ?d = "node_at base i" and ?a = "node_at base (i + 1)"
  let ?m = "fst (memcpy (mem s) ?d ?a 184)"
  have c: "copy_node i s = s\<lparr>mem := ?m\<rparr>"
    unfolding copy_node_def root_node_at base_def by (simp add: sizeof_node_def)
  have k: "unat (184 :: u32) = 184" by simp
  have ap: "apart ?d 184 ?a 184" by (rule nodes_apart) (use assms(1,2) in simp_all)
  have ne: "?d + of_nat p \<noteq> ?a + of_nat q" if "p < unat (184 :: u32)" "q < unat (184 :: u32)" for p q
    using apart_offsets [OF ap, of p q] that by simp
  have cp: "bytes_at ?m ?d 184 = bytes_at (mem s) ?a 184" "\<And>x. \<not> in_range ?d 184 x \<Longrightarrow> ?m x = mem s x"
    using memcpy_result [where k = "184" and d = "?d" and a = "?a" and m = "mem s", OF ne] unfolding k by blast+
  show "\<not> in_range base (n * 184) x \<Longrightarrow> mem (copy_node i s) x = mem s x"
    using cp(2) [of x] node_in_array [of base i x n] assms(1,2) unfolding c by auto
  show "copy_node i s = s\<lparr>mem := mem (copy_node i s)\<rparr>" unfolding c by simp
  show "blocks (mem (copy_node i s)) base n = (blocks (mem s) base n)[i := blocks (mem s) base n ! (i + 1)]"
  proof (rule nth_equalityI)
    fix j assume "j < length (blocks (mem (copy_node i s)) base n)"
    then have j: "j < n" by (simp add: blocks_def)
    have "block ?m base j = (if j = i then block (mem s) base (i + 1) else block (mem s) base j)"
    proof (cases "j = i")
      case True
      then show ?thesis using cp(1) by (simp add: block_def)
    next
      case False
      have "apart ?d 184 (node_at base j) 184" by (rule nodes_apart) (use False j assms(1,2) in simp_all)
      then have "?m x = mem s x" if "in_range (node_at base j) 184 x" for x
        using cp(2) apart_in_range that by blast
      then have "block ?m base j = block (mem s) base j" by (rule block_cong)
      then show ?thesis using False by simp
    qed
    then show "blocks (mem (copy_node i s)) base n ! j = (blocks (mem s) base n)[i := blocks (mem s) base n ! (i + 1)] ! j"
      using j assms(1) unfolding c by (simp add: blocks_def nth_list_update)
  qed (simp add: blocks_def)
qed

text \<open>The loop of \<open>initrd_close\<close> moves the blocks after place \<open>i\<close> one place down and leaves the last twice.\<close>

lemma shift_nodes:
  fixes s :: "'a ird"
  assumes "i < n" and "n * 184 \<le> 2 ^ 32"
  shows "blocks (mem (fold copy_node [i..<n - 1] s)) (root_nodes s) n
      = take i (blocks (mem s) (root_nodes s) n) @ drop (Suc i) (blocks (mem s) (root_nodes s) n) @ [last (blocks (mem s) (root_nodes s) n)]
    \<and> (\<forall>x. \<not> in_range (root_nodes s) (n * 184) x \<longrightarrow> mem (fold copy_node [i..<n - 1] s) x = mem s x)
    \<and> fold copy_node [i..<n - 1] s = s\<lparr>mem := mem (fold copy_node [i..<n - 1] s)\<rparr>"
  using assms(1)
proof (induction "n - Suc i" arbitrary: i s)
  case 0
  then have i: "i = n - 1" by simp
  let ?b = "blocks (mem s) (root_nodes s) n"
  have "?b \<noteq> []" "length ?b = n" using 0 by (auto simp: blocks_def)
  then have "take i ?b = butlast ?b" "drop (Suc i) ?b = []" using i by (simp_all add: butlast_conv_take)
  then have "?b = take i ?b @ drop (Suc i) ?b @ [last ?b]" using \<open>?b \<noteq> []\<close> by simp
  then show ?case using i by simp
next
  case (Suc k)
  then have i: "i + 1 < n" "[i..<n - 1] = i # [Suc i..<n - 1]" by (simp_all add: upt_conv_Cons)
  let ?t = "copy_node i s" and ?b = "blocks (mem s) (root_nodes s) n"
  note cn = copy_node_result [OF i(1) assms(2), where s = s]
  have rn: "root_nodes ?t = root_nodes s" by (subst cn(3)) simp
  have lb: "length ?b = n" by (simp add: blocks_def)
  have bt: "blocks (mem ?t) (root_nodes s) n = ?b[i := ?b ! (i + 1)]" using cn(1) by simp
  have IH: "blocks (mem (fold copy_node [Suc i..<n - 1] ?t)) (root_nodes ?t) n
      = take (Suc i) (blocks (mem ?t) (root_nodes ?t) n) @ drop (Suc (Suc i)) (blocks (mem ?t) (root_nodes ?t) n) @ [last (blocks (mem ?t) (root_nodes ?t) n)]
    \<and> (\<forall>x. \<not> in_range (root_nodes ?t) (n * 184) x \<longrightarrow> mem (fold copy_node [Suc i..<n - 1] ?t) x = mem ?t x)
    \<and> fold copy_node [Suc i..<n - 1] ?t = ?t\<lparr>mem := mem (fold copy_node [Suc i..<n - 1] ?t)\<rparr>"
    by (rule Suc.hyps(1)) (use Suc.hyps(2) i(1) in simp_all)
  have l: "last (?b[i := ?b ! (i + 1)]) = last ?b"
    using lb i(1) last_list_update [of ?b i] by (cases "?b = []") auto
  have "take (Suc i) (?b[i := ?b ! (i + 1)]) @ drop (Suc (Suc i)) (?b[i := ?b ! (i + 1)]) = take i ?b @ drop (Suc i) ?b"
  proof -
    have "take (Suc i) (?b[i := ?b ! (i + 1)]) = take i ?b @ [?b ! Suc i]"
      using lb i(1) by (simp add: take_Suc_conv_app_nth)
    moreover have "drop (Suc i) ?b = ?b ! Suc i # drop (Suc (Suc i)) ?b"
      using lb i(1) by (simp add: Cons_nth_drop_Suc)
    ultimately show ?thesis by simp
  qed
  then have "blocks (mem (fold copy_node [Suc i..<n - 1] ?t)) (root_nodes s) n = take i ?b @ drop (Suc i) ?b @ [last ?b]"
    using IH unfolding rn bt l by simp
  moreover have "mem (fold copy_node [Suc i..<n - 1] ?t) x = mem s x" if "\<not> in_range (root_nodes s) (n * 184) x" for x
    using IH cn(2) that rn by simp
  moreover have "fold copy_node [Suc i..<n - 1] ?t = s\<lparr>mem := mem (fold copy_node [Suc i..<n - 1] ?t)\<rparr>"
  proof -
    have "?t\<lparr>mem := m\<rparr> = s\<lparr>mem := m\<rparr>" for m by (subst cn(3)) simp
    with IH show ?thesis by metis
  qed
  ultimately show ?case unfolding i(2) by simp
qed

section \<open>Removing a file\<close>

lemma initrd_poke [simp]:
  "initrd_header (poke a v s) = initrd_header s" "file_headers (poke a v s) = file_headers s"
  "root_nodes (poke a v s) = root_nodes s" "nroot_nodes (poke a v s) = nroot_nodes s"
  for s :: "'a ird"
  by (simp_all add: poke_def)

lemma kept_initrd:
  fixes s t :: "'a ird"
  assumes "kept s t"
  shows "initrd_header t = initrd_header s" "file_headers t = file_headers s" "initrd_root t = initrd_root s"
    "initrd_dev t = initrd_dev s" "root_nodes t = root_nodes s" "nroot_nodes t = nroot_nodes s" "fs_root t = fs_root s"
  using assms by (cases s; cases t; simp add: kept_def)+

text \<open>What is asked of the allocator: room for \<open>k\<close> nodes apart from the given ranges, which it leaves alone.\<close>

definition gives_block :: "nat \<Rightarrow> nat \<Rightarrow> (u32 \<times> nat) list \<Rightarrow> 'a ird \<Rightarrow> bool" where
  "gives_block n k rs s \<longleftrightarrow> (\<exists>p u. malloc_s n (of_nat (k * 184)) s = Inr (p, u) \<and> same_on rs (mem u) (mem s) \<and> clear_of p (k * 184) rs)"

lemma blocks_take: "k \<le> n \<Longrightarrow> blocks m base k = take k (blocks m base n)"
  by (simp add: blocks_def take_map)

text \<open>The end of \<open>initrd_close\<close>: the copy of the nodes, which nothing uses, and the new count.\<close>

lemma close_end:
  fixes s :: "'a ird"
  assumes "nfiles s = of_nat N" and "0 < N" and "N < 2 ^ 20" and "gives_block n (N - 1) [(root_nodes s, N * 184), (initrd_header s, 4)] s"
    and "apart (root_nodes s) (N * 184) (initrd_header s) 4"
  shows "\<exists>p u. malloc_s n (sizeof_node * (nfiles s - 1)) s = Inr (p, u) \<and>
    (let t = u\<lparr>mem := fst (memcpy (mem u) p (root_nodes u) (sizeof_node * (nfiles u - 1)))\<rparr>;
         t = set_nfiles (nfiles t - 1) t
     in nfiles t = of_nat (N - 1) \<and> root_nodes t = root_nodes s \<and> blocks (mem t) (root_nodes s) N = blocks (mem s) (root_nodes s) N)"
proof -
  let ?b = "root_nodes s" and ?h = "initrd_header s" and ?k = "(N - 1) * 184"
  obtain kw :: u32 where kw: "kw = of_nat ?k" by simp
  have sz: "sizeof_node * (of_nat N - 1) = kw" using assms(2) by (simp add: kw sizeof_node_def of_nat_diff)
  have uk: "unat kw = ?k" unfolding kw using assms(3) by (intro unat_of_nat_small) simp
  obtain p u where u: "malloc_s n kw s = Inr (p, u)"
    "\<And>x. in_range ?b (N * 184) x \<or> in_range ?h 4 x \<Longrightarrow> mem u x = mem s x" "apart p ?k ?b (N * 184)" "apart p ?k ?h 4"
    using assms(4) unfolding gives_block_def kw by (auto simp: same_on_def clear_of_def)
  note k = kept_initrd [OF malloc_kept(1) [OF u(1)]]
  have nf: "nfiles u = of_nat N"
    using assms(1) u(2) k(1) unfolding nfiles_def peek_def by (metis load32_cong)
  let ?t = "u\<lparr>mem := fst (memcpy (mem u) p (root_nodes u) kw)\<rparr>"
  have other: "mem ?t x = mem u x" if "\<not> in_range p ?k x" for x
  proof -
    have "memcpy_loop (mem u) p (root_nodes u) ?k x = mem u x"
      by (rule memcpy_loop_other [OF that]) (use assms(3) in simp)
    then show ?thesis by (simp add: memcpy_def uk)
  qed
  have nt: "nfiles ?t = of_nat N"
    unfolding nfiles_def peek_def using nf [unfolded nfiles_def peek_def] other apart_in_range [OF u(4)] k(1)
    by (metis (no_types, lifting) load32_cong initrd_memory.select_convs(1) initrd_memory.surjective kernel_memory.update_convs(1))
  let ?u = "set_nfiles (nfiles ?t - 1) ?t"
  have "nfiles ?u = of_nat (N - 1)"
    using nt assms(2) by (simp add: nfiles_def set_nfiles_def peek_def load32_store32_same of_nat_diff)
  moreover have "root_nodes ?u = ?b" using k(5) by (simp add: set_nfiles_def poke_def)
  moreover have "blocks (mem ?u) ?b N = blocks (mem s) ?b N"
  proof (rule blocks_cong)
    fix x assume x: "in_range ?b (N * 184) x"
    have "\<not> in_range ?h 4 x" using apart_in_range [OF assms(5) [THEN apart_sym [THEN iffD1]] x] .
    then have "mem ?u x = mem ?t x" using k(1) by (simp add: set_nfiles_def store32_other)
    then show "mem ?u x = mem s x" using other [of x] apart_in_range [OF u(3) x] u(2) x by simp
  qed (use assms(3) in simp)
  ultimately show ?thesis
    using u(1) nf by (intro exI [of _ p] exI [of _ u]) (simp add: assms(1) sz Let_def)
qed

text \<open>
  Property C39. \<open>initrd_close\<close> returns when the allocator gives room for the copy it makes, and has removed one
  node from the array: the first with the name, the others keeping their order, or, when no node has
  the name, the last one.
\<close>

theorem initrd_close_removes:
  fixes s :: "'a ird"
  assumes "nroot_nodes s = of_nat N" and "nfiles s = of_nat N" and "0 < N" and "N < 2 ^ 20"
    and "cstr (mem s) name nm" and "\<And>j. j < N \<Longrightarrow> cstr (mem s) (root_node s (of_nat j)) (nms j)"
    and "apart (root_nodes s) (N * 184) (initrd_header s) 4"
    and "\<And>m. (\<And>x. \<not> in_range (root_nodes s) (N * 184) x \<Longrightarrow> m x = mem s x) \<Longrightarrow> gives_block n (N - 1) [(root_nodes s, N * 184), (initrd_header s, 4)] (s\<lparr>mem := m\<rparr>)"
    and "bs = blocks (mem s) (root_nodes s) N"
  shows "\<exists>t. initrd_close n name s = Inr t \<and> nroot_nodes t = of_nat (N - 1) \<and> nfiles t = of_nat (N - 1)
    \<and> blocks (mem t) (root_nodes t) (N - 1) =
        (case List.find (\<lambda>j. nms j = nm) [0..<N] of Some i \<Rightarrow> take i bs @ drop (Suc i) bs | None \<Rightarrow> butlast bs)"
proof -
  let ?r = "List.find (\<lambda>j. nms j = nm) [0..<N]"
  let ?i = "case ?r of Some i \<Rightarrow> i | None \<Rightarrow> N"
  have nc: "node_count s = N" using node_count_small [OF assms(1,4)] .
  have fnd: "find_named name 0 (node_count s) s = Inr ?r"
    using find_named_find [OF assms(5), of 0 N nms] assms(6) by (simp add: nc)
  have lb: "length bs = N" "bs \<noteq> []" using assms(3,9) by (auto simp: blocks_def)
  have N: "N * 184 \<le> 2 ^ 32" using assms(4) by simp
  let ?s = "fold copy_node [?i..<N - 1] s"
  have sh: "blocks (mem ?s) (root_nodes s) N = (case ?r of Some i \<Rightarrow> take i bs @ drop (Suc i) bs @ [last bs] | None \<Rightarrow> bs)
      \<and> (\<forall>x. \<not> in_range (root_nodes s) (N * 184) x \<longrightarrow> mem ?s x = mem s x) \<and> ?s = s\<lparr>mem := mem ?s\<rparr>"
  proof (cases ?r)
    case (Some i)
    then have "i < N" by (auto simp: find_Some_iff)
    from shift_nodes [OF this N, of s] show ?thesis using Some assms(9) by simp
  qed (simp add: assms(9))
  define m where "m = mem ?s"
  have s': "?s = s\<lparr>mem := m\<rparr>" using sh by (simp add: m_def)
  let ?t = "s\<lparr>mem := m\<rparr>"
  have m: "m x = mem s x" if "\<not> in_range (root_nodes s) (N * 184) x" for x using sh that by (simp add: m_def)
  have nf: "nfiles ?t = of_nat N"
    using assms(2) m apart_in_range [OF assms(7)] load32_cong [of "initrd_header s" m "mem s"]
    by (auto simp: nfiles_def peek_def)
  have gb: "gives_block n (N - 1) [(root_nodes ?t, N * 184), (initrd_header ?t, 4)] ?t" using assms(8) [OF m] by simp
  obtain p u where u: "malloc_s n (sizeof_node * (nfiles ?t - 1)) ?t = Inr (p, u)"
    and e: "let v = u\<lparr>mem := fst (memcpy (mem u) p (root_nodes u) (sizeof_node * (nfiles u - 1)))\<rparr>;
         v = set_nfiles (nfiles v - 1) v
     in nfiles v = of_nat (N - 1) \<and> root_nodes v = root_nodes s \<and> blocks (mem v) (root_nodes s) N = blocks m (root_nodes s) N"
    using close_end [OF nf assms(3,4) gb] assms(7) by auto
  let ?v = "u\<lparr>mem := fst (memcpy (mem u) p (root_nodes u) (sizeof_node * (nfiles u - 1)))\<rparr>"
  let ?w = "set_nfiles (nfiles ?v - 1) ?v"
  have w: "nfiles ?w = of_nat (N - 1)" "root_nodes ?w = root_nodes s" "blocks (mem ?w) (root_nodes s) N = blocks m (root_nodes s) N"
    using e by (simp_all add: Let_def)
  have run: "initrd_close n name s = Inr (?w\<lparr>nroot_nodes := nfiles ?w\<rparr>)"
    unfolding initrd_close_def Let_def nc fnd [unfolded nc] ebind_simps s' u prod.case ..
  have "blocks (mem ?w) (root_nodes s) (N - 1) = take (N - 1) (blocks m (root_nodes s) N)"
    using blocks_take [of "N - 1" N "mem ?w" "root_nodes s"] w(3) by simp
  also have "\<dots> = (case ?r of Some i \<Rightarrow> take i bs @ drop (Suc i) bs | None \<Rightarrow> butlast bs)"
  proof (cases ?r)
    case None
    then show ?thesis using sh lb by (simp add: m_def butlast_conv_take)
  next
    case (Some i)
    then have "i < N" by (auto simp: find_Some_iff)
    then show ?thesis using sh lb Some by (simp add: m_def)
  qed
  finally show ?thesis
    using run w(1,2) by (intro exI [of _ "?w\<lparr>nroot_nodes := nfiles ?w\<rparr>"]) (simp add: nfiles_def peek_def)
qed

lemma gives_block_before_heap:
  fixes s :: "'a ird"
  assumes "kheap s = None" and "clear_of (placement_address s) (k * 184) rs"
  shows "gives_block n k rs s"
  using assms(2) unfolding gives_block_def malloc_before_heap(1) [OF assms(1)] by (auto simp: same_on_def)

lemma demo_globals:
  "kheap (demo_with x) = None" "placement_address (demo_with x) = 0x8000" "root_nodes (demo_with x) = 0x2000"
  "initrd_header (demo_with x) = 0x3000" "nroot_nodes (demo_with x) = 1" "file_headers (demo_with x) = 0x3004"
  "nfiles (demo_with x) = 1"
proof -
  show g: "kheap (demo_with x) = None" "placement_address (demo_with x) = 0x8000" "root_nodes (demo_with x) = 0x2000"
    "initrd_header (demo_with x) = 0x3000" "nroot_nodes (demo_with x) = 1" "file_headers (demo_with x) = 0x3004"
    by (simp_all add: demo_with_def)
  show "nfiles (demo_with x) = 1"
    by (simp add: nfiles_def g peek_def demo_facts(1)) (simp add: load32_def demo_mem_def demo_bytes_def)
qed

theorem initrd_close_removes_witness:
  "\<exists>t. initrd_close 0 0x2000 demo = Inr t \<and> nroot_nodes t = 0 \<and> blocks (mem t) (root_nodes t) 0 = []"
proof -
  have a: "cstr (mem demo) 0x2000 (ascii ''a'')"
    by (simp add: demo_facts(1) ascii_def demo_mem_def demo_bytes_def)
  have N: "nroot_nodes demo = of_nat 1" "nfiles demo = of_nat 1" "0 < (1 :: nat)" "1 < (2 :: nat) ^ 20"
    by (simp_all add: demo_globals)
  have nms: "cstr (mem demo) (root_node demo (of_nat j)) (ascii ''a'')" if "j < 1" for j
    using that a by (simp add: demo_facts(2))
  have ap: "apart (root_nodes demo) (1 * 184) (initrd_header demo) 4" by (simp add: demo_globals apart_def)
  have gb: "gives_block 0 (1 - 1) [(root_nodes demo, 1 * 184), (initrd_header demo, 4)] (demo\<lparr>mem := m\<rparr>)" for m
    by (rule gives_block_before_heap) (simp_all add: demo_globals clear_of_def apart_def)
  show ?thesis
    using initrd_close_removes [where nms = "\<lambda>_. ascii ''a''", OF N a nms ap gb refl] by (auto simp: blocks_def)
qed

section \<open>The nodes of files\<close>

text \<open>A struct filled field by field: the offset and the value of each store.\<close>

definition pokes :: "u32 \<Rightarrow> (nat \<times> u32) list \<Rightarrow> 'a kmem \<Rightarrow> 'a kmem" where
  "pokes x ws s = fold (\<lambda>(j, v). poke (off x j) v) ws s"

lemma pokes_more: "pokes x ws s = s\<lparr>mem := mem (pokes x ws s)\<rparr>"
proof (induction ws arbitrary: s)
  case (Cons w ws)
  obtain j v where w: "w = (j, v)" by force
  have "pokes x (w # ws) s = pokes x ws (poke (off x j) v s)" by (simp add: pokes_def w)
  moreover have "(poke (off x j) v s)\<lparr>mem := m\<rparr> = s\<lparr>mem := m\<rparr>" for m by (simp add: poke_def)
  ultimately show ?case using Cons.IH [of "poke (off x j) v s"] by metis
qed (simp add: pokes_def)

lemma pokes_other:
  assumes "list_all (\<lambda>(j, v). a \<le> j \<and> j + 4 \<le> b) ws" and "b \<le> 2 ^ 32" and "\<not> in_range (off x a) (b - a) y"
  shows "mem (pokes x ws s) y = mem s y"
  using assms(1)
proof (induction ws arbitrary: s)
  case (Cons w ws)
  obtain j v where w: "w = (j, v)" by force
  then have j: "a \<le> j" "j + 4 \<le> b" using Cons.prems by simp_all
  have e: "off x j = off (off x a) (j - a)" using j by (simp add: off_def of_nat_diff)
  have "j - a + 4 \<le> b - a" "b - a \<le> 2 ^ 32" using j assms(2) by linarith+
  then have "\<not> in_range (off x j) 4 y"
    using in_range_off [of "off x a" "j - a" 4 y "b - a"] assms(3) unfolding e by auto
  then show ?case using Cons by (simp add: pokes_def w store32_other)
qed (simp add: pokes_def)

lemma pokes_peek:
  assumes "list_all (\<lambda>(j, v). 4 dvd j \<and> j + 4 \<le> 2 ^ 32) ws" and "distinct (List.map fst ws)" and "4 dvd i" and "i + 4 \<le> 2 ^ 32"
  shows "peek (pokes x ws s) (off x i) = (case map_of ws i of Some v \<Rightarrow> v | None \<Rightarrow> peek s (off x i))"
  using assms(1,2)
proof (induction ws arbitrary: s)
  case (Cons w ws)
  obtain j v where w: "w = (j, v)" by force
  have p: "peek (poke (off x j) v s) (off x i) = (if i = j then v else peek s (off x i))"
  proof (cases "i = j")
    case False
    then have "i + 4 \<le> j \<or> j + 4 \<le> i" using Cons.prems(1) assms(3) w by (auto elim!: dvdE)
    then show ?thesis using Cons.prems(1) assms(4) False w by (auto simp: peek_def off_simps)
  qed (simp add: peek_def load32_store32_same)
  have "map_of ws i = None" if "i = j" using that Cons.prems(2) w by (simp add: map_of_eq_None_iff)
  then show ?case using Cons.IH [of "poke (off x j) v s"] Cons.prems p w
    by (auto simp: pokes_def split: option.splits)
qed (simp add: pokes_def)

text \<open>What the stores into a file's node leave in it; nothing outside bytes 128 to 180 is written.\<close>

lemma set_file_node_pokes:
  "set_file_node img x len i = pokes x [(128, 0), (132, 0), (136, 0), (148, len), (144, i), (140, FS_FILE), (156, at_read img),
     (160, 0), (172, 0), (176, 0), (164, 0), (168, 0), (152, 0)]"
  by (simp add: fun_eq_iff set_file_node_def pokes_def Let_def)

lemma set_file_node_result:
  fixes s :: "'a ird"
  shows "node_flags (set_file_node img x len i s) x = FS_FILE" "node_inode (set_file_node img x len i s) x = i"
    "node_length (set_file_node img x len i s) x = len" "node_read (set_file_node img x len i s) x = at_read img"
    "\<not> in_range (off x 128) 52 y \<Longrightarrow> mem (set_file_node img x len i s) y = mem s y"
    "set_file_node img x len i s = s\<lparr>mem := mem (set_file_node img x len i s)\<rparr>"
  unfolding set_file_node_pokes node_flags_def node_inode_def node_length_def node_read_def
  by (simp_all add: pokes_peek pokes_other [where a = 128 and b = 180]) (rule pokes_more)

text \<open>The name copied and the fields stored, as \<open>initrd_open\<close> and \<open>initialise_initrd\<close> do: the name has no terminator.\<close>

lemma name_file_node:
  fixes s :: "'a ird"
  assumes c: "cstr (mem s) name nm" and nm: "nm \<noteq> []" "length nm < 128" and z: "x \<noteq> 0" "name \<noteq> 0"
    and ne: "\<And>i j. i < length nm \<Longrightarrow> j \<le> length nm \<Longrightarrow> x + of_nat i \<noteq> name + of_nat j"
  shows "\<exists>m q. strcpy (mem s) x name = Inr (m, q) \<and> (\<forall>y. \<not> in_range x 184 y \<longrightarrow> m y = mem s y)
    \<and> (\<forall>len i. let t = set_file_node img x len i (s\<lparr>mem := m\<rparr>) in t = s\<lparr>mem := mem t\<rparr>
       \<and> bytes_at (mem t) x (length nm) = nm \<and> mem t (x + of_nat (length nm)) = mem s (x + of_nat (length nm))
       \<and> node_flags t x = FS_FILE \<and> node_inode t x = i \<and> node_length t x = len \<and> node_read t x = at_read img
       \<and> (\<forall>y. \<not> in_range x 184 y \<longrightarrow> mem t y = mem s y))"
proof -
  let ?l = "length nm" and ?m = "memcpy_loop (mem s) x name (length nm)"
  have sc: "strcpy (mem s) x name = Inr (?m, x + of_nat ?l)" by (rule strcpy_cstr [OF c nm(1) z ne])
  have out: "?m y = mem s y" if "\<not> in_range x ?l y" for y using nm(2) that by (simp add: memcpy_loop_other)
  have out': "?m y = mem s y" if "\<not> in_range x 184 y" for y
    using out in_range_mono [of x ?l y 184] that nm(2) by auto
  have node: "let t = set_file_node img x len i (s\<lparr>mem := ?m\<rparr>) in t = s\<lparr>mem := mem t\<rparr>
       \<and> bytes_at (mem t) x ?l = nm \<and> mem t (x + of_nat ?l) = mem s (x + of_nat ?l)
       \<and> node_flags t x = FS_FILE \<and> node_inode t x = i \<and> node_length t x = len \<and> node_read t x = at_read img
       \<and> (\<forall>y. \<not> in_range x 184 y \<longrightarrow> mem t y = mem s y)" for len i
  proof -
    let ?t = "set_file_node img x len i (s\<lparr>mem := ?m\<rparr>)"
    note f = set_file_node_result [where img = img and x = x and len = len and i = i and s = "s\<lparr>mem := ?m\<rparr>"]
    have byte: "mem ?t (x + of_nat j) = ?m (x + of_nat j)" if "j < 128" for j
    proof -
      have "apart x 128 (off x 128) 52" using off_apart [of 0 128 128 52 x] by (simp add: off_def)
      then have "\<not> in_range (off x 128) 52 (x + of_nat j)"
        using apart_in_range [OF apart_sym [THEN iffD1]] in_range_offset [OF that, of x] by auto
      then show ?thesis using f(5) by simp
    qed
    have "mem ?t (x + of_nat j) = nm ! j" if j: "j < ?l" for j
    proof -
      have "?m (x + of_nat j) = mem s (name + of_nat j)" by (rule memcpy_loop_in) (use ne j nm(2) in auto)
      then show ?thesis using byte [of j] j nm(2) c by (simp add: cstr_iff)
    qed
    then have "bytes_at (mem ?t) x ?l = nm" by (intro bytes_at_eqI) simp_all
    moreover have "\<not> in_range x ?l (x + of_nat ?l)" using nm(2) by (simp add: in_range_def unat_of_nat_small)
    then have "mem ?t (x + of_nat ?l) = mem s (x + of_nat ?l)" using byte [of ?l] out nm(2) by simp
    moreover have "mem ?t y = mem s y" if "\<not> in_range x 184 y" for y
    proof -
      have "\<not> in_range (off x 128) 52 y" using that in_range_off [of x 128 52 y 184] by auto
      then show ?thesis using f(5) out' [OF that] by simp
    qed
    moreover have "?t = s\<lparr>mem := mem ?t\<rparr>" by (subst f(6)) simp
    ultimately show ?thesis using f(1-4) by (simp add: Let_def)
  qed
  show ?thesis using sc out' node by blast
qed

section \<open>Making a file\<close>

text \<open>
  Property C40. \<open>initrd_open\<close> makes the new node in the old array, right after its \<open>N\<close> nodes, although it has just
  allocated room for one more: it stores the name, the number \<open>N\<close> and the length 0 past the end of the
  array, and leaves the nodes of the array as they were.
\<close>

theorem initrd_open_past_array:
  fixes s :: "'a ird"
  assumes "nfiles s = of_nat N" and "N < 2 ^ 20" and "cstr (mem s) name nm" and "nm \<noteq> []" and "length nm < 128"
    and "name \<noteq> 0" and "x = root_nodes s + of_nat (N * 184)" and "x \<noteq> 0"
    and "apart (root_nodes s) (Suc N * 184) (initrd_header s) 4" and "apart (root_nodes s) (Suc N * 184) name (Suc (length nm))"
    and "apart (initrd_header s) 4 name (Suc (length nm))"
    and "gives_block n (N + 1) [(root_nodes s, N * 184), (initrd_header s, 4), (name, Suc (length nm))] s"
  shows "\<exists>t. initrd_open img n name s = Inr (x, t) \<and> root_nodes t = root_nodes s \<and> nroot_nodes t = of_nat (N + 1)
    \<and> blocks (mem t) (root_nodes s) N = blocks (mem s) (root_nodes s) N
    \<and> bytes_at (mem t) x (length nm) = nm \<and> node_inode t x = of_nat N \<and> node_length t x = 0
    \<and> node_flags t x = FS_FILE \<and> node_read t x = at_read img"
proof -
  let ?b = "root_nodes s" and ?h = "initrd_header s" and ?k = "(N + 1) * 184" and ?l = "length nm"
  have x: "x = node_at ?b N" by (simp add: assms(7) node_at_def off_def)
  obtain kw :: u32 where kw: "kw = of_nat ?k" by simp
  have sz: "sizeof_node * (of_nat N + 1) = kw" by (simp add: kw sizeof_node_def)
  obtain p u where u: "malloc_s n kw s = Inr (p, u)"
    and same: "same_on [(?b, N * 184), (?h, 4), (name, Suc ?l)] (mem u) (mem s)"
    and cl: "clear_of p ?k [(?b, N * 184), (?h, 4), (name, Suc ?l)]"
    using assms(12) unfolding gives_block_def kw by auto
  note k = kept_initrd [OF malloc_kept(1) [OF u]]
  obtain cw where cw: "cw = sizeof_node * nfiles u" by simp
  have cwl: "unat cw \<le> ?k"
  proof -
    have "nfiles u = of_nat N"
      using assms(1) same_on_range [OF same, of ?h 4] load32_cong [of ?h "mem u" "mem s"] k(1)
      by (auto simp: nfiles_def peek_def)
    then have "cw = of_nat (N * 184)" by (simp add: cw sizeof_node_def)
    then show ?thesis using assms(2) by (simp add: unat_of_nat_small del: of_nat_mult)
  qed
  let ?m1 = "fst (memcpy (mem u) p (root_nodes u) cw)"
  have m1: "same_on [(?b, N * 184), (?h, 4), (name, Suc ?l)] ?m1 (mem s)"
  proof -
    have "?m1 y = mem u y" if "\<not> in_range p ?k y" for y
      unfolding memcpy_def fst_conv by (rule memcpy_loop_other) (use that cwl in_range_mono assms(2) in auto)
    then have "same_on [(?b, N * 184), (?h, 4), (name, Suc ?l)] ?m1 (mem u)" by (rule same_on_clear [OF cl])
    with same show ?thesis by (fastforce simp: same_on_def)
  qed
  let ?s1 = "u\<lparr>mem := ?m1\<rparr>"
  have nf: "nfiles ?s1 = of_nat N"
    using assms(1) same_on_range [OF m1, of ?h 4] load32_cong [of ?h ?m1 "mem s"] k(1)
    by (auto simp: nfiles_def peek_def)
  let ?s2 = "set_nfiles (of_nat N + 1) ?s1"
  have s2: "nfiles ?s2 = of_nat N + 1" "root_nodes ?s2 = ?b" "mem ?s2 = store32 ?m1 ?h (of_nat N + 1)"
    using k by (simp_all add: nfiles_def set_nfiles_def peek_def load32_store32_same)
  let ?s3 = "?s2\<lparr>nroot_nodes := of_nat N + 1\<rparr>"
  have rx: "root_node ?s3 (of_nat N) = x" using root_node_at [of ?s3 N] s2(2) x by simp
  have m2: "same_on [(?b, N * 184), (name, Suc ?l)] (mem ?s3) (mem s)"
  proof -
    have "clear_of ?h 4 [(?b, N * 184), (name, Suc ?l)]"
      using assms(9,11) apart_sub by (auto simp: clear_of_def apart_def)
    from same_on_clear [OF this, of "mem ?s3" ?m1] have "same_on [(?b, N * 184), (name, Suc ?l)] (mem ?s3) ?m1"
      using s2(3) by (simp add: store32_other)
    with m1 show ?thesis by (fastforce simp: same_on_def)
  qed
  have c: "cstr (mem ?s3) name nm"
    using same_on_cstr [OF m2, of name "Suc ?l" nm] assms(3,5) by simp
  have xr: "in_range ?b (Suc N * 184) y" if "in_range x 184 y" for y
    using node_in_array [of ?b N y "Suc N"] that x assms(2) by simp
  have ne: "x + of_nat i \<noteq> name + of_nat j" if "i < ?l" "j \<le> ?l" for i j
    using apart_in_range [OF assms(10) in_range_offset [of j "Suc ?l" name]] xr [OF in_range_offset [of i 184 x]] that assms(5) by auto
  have s3: "mem ?s3 = mem ?s2" by simp
  obtain m3 q where sc: "strcpy (mem ?s3) x name = Inr (m3, q)"
    and node: "\<And>len i. let t = set_file_node img x len i (?s3\<lparr>mem := m3\<rparr>) in t = ?s3\<lparr>mem := mem t\<rparr>
       \<and> bytes_at (mem t) x ?l = nm \<and> mem t (x + of_nat ?l) = mem ?s3 (x + of_nat ?l)
       \<and> node_flags t x = FS_FILE \<and> node_inode t x = i \<and> node_length t x = len \<and> node_read t x = at_read img
       \<and> (\<forall>y. \<not> in_range x 184 y \<longrightarrow> mem t y = mem ?s3 y)"
    using name_file_node [where img = img, OF c assms(4,5,8,6) ne] by blast
  obtain t where t: "t = set_file_node img x 0 (of_nat N) (?s3\<lparr>mem := m3\<rparr>)" by simp
  note f = node [of 0 "of_nat N", folded t, unfolded Let_def]
  have run: "initrd_open img n name s = Inr (x, t)"
    unfolding initrd_open_def assms(1) sz Let_def
    by (simp add: u cw [symmetric] nf s2(1) rx sc [unfolded s3] t)
  have bl: "blocks (mem t) ?b N = blocks (mem s) ?b N"
  proof (rule blocks_cong)
    fix y assume y: "in_range ?b (N * 184) y"
    then have "0 < N" by (cases "N = 0") (simp_all add: in_range_def)
    then have "apart ?b (N * 184) x 184" unfolding x node_at_def
      using off_apart [of 0 "N * 184" "N * 184" 184 ?b] assms(2) by (simp add: off_def)
    then have "\<not> in_range x 184 y" using apart_in_range [OF apart_sym [THEN iffD1] y] by blast
    then have "mem t y = mem ?s3 y" using f by blast
    then show "mem t y = mem s y" using same_on_range [OF m2 _ y] by simp
  qed (use assms(2) in simp)
  have "t = ?s3\<lparr>mem := mem t\<rparr>" using f by blast
  note tt = this
  have "root_nodes t = ?b" "nroot_nodes t = of_nat (N + 1)" by (subst tt, use s2(2) in simp)+
  then show ?thesis using run bl f by blast
qed

theorem initrd_open_past_array_witness:
  "\<exists>t. initrd_open demo_image 0 0x300 demo = Inr (0x20B8, t) \<and> root_nodes t = 0x2000 \<and> node_inode t 0x20B8 = 1
    \<and> bytes_at (mem t) 0x20B8 (length (ascii ''dev'')) = ascii ''dev''"
proof -
  have N: "nfiles demo = of_nat 1" "1 < (2 :: nat) ^ 20" by (simp_all add: demo_globals)
  have c: "cstr (mem demo) 0x300 (ascii ''dev'')" by (simp add: demo_facts(1) ascii_def demo_mem_def demo_bytes_def)
  have l: "ascii ''dev'' \<noteq> []" "length (ascii ''dev'') < 128" "Suc (length (ascii ''dev'')) = 4" by (simp_all add: ascii_def)
  have x: "(0x300 :: u32) \<noteq> 0" "0x20B8 = root_nodes demo + of_nat (1 * 184)" "(0x20B8 :: u32) \<noteq> 0" by (simp_all add: demo_globals)
  have ap: "apart (root_nodes demo) (Suc 1 * 184) (initrd_header demo) 4"
    "apart (root_nodes demo) (Suc 1 * 184) 0x300 (Suc (length (ascii ''dev'')))"
    "apart (initrd_header demo) 4 0x300 (Suc (length (ascii ''dev'')))"
    unfolding l(3) by (simp_all add: demo_globals apart_def)
  have gb: "gives_block 0 (1 + 1) [(root_nodes demo, 1 * 184), (initrd_header demo, 4), (0x300, Suc (length (ascii ''dev'')))] demo"
    unfolding l(3) by (rule gives_block_before_heap) (simp_all add: demo_globals clear_of_def apart_def)
  from initrd_open_past_array [OF N c l(1,2) x ap gb, of demo_image]
  show ?thesis by (auto simp: demo_globals)
qed

section \<open>Mounting\<close>

text \<open>
  The file numbered \<open>k\<close>, with its header at \<open>h\<close>, has been entered as the node \<open>x\<close>: \<open>m0\<close> is the memory
  before and \<open>m\<close> after.
\<close>

definition file_entered :: "image \<Rightarrow> u32 \<Rightarrow> memory \<Rightarrow> memory \<Rightarrow> u32 \<Rightarrow> u32 \<Rightarrow> nat \<Rightarrow> u8 list \<Rightarrow> bool" where
  "file_entered img loc m0 m h x k nm \<longleftrightarrow> bytes_at m x (length nm) = nm
     \<and> m (x + of_nat (length nm)) = m0 (x + of_nat (length nm))
     \<and> load32 m (off x 140) = FS_FILE \<and> load32 m (off x 144) = of_nat k
     \<and> load32 m (off x 148) = load32 m0 (off h 72) \<and> load32 m (off x 156) = at_read img
     \<and> load32 m (off h 68) = load32 m0 (off h 68) + loc \<and> load32 m (off h 72) = load32 m0 (off h 72)"

lemma load32_same_on:
  assumes "same_on rs m m'" and "(b, n) \<in> set rs" and "i + 4 \<le> n" and "n \<le> 2 ^ 32"
  shows "load32 m (off b i) = load32 m' (off b i)"
  by (rule load32_cong) (use assms in_range_off [of b i 4 _ n] same_on_range in auto)

lemma file_entered_same:
  assumes "same_on [(h, 76), (x, 184)] m' m" and "length nm < 128"
  shows "file_entered img loc m0 m' h x k nm = file_entered img loc m0 m h x k nm"
proof -
  have b: "m' (x + of_nat i) = m (x + of_nat i)" if "i < 184" for i
    by (rule same_on_byte [OF assms(1) _ that]) simp_all
  then have "bytes_at m' x (length nm) = bytes_at m x (length nm)"
    by (intro bytes_at_eqI) (use assms(2) in \<open>simp_all add: nth_bytes_at\<close>)
  moreover have "load32 m' (off x j) = load32 m (off x j)" if "j + 4 \<le> 184" for j
    by (rule load32_same_on [OF assms(1) _ that]) simp_all
  moreover have "load32 m' (off h j) = load32 m (off h j)" if "j + 4 \<le> 76" for j
    by (rule load32_same_on [OF assms(1) _ that]) simp_all
  ultimately show ?thesis using b [of "length nm"] assms(2) by (simp add: file_entered_def)
qed

lemma mount_file_result:
  fixes s :: "'a ird"
  assumes "file_header s (of_nat k) = h" and "root_node s (of_nat k) = x"
    and "cstr (mem s) (off h 1) nm" and "nm \<noteq> []" and "length nm < 64" and "off h 1 \<noteq> 0" and "x \<noteq> 0"
    and "apart h 76 x 184"
  shows "\<exists>t. mount_file img loc k s = Inr t \<and> t = s\<lparr>mem := mem t\<rparr> \<and> file_entered img loc (mem s) (mem t) h x k nm
    \<and> (\<forall>y. \<not> in_range h 76 y \<and> \<not> in_range x 184 y \<longrightarrow> mem t y = mem s y)"
proof -
  let ?l = "length nm" and ?v = "header_offset s h + loc"
  let ?s1 = "poke (off h 68) ?v s"
  have c: "cstr (mem ?s1) (off h 1) nm"
  proof -
    have "\<not> in_range (off h 68) 4 (off h 1 + of_nat i)" if "i \<le> ?l" for i
      using apart_in_range [OF off_apart [of "1 + i" 1 68 4 h, THEN apart_sym [THEN iffD1]]] that assms(5)
      by (simp add: in_range_1 off_def add.assoc)
    then have "mem ?s1 (off h 1 + of_nat i) = mem s (off h 1 + of_nat i)" if "i \<le> ?l" for i
      using that by (simp add: store32_other)
    then show ?thesis using assms(3) cstr_cong [of nm "mem ?s1" "off h 1" "mem s"] by blast
  qed
  have hx: "\<not> in_range h 76 (x + of_nat i)" if "i < 184" for i
    using apart_in_range [OF assms(8) in_range_offset [OF that, of x]] by simp
  have ne: "x + of_nat i \<noteq> off h 1 + of_nat j" if "i < ?l" "j \<le> ?l" for i j
  proof -
    have "in_range h 76 (h + of_nat (Suc j))" using that(2) assms(5) by (intro in_range_offset) simp_all
    moreover have "h + of_nat (Suc j) = off h 1 + of_nat j" by (simp add: off_def add.assoc)
    moreover have "\<not> in_range h 76 (x + of_nat i)" using hx [of i] that(1) assms(5) by simp
    ultimately show ?thesis by metis
  qed
  obtain m q where sc: "strcpy (mem ?s1) x (off h 1) = Inr (m, q)"
    and mo: "\<And>y. \<not> in_range x 184 y \<Longrightarrow> m y = mem ?s1 y"
    and node: "\<And>len i. let t = set_file_node img x len i (?s1\<lparr>mem := m\<rparr>) in t = ?s1\<lparr>mem := mem t\<rparr>
       \<and> bytes_at (mem t) x ?l = nm \<and> mem t (x + of_nat ?l) = mem ?s1 (x + of_nat ?l)
       \<and> node_flags t x = FS_FILE \<and> node_inode t x = i \<and> node_length t x = len \<and> node_read t x = at_read img
       \<and> (\<forall>y. \<not> in_range x 184 y \<longrightarrow> mem t y = mem ?s1 y)"
    using name_file_node [where img = img, OF c assms(4) _ assms(7,6) ne] assms(5) by force
  let ?s2 = "s\<lparr>mem := m\<rparr>"
  have s2: "?s1\<lparr>mem := m\<rparr> = ?s2" by (simp add: poke_def)
  obtain t where t: "t = set_file_node img x (header_length ?s2 h) (of_nat k) ?s2" by simp
  note f = node [of "header_length ?s2 h" "of_nat k", unfolded s2, folded t, unfolded Let_def]
  have run: "mount_file img loc k s = Inr t"
    unfolding mount_file_def assms(1,2) Let_def sc ebind_simps prod.case s2 t ..
  have hm: "m y = mem ?s1 y \<and> mem t y = mem ?s1 y" if "in_range h 76 y" for y
  proof -
    have "\<not> in_range x 184 y" using apart_in_range [OF assms(8) [THEN apart_sym [THEN iffD1]] that] .
    then show ?thesis using mo f by blast
  qed
  have ld: "load32 (mem t) (off h j) = load32 (mem ?s1) (off h j)" "load32 m (off h j) = load32 (mem ?s1) (off h j)" if "j + 4 \<le> 76" for j
    using hm in_range_off [of h j 4 _ 76] that by (auto intro!: load32_cong)
  have s1: "load32 (mem ?s1) (off h 68) = ?v" "load32 (mem ?s1) (off h 72) = load32 (mem s) (off h 72)"
    by (simp_all add: off_simps)
  have out1: "mem ?s1 y = mem s y" if "\<not> in_range h 76 y" for y
  proof -
    have "\<not> in_range (off h 68) 4 y" using that in_range_off [of h 68 4 y 76] by auto
    then show ?thesis by (simp add: store32_other)
  qed
  have nul: "mem t (x + of_nat ?l) = mem s (x + of_nat ?l)" using f out1 hx [of ?l] assms(5) by simp
  have "file_entered img loc (mem s) (mem t) h x k nm"
    using f nul ld(1) [of 68] ld(1) [of 72] ld(2) [of 72] s1
    by (simp add: file_entered_def node_flags_def node_inode_def node_length_def node_read_def header_length_def header_offset_def peek_def)
  moreover have "mem t y = mem s y" if "\<not> in_range h 76 y" "\<not> in_range x 184 y" for y
    using f out1 [OF that(1)] that(2) by simp
  moreover have "t = s\<lparr>mem := mem t\<rparr>"
  proof -
    have "t = ?s1\<lparr>mem := mem t\<rparr>" using f by blast
    moreover have "?s1\<lparr>mem := m'\<rparr> = s\<lparr>mem := m'\<rparr>" for m' by (simp add: poke_def)
    ultimately show ?thesis by metis
  qed
  ultimately show ?thesis using run by blast
qed

lemma mount_files_append:
  "mount_files img loc (is @ js) s = ebind (mount_files img loc is s) (mount_files img loc js)"
proof (induction "is" arbitrary: s)
  case (Cons i "is")
  show ?case by (cases "mount_file img loc i s") (simp_all add: Cons.IH)
qed simp

lemma headers_apart:
  assumes "i \<noteq> j" and "Suc i * 76 \<le> 2 ^ 32" and "Suc j * 76 \<le> 2 ^ 32"
  shows "apart (off b (i * 76)) 76 (off b (j * 76)) 76"
proof -
  have *: "apart (off b (a * 76)) 76 (off b (c * 76)) 76" if "a < c" "Suc c * 76 \<le> 2 ^ 32" for a c :: nat
  proof -
    have "a * 76 + 76 \<le> c * 76" using that(1) by simp
    then show ?thesis by (rule off_apart) (use that(2) in simp_all)
  qed
  from assms(1) consider "i < j" | "j < i" by linarith
  then show ?thesis using *[of i j] *[of j i] assms(2,3) by cases (simp_all add: apart_sym)
qed

lemma mount_ranges:
  assumes "N < 2 ^ 20" and "apart fh (N * 76) rn (N * 184)" and "i < N" and "k < N"
  shows "apart (off fh (i * 76)) 76 (node_at rn k) 184"
    and "i \<noteq> k \<Longrightarrow> apart (node_at rn i) 184 (node_at rn k) 184"
    and "i \<noteq> k \<Longrightarrow> apart (off fh (i * 76)) 76 (off fh (k * 76)) 76"
proof -
  have l: "i * 76 + 76 \<le> N * 76" "k * 184 + 184 \<le> N * 184" "N * 76 \<le> 2 ^ 32" "N * 184 \<le> 2 ^ 32" "0 < N * 184"
    using assms(1,3,4) by simp_all
  have "apart (off fh (i * 76)) 76 rn (N * 184)" by (rule apart_sub [OF assms(2) l(1,3,4,5)]) simp
  then have "apart (off rn (k * 184)) 184 (off fh (i * 76)) 76"
    by (intro apart_sub [OF _ l(2,4)]) (simp_all add: apart_sym)
  then show "apart (off fh (i * 76)) 76 (node_at rn k) 184" by (simp add: node_at_def apart_sym)
  show "apart (node_at rn i) 184 (node_at rn k) 184" if "i \<noteq> k"
    using nodes_apart [OF that] assms(1,3,4) by simp
  show "apart (off fh (i * 76)) 76 (off fh (k * 76)) 76" if "i \<noteq> k"
    using headers_apart [OF that] assms(1,3,4) by simp
qed

text \<open>After the first \<open>i\<close> rounds of the loop: the files entered, and all else as it was.\<close>

definition entered_upto :: "image \<Rightarrow> u32 \<Rightarrow> (nat \<Rightarrow> u32) \<Rightarrow> (nat \<Rightarrow> u32) \<Rightarrow> (nat \<Rightarrow> u8 list) \<Rightarrow> nat \<Rightarrow> 'a ird \<Rightarrow> 'a ird \<Rightarrow> bool" where
  "entered_upto img loc h x nms i s t \<longleftrightarrow> t = s\<lparr>mem := mem t\<rparr>
     \<and> (\<forall>k < i. file_entered img loc (mem s) (mem t) (h k) (x k) k (nms k))
     \<and> (\<forall>y. (\<forall>k < i. \<not> in_range (h k) 76 y \<and> \<not> in_range (x k) 184 y) \<longrightarrow> mem t y = mem s y)"

lemma file_entered_before:
  assumes "file_entered img loc m1 m h x k nm" and "length nm < 128"
    and same: "\<And>y. in_range h 76 y \<or> in_range x 184 y \<Longrightarrow> m1 y = m0 y"
  shows "file_entered img loc m0 m h x k nm"
proof -
  have "load32 m1 (off h j) = load32 m0 (off h j)" if "j + 4 \<le> 76" for j
    using same in_range_off [of h j 4 _ 76] that by (auto intro!: load32_cong)
  moreover have "in_range x 184 (x + of_nat (length nm))" using assms(2) by (intro in_range_offset) auto
  ultimately show ?thesis using assms(1) same by (simp add: file_entered_def)
qed

lemma entered_next:
  fixes s t :: "'a ird"
  assumes N: "N < 2 ^ 20" and ap: "apart (file_headers s) (N * 76) (root_nodes s) (N * 184)" and i: "i < N"
    and h: "\<And>k. h k = off (file_headers s) (k * 76)" and x: "\<And>k. x k = node_at (root_nodes s) k"
    and ok: "\<And>k. k < N \<Longrightarrow> cstr (mem s) (off (h k) 1) (nms k) \<and> nms k \<noteq> [] \<and> length (nms k) < 64 \<and> off (h k) 1 \<noteq> 0 \<and> x k \<noteq> 0"
    and t: "entered_upto img loc h x nms i s t"
  shows "\<exists>u. mount_file img loc i t = Inr u \<and> entered_upto img loc h x nms (Suc i) s u"
proof -
  have ts: "t = s\<lparr>mem := mem t\<rparr>" using t by (simp add: entered_upto_def)
  have r: "apart (h j) 76 (x k) 184" "j \<noteq> k \<Longrightarrow> apart (x j) 184 (x k) 184" "j \<noteq> k \<Longrightarrow> apart (h j) 76 (h k) 76" if "j < N" "k < N" for j k
    unfolding h x using mount_ranges [OF N ap that] by simp_all
  have dis: "\<not> in_range (h k) 76 y \<and> \<not> in_range (x k) 184 y"
    if jk: "j < N" "k < N" "j \<noteq> k" and y: "in_range (h j) 76 y \<or> in_range (x j) 184 y" for j k y
    using y
  proof
    assume y: "in_range (h j) 76 y"
    show ?thesis
      using apart_in_range [OF r(3) [OF jk(2,1) jk(3) [symmetric]] y] apart_in_range [OF r(1) [OF jk(1,2), THEN apart_sym [THEN iffD1]] y] ..
  next
    assume y: "in_range (x j) 184 y"
    show ?thesis
      using apart_in_range [OF r(1) [OF jk(2,1)] y] apart_in_range [OF r(2) [OF jk(2,1) jk(3) [symmetric]] y] ..
  qed
  have old: "mem t y = mem s y" if y: "in_range (h i) 76 y \<or> in_range (x i) 184 y" for y
  proof -
    have "\<forall>k < i. \<not> in_range (h k) 76 y \<and> \<not> in_range (x k) 184 y" using dis [OF i _ _ y] i by auto
    then show ?thesis using t by (simp add: entered_upto_def)
  qed
  have tt: "file_header t (of_nat i) = h i" "root_node t (of_nat i) = x i"
    by (subst ts, simp add: file_header_def h off_def, subst root_node_at, subst ts, simp add: x)
  have "mem t (off (h i) 1 + of_nat j) = mem s (off (h i) 1 + of_nat j)" if "j \<le> length (nms i)" for j
    using old in_range_offset [of "Suc j" 76 "h i"] that ok [OF i] by (simp add: off_def add.assoc)
  then have c: "cstr (mem t) (off (h i) 1) (nms i)"
    using ok [OF i] cstr_cong [of "nms i" "mem t" "off (h i) 1" "mem s"] by blast
  obtain u where u: "mount_file img loc i t = Inr u" "u = t\<lparr>mem := mem u\<rparr>"
    "file_entered img loc (mem t) (mem u) (h i) (x i) i (nms i)"
    "\<And>y. \<not> in_range (h i) 76 y \<Longrightarrow> \<not> in_range (x i) 184 y \<Longrightarrow> mem u y = mem t y"
    using mount_file_result [OF tt c _ _ _ _ r(1) [OF i i], of img loc] ok [OF i] by auto
  have new: "file_entered img loc (mem s) (mem u) (h i) (x i) i (nms i)"
    by (rule file_entered_before [OF u(3) _ old]) (use ok [OF i] in auto)
  have keep: "file_entered img loc (mem s) (mem u) (h k) (x k) k (nms k)" if k: "k < i" for k
  proof -
    have "mem u y = mem t y" if "in_range (h k) 76 y \<or> in_range (x k) 184 y" for y
      using u(4) dis [of k i y] that k i by auto
    then have "same_on [(h k, 76), (x k, 184)] (mem u) (mem t)" by (auto simp: same_on_def)
    moreover have "length (nms k) < 128" using ok [of k] k i by auto
    ultimately show ?thesis using file_entered_same t k unfolding entered_upto_def by blast
  qed
  have "u = s\<lparr>mem := mem u\<rparr>"
  proof -
    have "t\<lparr>mem := m\<rparr> = s\<lparr>mem := m\<rparr>" for m by (subst ts) simp
    with u(2) show ?thesis by metis
  qed
  moreover have "mem u y = mem s y" if out: "\<forall>k < Suc i. \<not> in_range (h k) 76 y \<and> \<not> in_range (x k) 184 y" for y
    using u(4) [of y] t out less_SucI by (simp add: entered_upto_def)
  moreover have "file_entered img loc (mem s) (mem u) (h k) (x k) k (nms k)" if "k < Suc i" for k
    using that new keep by (cases "k = i") (simp, simp add: less_Suc_eq)
  ultimately show ?thesis using u(1) unfolding entered_upto_def by blast
qed

lemma mount_files_result:
  fixes s :: "'a ird"
  assumes "N < 2 ^ 20" and "apart (file_headers s) (N * 76) (root_nodes s) (N * 184)"
    and "\<And>k. h k = off (file_headers s) (k * 76)" and "\<And>k. x k = node_at (root_nodes s) k"
    and "\<And>k. k < N \<Longrightarrow> cstr (mem s) (off (h k) 1) (nms k) \<and> nms k \<noteq> [] \<and> length (nms k) < 64 \<and> off (h k) 1 \<noteq> 0 \<and> x k \<noteq> 0"
  shows "\<exists>t. mount_files img loc [0..<N] s = Inr t \<and> t = s\<lparr>mem := mem t\<rparr>
    \<and> (\<forall>k < N. file_entered img loc (mem s) (mem t) (h k) (x k) k (nms k))
    \<and> (\<forall>y. \<not> in_range (file_headers s) (N * 76) y \<and> \<not> in_range (root_nodes s) (N * 184) y \<longrightarrow> mem t y = mem s y)"
proof -
  have hin: "in_range (file_headers s) (N * 76) y" if "in_range (h k) 76 y" "k < N" for k y
    using in_range_off [OF that(1) [unfolded assms(3)], of "N * 76"] that(2) assms(1) by simp
  have xin: "in_range (root_nodes s) (N * 184) y" if "in_range (x k) 184 y" "k < N" for k y
    using node_in_array [OF that(1) [unfolded assms(4)] that(2)] assms(1) by simp
  have "\<exists>t. mount_files img loc [0..<i] s = Inr t \<and> entered_upto img loc h x nms i s t" if "i \<le> N" for i
    using that
  proof (induction i)
    case (Suc i)
    then obtain t where t: "mount_files img loc [0..<i] s = Inr t" "entered_upto img loc h x nms i s t" by auto
    from entered_next [OF assms(1,2) _ assms(3-5) t(2)] Suc.prems
    obtain u where "mount_file img loc i t = Inr u" "entered_upto img loc h x nms (Suc i) s u" by auto
    then show ?case using t(1) by (auto simp: mount_files_append)
  qed (simp add: entered_upto_def)
  then obtain t where t: "mount_files img loc [0..<N] s = Inr t" "entered_upto img loc h x nms N s t" by blast
  then show ?thesis using hin xin unfolding entered_upto_def by blast
qed

text \<open>
  The loop of \<open>initialise_initrd\<close> over the files returns and enters each one: the node has the
  number, the length and the operations, the header's offset has become an address, and nothing but
  the table of headers and the array of nodes is written. The name is copied without its terminator,
  so the node names the file only if the array already holds a NUL there.
\<close>

theorem mount_files_enters_files:
  fixes s :: "'a ird"
  assumes "N < 2 ^ 20" and "apart (file_headers s) (N * 76) (root_nodes s) (N * 184)"
    and "\<And>k. h k = off (file_headers s) (k * 76)" and "\<And>k. x k = node_at (root_nodes s) k"
    and "\<And>k. k < N \<Longrightarrow> cstr (mem s) (off (h k) 1) (nms k) \<and> nms k \<noteq> [] \<and> length (nms k) < 64 \<and> off (h k) 1 \<noteq> 0 \<and> x k \<noteq> 0"
  shows "\<exists>t. mount_files img loc [0..<N] s = Inr t \<and> t = s\<lparr>mem := mem t\<rparr>
    \<and> (\<forall>k < N. file_entered img loc (mem s) (mem t) (h k) (x k) k (nms k))
    \<and> (\<forall>y. \<not> in_range (file_headers s) (N * 76) y \<and> \<not> in_range (root_nodes s) (N * 184) y \<longrightarrow> mem t y = mem s y)"
  using mount_files_result [OF assms] .

theorem mount_files_enters_files_witness:
  "\<exists>t. mount_files demo_image 7 [0..<1] (demo\<lparr>mem := demo_mem(0x3005 := 97)\<rparr>) = Inr t
    \<and> file_entered demo_image 7 (demo_mem(0x3005 := 97)) (mem t) 0x3004 0x2000 0 (ascii ''a'')"
proof -
  let ?s = "demo\<lparr>mem := demo_mem(0x3005 := 97)\<rparr>"
  have g: "file_headers ?s = 0x3004" "root_nodes ?s = 0x2000" "mem ?s = demo_mem(0x3005 := 97)"
    by (simp_all add: demo_with_def)
  have "cstr (mem ?s) (off (off (file_headers ?s) (0 * 76)) 1) (ascii ''a'')"
    unfolding g by (simp add: off_def ascii_def demo_mem_def demo_bytes_def)
  moreover have "apart (file_headers ?s) (1 * 76) (root_nodes ?s) (1 * 184)"
    unfolding g by (simp add: apart_def)
  moreover have "off (file_headers ?s) (0 * 76) = 0x3004" "node_at (root_nodes ?s) 0 = 0x2000"
    unfolding g by (simp_all add: off_def node_at_def)
  ultimately show ?thesis
    using mount_files_enters_files [of 1 ?s "\<lambda>k. off (file_headers ?s) (k * 76)" "node_at (root_nodes ?s)" "\<lambda>_. ascii ''a''" demo_image 7]
    by (auto simp: g off_def ascii_def)
qed

end
