(* ===== verification/Initrd_Mount.thy ===== *)
theory Initrd_Mount
  imports Initrd_Changes
begin

text \<open>
  \<open>initialise_initrd\<close> of \<open>src/src/initrd.c\<close> as a whole: from an image in memory and an allocator that
  gives it three blocks, to the state in which the files are mounted.
\<close>

section \<open>The image and the allocator\<close>

text \<open>The header of the file numbered \<open>i\<close>, and the bytes its contents take up.\<close>

definition header_at :: "u32 \<Rightarrow> nat \<Rightarrow> u32" where
  "header_at loc i = off (loc + 4) (i * 76)"

definition content_at :: "memory \<Rightarrow> u32 \<Rightarrow> (u8 list \<times> u8 list) list \<Rightarrow> nat \<Rightarrow> u32 \<times> nat" where
  "content_at m loc files i = (load32 m (off (header_at loc i) 68) + loc, length (snd (files ! i)))"

text \<open>The image at \<open>loc\<close> holds the files.\<close>

definition on_image :: "memory \<Rightarrow> u32 \<Rightarrow> (u8 list \<times> u8 list) list \<Rightarrow> bool" where
  "on_image m loc files \<longleftrightarrow> length files < 2 ^ 20 \<and> load32 m loc = of_nat (length files)
     \<and> list_all (\<lambda>i. cstr m (off (header_at loc i) 1) (fst (files ! i)) \<and> fst (files ! i) \<noteq> [] \<and> length (fst (files ! i)) < 64
          \<and> off (header_at loc i) 1 \<noteq> 0 \<and> unat (load32 m (off (header_at loc i) 72)) = length (snd (files ! i))
          \<and> bytes_at m (fst (content_at m loc files i)) (length (snd (files ! i))) = snd (files ! i)) [0..<length files]"

definition contents :: "memory \<Rightarrow> u32 \<Rightarrow> (u8 list \<times> u8 list) list \<Rightarrow> (u32 \<times> nat) list" where
  "contents m loc files = List.map (content_at m loc files) [0..<length files]"

text \<open>
  What is asked of the allocator: asked for blocks of these sizes one after the other, it gives cleared
  blocks apart from each other and from the ranges \<open>rs\<close>, which it leaves alone, whatever the caller
  writes into the blocks it has got.
\<close>

definition same_kernel :: "'a ird \<Rightarrow> 'a ird \<Rightarrow> bool" where
  "same_kernel s t \<longleftrightarrow> kernel_memory.truncate t = (kernel_memory.truncate s)\<lparr>mem := mem t\<rparr>"

primrec allots :: "nat \<Rightarrow> nat list \<Rightarrow> (u32 \<times> nat) list \<Rightarrow> 'a ird \<Rightarrow> bool" where
  "allots n [] rs s \<longleftrightarrow> True"
| "allots n (k # ks) rs s \<longleftrightarrow> (\<exists>p u. malloc_s n (of_nat k) s = Inr (p, u) \<and> same_on rs (mem u) (mem s) \<and> clear_of p k rs
     \<and> (\<forall>y. in_range p k y \<longrightarrow> y \<noteq> 0 \<and> mem u y = 0)
     \<and> (\<forall>t. same_kernel u t \<and> (\<forall>y. \<not> in_range p k y \<longrightarrow> mem t y = mem u y) \<longrightarrow> allots n ks ((p, k) # rs) t))"

text \<open>Before the heap exists, it is enough that the memory from \<open>placement_address\<close> on is cleared and free.\<close>

lemma clear_of_part:
  assumes "clear_of p n rs" and "i + k \<le> n" and "0 < k" and "list_all (\<lambda>(b, m). 0 < m) rs"
  shows "clear_of (off p i) k rs"
proof -
  have "apart (off p i) k b m" if "(b, m) \<in> set rs" for b m
  proof -
    have a: "apart p n b m" and m: "0 < m" using assms(1,4) that by (auto simp: clear_of_def list_all_iff)
    then have "n < 2 ^ 32" "m < 2 ^ 32"
      using unat_u32_lt [of "b - p"] unat_u32_lt [of "p - b"] by (auto simp: apart_def simp del: unat_u32_lt)
    then show ?thesis using apart_sub [OF a assms(2) _ _ m assms(3)] by simp
  qed
  then show ?thesis by (auto simp: clear_of_def list_all_iff)
qed

lemma allots_before_heap:
  fixes s :: "'a ird"
  assumes "kheap s = None" and "clear_of (placement_address s) (sum_list ks) rs" and "unat (placement_address s) + sum_list ks < 2 ^ 32"
    and "\<And>y. in_range (placement_address s) (sum_list ks) y \<Longrightarrow> y \<noteq> 0 \<and> mem s y = 0"
    and "list_all (\<lambda>k. 0 < k) ks" and "list_all (\<lambda>(b, m). 0 < m) rs"
  shows "allots n ks rs s"
  using assms
proof (induction ks arbitrary: s rs)
  case (Cons k ks)
  let ?p = "placement_address s" and ?u = "s\<lparr>placement_address := placement_address s + of_nat k\<rparr>"
  have k: "0 < k" "list_all (\<lambda>k. 0 < k) ks" using Cons.prems(5) by simp_all
  have m: "malloc_s n (of_nat k) s = Inr (?p, ?u)" by (rule malloc_before_heap(1) [OF Cons.prems(1)])
  have inp: "in_range ?p (sum_list (k # ks)) y" if "in_range ?p k y" for y
    using that by (rule in_range_mono) simp
  have next_ok: "allots n ks ((?p, k) # rs) t" if t: "same_kernel ?u t" "\<And>y. \<not> in_range ?p k y \<Longrightarrow> mem t y = mem ?u y" for t
  proof (cases "ks = []")
    case False
    then have pos: "0 < sum_list ks" using k(2) by (cases ks) auto
    have g: "kheap t = None" "placement_address t = off ?p k"
      using t(1) Cons.prems(1) by (simp_all add: same_kernel_def kernel_memory.truncate_def off_def)
    have uk: "unat (of_nat k :: u32) = k" using Cons.prems(3) by (intro unat_of_nat_small) simp
    have up: "unat (off ?p k) = unat ?p + k"
      using Cons.prems(3) uk by (simp add: off_def unat_word_ariths)
    have ap: "apart ?p k (off ?p k) (sum_list ks)"
      using off_apart [of 0 k k "sum_list ks" ?p] Cons.prems(3) k(1) pos by (simp add: off_def)
    have "clear_of (off ?p k) (sum_list ks) rs"
      by (rule clear_of_part [OF Cons.prems(2)]) (use pos Cons.prems(6) in simp_all)
    then have cl: "clear_of (placement_address t) (sum_list ks) ((?p, k) # rs)"
      using ap by (simp add: g(2) clear_of_def apart_sym)
    have z: "y \<noteq> 0 \<and> mem t y = 0" if "in_range (placement_address t) (sum_list ks) y" for y
    proof -
      have "in_range ?p (sum_list (k # ks)) y"
        using in_range_off [OF that [unfolded g(2)]] Cons.prems(3) pos by simp
      moreover have "\<not> in_range ?p k y" using apart_in_range [OF ap that [unfolded g(2)]] .
      ultimately show ?thesis using Cons.prems(4) t(2) by simp
    qed
    show ?thesis
      by (rule Cons.IH [OF g(1) cl _ z k(2)]) (use up g(2) Cons.prems(3,6) k(1) in simp_all)
  qed simp
  have "clear_of (off ?p 0) k rs"
    by (rule clear_of_part [OF Cons.prems(2)]) (use k(1) Cons.prems(6) in simp_all)
  then have "clear_of ?p k rs" by (simp add: off_def)
  then show ?case
    using m Cons.prems(4) inp next_ok by (simp add: same_on_def)
qed simp

section \<open>The two directories\<close>

lemma set_dir_node_pokes:
  "set_dir_node img x = pokes x [(128, 0), (132, 0), (136, 0), (144, 0), (148, 0), (140, FS_DIRECTORY), (156, 0), (160, 0),
     (164, at_open img), (168, at_close img), (172, at_readdir img), (176, at_finddir img), (180, 0), (152, 0)]"
  by (simp add: fun_eq_iff set_dir_node_def pokes_def Let_def)

lemma set_dir_node_result:
  fixes s :: "'a ird"
  shows "node_flags (set_dir_node img x s) x = FS_DIRECTORY" "node_readdir (set_dir_node img x s) x = at_readdir img"
    "node_finddir (set_dir_node img x s) x = at_finddir img"
    "\<not> in_range (off x 128) 56 y \<Longrightarrow> mem (set_dir_node img x s) y = mem s y"
    "set_dir_node img x s = s\<lparr>mem := mem (set_dir_node img x s)\<rparr>"
  unfolding set_dir_node_pokes node_flags_def node_readdir_def node_finddir_def
  by (simp_all add: pokes_peek pokes_other [where a = 128 and b = 184]) (rule pokes_more)

lemma make_dir_node:
  fixes s :: "'a ird"
  assumes "cstr (mem s) lit nm" and "nm \<noteq> []" and "length nm < 128" and "x \<noteq> 0" and "lit \<noteq> 0"
    and "apart x 184 lit (Suc (length nm))"
  shows "\<exists>m q. strcpy (mem s) x lit = Inr (m, q)
    \<and> (let t = set_dir_node img x (s\<lparr>mem := m\<rparr>) in t = s\<lparr>mem := mem t\<rparr> \<and> node_flags t x = FS_DIRECTORY
       \<and> node_readdir t x = at_readdir img \<and> node_finddir t x = at_finddir img
       \<and> (\<forall>y. \<not> in_range x 184 y \<longrightarrow> mem t y = mem s y))"
proof -
  let ?m = "memcpy_loop (mem s) x lit (length nm)"
  have ne: "x + of_nat i \<noteq> lit + of_nat j" if "i < length nm" "j \<le> length nm" for i j
    using apart_offsets [OF assms(6), of i j] that assms(3) by simp
  have sc: "strcpy (mem s) x lit = Inr (?m, x + of_nat (length nm))"
    by (rule strcpy_cstr [OF assms(1,2,4,5) ne])
  let ?t = "set_dir_node img x (s\<lparr>mem := ?m\<rparr>)"
  note f = set_dir_node_result [where img = img and x = x and s = "s\<lparr>mem := ?m\<rparr>"]
  have out: "mem ?t y = mem s y" if "\<not> in_range x 184 y" for y
  proof -
    have "\<not> in_range (off x 128) 56 y" using that in_range_off [of x 128 56 y 184] by auto
    then have "mem ?t y = ?m y" using f(4) by simp
    also have "\<not> in_range x (length nm) y" using that in_range_mono [of x "length nm" y 184] assms(3) by auto
    then have "?m y = mem s y" by (rule memcpy_loop_other) (use assms(3) in simp)
    finally show ?thesis .
  qed
  have "?t = s\<lparr>mem := mem ?t\<rparr>" by (subst f(5)) simp
  then show ?thesis using sc f(1-3) out by (intro exI [of _ ?m] exI [of _ "x + of_nat (length nm)"]) (simp add: Let_def)
qed

section \<open>From the image to the mounted files\<close>

text \<open>The globals of \<open>task.c\<close>, the registers and the flag of interrupts, which the file system does not touch.\<close>

definition same_tasks :: "'a ird \<Rightarrow> 'a ird \<Rightarrow> bool" where
  "same_tasks s t \<longleftrightarrow> cur_task t = cur_task s \<and> head_task t = head_task s \<and> next_pid t = next_pid s
     \<and> esp t = esp s \<and> ebp t = ebp s \<and> if_flag t = if_flag s"

lemma kept_same_tasks: "kept s t \<Longrightarrow> same_tasks s t"
  by (cases s; cases t) (simp add: kept_def same_tasks_def)

lemma same_tasks_mem: "t = s\<lparr>mem := m\<rparr> \<Longrightarrow> same_tasks s t"
  by (simp add: same_tasks_def)

lemma same_tasks_trans: "same_tasks s t \<Longrightarrow> same_tasks t u \<Longrightarrow> same_tasks s u"
  by (simp add: same_tasks_def)

lemma same_on_trans: "same_on rs a b \<Longrightarrow> same_on rs b c \<Longrightarrow> same_on rs a c"
  by (fastforce simp: same_on_def)

lemma same_on_subset: "same_on rs a b \<Longrightarrow> set qs \<subseteq> set rs \<Longrightarrow> same_on qs a b"
  by (auto simp: same_on_def)

lemma clear_of_in: "clear_of a k rs \<Longrightarrow> (b, n) \<in> set rs \<Longrightarrow> apart a k b n"
  by (auto simp: clear_of_def list_all_iff)

lemma same_kernel_refl: "same_kernel s s"
  by (simp add: same_kernel_def kernel_memory.truncate_def)

lemma same_kernel_fields:
  "same_kernel u (u\<lparr>initrd_root := x, mem := m\<rparr>)" "same_kernel u (u\<lparr>initrd_dev := x, mem := m\<rparr>)"
  "same_kernel u (u\<lparr>mem := m, initrd_root := x\<rparr>)" "same_kernel u (u\<lparr>mem := m, initrd_dev := x\<rparr>)"
  by (simp_all add: same_kernel_def kernel_memory.truncate_def)

text \<open>The files are entered, and what was there before is as it was: then they are mounted.\<close>

lemma entered_is_file:
  fixes t :: "'a ird"
  assumes "file_entered img loc m0 (mem t) (header_at loc i) x i (fst f)" and "file_headers t = loc + 4"
    and "fst f \<noteq> []" and "length (fst f) < 64" and "0 \<notin> set (fst f)" and "x \<noteq> 0" and "m0 (x + of_nat (length (fst f))) = 0"
    and "unat (load32 m0 (off (header_at loc i) 72)) = length (snd f)"
    and "bytes_at (mem t) (load32 m0 (off (header_at loc i) 68) + loc) (length (snd f)) = snd f"
  shows "is_file img t x f" and "header_of t x = header_at loc i"
    and "header_offset t (header_of t x) = load32 m0 (off (header_at loc i) 68) + loc"
proof -
  note e = assms(1) [unfolded file_entered_def]
  show h: "header_of t x = header_at loc i"
    using e assms(2) by (simp add: header_of_def file_header_def node_inode_def peek_def header_at_def off_def)
  show o: "header_offset t (header_of t x) = load32 m0 (off (header_at loc i) 68) + loc"
    using e by (simp add: h header_offset_def peek_def)
  have "cstr (mem t) x (fst f)"
  proof -
    have "mem t (x + of_nat j) = fst f ! j" if "j < length (fst f)" for j
      using e that nth_bytes_at [of j "length (fst f)" "mem t" x] by simp
    moreover have "fst f ! j \<noteq> 0" if "j < length (fst f)" for j using nth_mem [OF that] assms(5) by metis
    ultimately show ?thesis using e assms(7) by (simp add: cstr_iff)
  qed
  then show "is_file img t x f"
    using e assms(3,4,6,8,9) by (simp add: is_file_def o [unfolded h] h node_flags_def node_read_def header_length_def peek_def)
qed

text \<open>
  The ranges the file system reads and does not own: the two literals, the number of files, the headers,
  and the contents of the files.
\<close>

definition image_area :: "image \<Rightarrow> memory \<Rightarrow> u32 \<Rightarrow> (u8 list \<times> u8 list) list \<Rightarrow> (u32 \<times> nat) list" where
  "image_area img m loc files = (lit_dev img, 4) # (lit_initrd img, 7) # (loc, 4) # (loc + 4, length files * 76) # contents m loc files"

text \<open>What the linker and the boot loader are asked for.\<close>

definition image_placed :: "image \<Rightarrow> memory \<Rightarrow> u32 \<Rightarrow> (u8 list \<times> u8 list) list \<Rightarrow> (u32 \<times> nat) list \<Rightarrow> bool" where
  "image_placed img m loc files rs \<longleftrightarrow> on_image m loc files
     \<and> cstr m (lit_dev img) (ascii ''dev'') \<and> cstr m (lit_initrd img) (ascii ''initrd'')
     \<and> at_dirent img \<noteq> 0 \<and> at_readdir img \<noteq> 0 \<and> at_finddir img \<noteq> 0 \<and> at_read img \<noteq> 0 \<and> lit_dev img \<noteq> 0 \<and> lit_initrd img \<noteq> 0
     \<and> clear_of (loc + 4) (length files * 76) ((lit_dev img, 4) # contents m loc files)
     \<and> list_all (\<lambda>(a, k). 0 < k \<and> clear_of a k (image_area img m loc files)) rs"

lemma dir_block:
  fixes s :: "'a ird" and upd :: "u32 \<Rightarrow> 'a ird \<Rightarrow> 'a ird"
  assumes "allots n (184 # ks) rs s" and lit: "cstr (mem s) lit nm" "nm \<noteq> []" "length nm < 128" "lit \<noteq> 0" "(lit, Suc (length nm)) \<in> set rs"
    and upd: "\<And>x u. mem (upd x u) = mem u" "\<And>x u m. same_kernel u ((upd x u)\<lparr>mem := m\<rparr>)"
  shows "\<exists>x u m q t. malloc_s n sizeof_node s = Inr (x, u) \<and> strcpy (mem u) x lit = Inr (m, q)
    \<and> t = set_dir_node img x ((upd x u)\<lparr>mem := m\<rparr>) \<and> t = (upd x u)\<lparr>mem := mem t\<rparr> \<and> node_flags t x = FS_DIRECTORY
    \<and> node_readdir t x = at_readdir img \<and> node_finddir t x = at_finddir img
    \<and> same_on rs (mem t) (mem s) \<and> clear_of x 184 rs \<and> allots n ks ((x, 184) # rs) t"
proof -
  have n184: "of_nat 184 = sizeof_node" by (simp add: sizeof_node_def)
  obtain x u where u: "malloc_s n sizeof_node s = Inr (x, u)" "same_on rs (mem u) (mem s)" "clear_of x 184 rs"
    "\<And>a. in_range x 184 a \<Longrightarrow> a \<noteq> 0 \<and> mem u a = 0"
    and rest: "\<And>t. same_kernel u t \<Longrightarrow> (\<And>a. \<not> in_range x 184 a \<Longrightarrow> mem t a = mem u a) \<Longrightarrow> allots n ks ((x, 184) # rs) t"
    using assms(1) unfolding allots.simps(2) n184 by blast
  have x0: "x \<noteq> 0" using u(4) [of x] by (simp add: in_range_def)
  have c: "cstr (mem (upd x u)) lit nm" using same_on_cstr [OF u(2) lit(5), of nm] lit(1,3) by (simp add: upd)
  obtain m q where sc: "strcpy (mem u) x lit = Inr (m, q)"
    and d: "let t = set_dir_node img x ((upd x u)\<lparr>mem := m\<rparr>) in t = (upd x u)\<lparr>mem := mem t\<rparr> \<and> node_flags t x = FS_DIRECTORY
      \<and> node_readdir t x = at_readdir img \<and> node_finddir t x = at_finddir img \<and> (\<forall>y. \<not> in_range x 184 y \<longrightarrow> mem t y = mem (upd x u) y)"
    using make_dir_node [OF c lit(2,3) x0 lit(4) clear_of_in [OF u(3) lit(5)], of img] unfolding upd(1) by blast
  obtain t where t: "t = set_dir_node img x ((upd x u)\<lparr>mem := m\<rparr>)" by simp
  note d = d [folded t, unfolded Let_def upd(1)]
  have out: "mem t a = mem u a" if "\<not> in_range x 184 a" for a using d that by blast
  have "same_kernel u t"
  proof -
    have "t = (upd x u)\<lparr>mem := mem t\<rparr>" using d by blast
    then show ?thesis using upd(2) by metis
  qed
  then have "allots n ks ((x, 184) # rs) t" by (rule rest [OF _ out])
  moreover have "same_on rs (mem t) (mem s)" by (rule same_on_trans [OF same_on_clear [OF u(3) out] u(2)])
  ultimately show ?thesis using u(1,3) sc t d by blast
qed

text \<open>
  The state \<open>u\<close> before the loop over the files, with the memory \<open>m\<close> at the start: the two directories and
  the array of nodes are there, and \<open>rs\<close> and what the image takes up is as it was.
\<close>

definition prepared :: "image \<Rightarrow> u32 \<Rightarrow> (u8 list \<times> u8 list) list \<Rightarrow> (u32 \<times> nat) list \<Rightarrow> memory \<Rightarrow> 'a ird \<Rightarrow> bool" where
  "prepared img loc files rs m u \<longleftrightarrow> image_placed img m loc files rs
     \<and> initrd_header u = loc \<and> file_headers u = loc + 4 \<and> nroot_nodes u = of_nat (length files)
     \<and> node_flags u (initrd_root u) = FS_DIRECTORY \<and> node_readdir u (initrd_root u) = at_readdir img
     \<and> node_finddir u (initrd_root u) = at_finddir img \<and> node_flags u (initrd_dev u) = FS_DIRECTORY
     \<and> same_on (rs @ image_area img m loc files) (mem u) m
     \<and> clear_of (initrd_root u) 184 (rs @ image_area img m loc files)
     \<and> clear_of (initrd_dev u) 184 ((initrd_root u, 184) # rs @ image_area img m loc files)
     \<and> clear_of (root_nodes u) (length files * 184) ((initrd_dev u, 184) # (initrd_root u, 184) # rs @ image_area img m loc files)
     \<and> (\<forall>a. in_range (root_nodes u) (length files * 184) a \<longrightarrow> a \<noteq> 0 \<and> mem u a = 0)"

lemma nodes_from_image:
  fixes s :: "'a ird"
  assumes "image_placed img (mem s) loc files rs"
    and "allots n [184, 184, length files * 184] (rs @ image_area img (mem s) loc files) (s\<lparr>initrd_header := loc, file_headers := loc + 4\<rparr>)"
  shows "\<exists>u. initialise_initrd img n loc s = ebind (mount_files img loc [0..<node_count u] u) (\<lambda>s. Inr (initrd_root s, s))
    \<and> prepared img loc files rs (mem s) u \<and> same_tasks s u"
proof -
  let ?s = "s\<lparr>initrd_header := loc, file_headers := loc + 4\<rparr>" and ?R = "rs @ image_area img (mem s) loc files" and ?N = "length files"
  have asc: "Suc (length (ascii ''dev'')) = 4" "Suc (length (ascii ''initrd'')) = 7" "ascii ''dev'' \<noteq> []" "ascii ''initrd'' \<noteq> []"
    "length (ascii ''dev'') < 128" "length (ascii ''initrd'') < 128"
    by (simp_all add: ascii_def)
  have inR: "(lit_dev img, 4) \<in> set ?R" "(lit_initrd img, 7) \<in> set ?R" "(loc, 4) \<in> set ?R" by (simp_all add: image_area_def)
  have pl: "cstr (mem ?s) (lit_initrd img) (ascii ''initrd'')" "lit_initrd img \<noteq> 0" "cstr (mem s) (lit_dev img) (ascii ''dev'')" "lit_dev img \<noteq> 0"
    "load32 (mem s) loc = of_nat ?N" using assms(1) by (simp_all add: image_placed_def on_image_def)
  have up: "mem (v\<lparr>initrd_root := x\<rparr>) = mem v" "mem (v\<lparr>initrd_dev := x\<rparr>) = mem v" for x and v :: "'a ird" by simp_all
  obtain x u1 m1 q1 t1 where b1: "malloc_s n sizeof_node ?s = Inr (x, u1)" "strcpy (mem u1) x (lit_initrd img) = Inr (m1, q1)"
    and t1: "t1 = set_dir_node img x (u1\<lparr>initrd_root := x, mem := m1\<rparr>)" "t1 = u1\<lparr>initrd_root := x, mem := mem t1\<rparr>" "node_flags t1 x = FS_DIRECTORY"
      "node_readdir t1 x = at_readdir img" "node_finddir t1 x = at_finddir img"
      "same_on ?R (mem t1) (mem s)" "clear_of x 184 ?R" "allots n [184, ?N * 184] ((x, 184) # ?R) t1"
    using dir_block [where upd = "\<lambda>x u. u\<lparr>initrd_root := x\<rparr>" and img = img, OF assms(2) pl(1) asc(4,6) pl(2) inR(2) [folded asc(2)] up(1) same_kernel_fields(1)]
    by auto
  have g1: "initrd_header t1 = loc" "file_headers t1 = loc + 4" "initrd_root t1 = x"
    using kept_initrd [OF malloc_kept(1) [OF b1(1)]] by (subst t1(2), simp)+
  have c2: "cstr (mem t1) (lit_dev img) (ascii ''dev'')"
    using same_on_cstr [OF t1(6) inR(1)] pl(3) asc(1) by simp
  have in2: "(lit_dev img, Suc (length (ascii ''dev''))) \<in> set ((x, 184) # ?R)" using inR(1) asc(1) by simp
  obtain y u2 m2 q2 t2 where b2: "malloc_s n sizeof_node t1 = Inr (y, u2)" "strcpy (mem u2) y (lit_dev img) = Inr (m2, q2)"
    and t2: "t2 = set_dir_node img y (u2\<lparr>initrd_dev := y, mem := m2\<rparr>)" "t2 = u2\<lparr>initrd_dev := y, mem := mem t2\<rparr>" "node_flags t2 y = FS_DIRECTORY"
      "same_on ((x, 184) # ?R) (mem t2) (mem t1)" "clear_of y 184 ((x, 184) # ?R)" "allots n [?N * 184] ((y, 184) # (x, 184) # ?R) t2"
    using dir_block [where upd = "\<lambda>x u. u\<lparr>initrd_dev := x\<rparr>" and img = img, OF t1(8) c2 asc(3,5) pl(4) in2 up(2) same_kernel_fields(2)]
    by auto
  have g2: "initrd_header t2 = loc" "file_headers t2 = loc + 4" "initrd_root t2 = x" "initrd_dev t2 = y"
    using kept_initrd [OF malloc_kept(1) [OF b2(1)]] g1 by (subst t2(2), simp)+
  have s2: "same_on ?R (mem t2) (mem s)" by (rule same_on_trans [OF same_on_subset [OF t2(4)] t1(6)]) auto
  have nf: "nfiles v = of_nat ?N" if "same_on ?R (mem v) (mem s)" "initrd_header v = loc" for v :: "'a ird"
    using load32_same_on [OF that(1) inR(3), of 0] pl(5) that(2) by (simp add: nfiles_def peek_def off_def)
  have sz: "of_nat (?N * 184) = sizeof_node * nfiles t2" by (simp add: nf [OF s2 g2(1)] sizeof_node_def)
  obtain z u3 where u3: "malloc_s n (sizeof_node * nfiles t2) t2 = Inr (z, u3)" "same_on ((y, 184) # (x, 184) # ?R) (mem u3) (mem t2)"
    "clear_of z (?N * 184) ((y, 184) # (x, 184) # ?R)" "\<forall>a. in_range z (?N * 184) a \<longrightarrow> a \<noteq> 0 \<and> mem u3 a = 0"
    using t2(6) unfolding allots.simps sz by blast
  let ?u = "u3\<lparr>root_nodes := z, nroot_nodes := nfiles u3\<rparr>"
  have s3: "same_on ?R (mem u3) (mem s)" by (rule same_on_trans [OF same_on_subset [OF u3(2)] s2]) auto
  note g3 = kept_initrd [OF malloc_kept(1) [OF u3(1)]]
  have nfu: "nfiles (u3\<lparr>root_nodes := z\<rparr>) = nfiles u3" by (simp add: nfiles_def peek_def)
  have run: "initialise_initrd img n loc s = ebind (mount_files img loc [0..<node_count ?u] ?u) (\<lambda>s. Inr (initrd_root s, s))"
    using b1 b2 u3(1) g2 g1(3) kept_initrd [OF malloc_kept(1) [OF b1(1)]] kept_initrd [OF malloc_kept(1) [OF b2(1)]]
    by (simp add: initialise_initrd_def Let_def t1(1) [symmetric] t2(1) [symmetric] nfu)
  have pu: "peek (u3\<lparr>root_nodes := a, nroot_nodes := b\<rparr>) c = peek u3 c" for a b c by (simp add: peek_def)
  have "same_on [(x, 184)] (mem u3) (mem t1)"
    using same_on_trans [OF same_on_subset [OF u3(2), of "[(x, 184)]"] same_on_subset [OF t2(4), of "[(x, 184)]"]] by simp
  from same_on_peek [OF this, of x 184] have px: "peek u3 (off x j) = peek t1 (off x j)" if "j + 4 \<le> 184" for j using that by simp
  have "same_on [(y, 184)] (mem u3) (mem t2)" using same_on_subset [OF u3(2), of "[(y, 184)]"] by simp
  from same_on_peek [OF this, of y 184] have py: "peek u3 (off y j) = peek t2 (off y j)" if "j + 4 \<le> 184" for j using that by simp
  have "prepared img loc files rs (mem s) ?u"
    using assms(1) t1(3-5,7) t2(3,5) u3(3,4) s3 g3 g2 nf [OF s3]
    by (simp add: prepared_def node_flags_def node_readdir_def node_finddir_def pu px py)
  moreover have "same_tasks s ?u"
  proof -
    have "same_tasks s u1" using kept_same_tasks [OF malloc_kept(1) [OF b1(1)]] by (simp add: same_tasks_def)
    moreover have "same_tasks u1 t1" by (subst t1(2)) (simp add: same_tasks_def)
    moreover have "same_tasks t1 u2" by (rule kept_same_tasks [OF malloc_kept(1) [OF b2(1)]])
    moreover have "same_tasks u2 t2" by (subst t2(2)) (simp add: same_tasks_def)
    moreover have "same_tasks t2 u3" by (rule kept_same_tasks [OF malloc_kept(1) [OF u3(1)]])
    ultimately show ?thesis by (simp add: same_tasks_def)
  qed
  ultimately show ?thesis using run by blast
qed

text \<open>The loop over the files, from such a state.\<close>

definition filled :: "image \<Rightarrow> u32 \<Rightarrow> (u8 list \<times> u8 list) list \<Rightarrow> 'a ird \<Rightarrow> 'a ird \<Rightarrow> bool" where
  "filled img loc files u t \<longleftrightarrow> t = u\<lparr>mem := mem t\<rparr>
     \<and> (\<forall>k < length files. file_entered img loc (mem u) (mem t) (header_at loc k) (node_at (root_nodes u) k) k (fst (files ! k)))
     \<and> (\<forall>a. \<not> in_range (loc + 4) (length files * 76) a \<and> \<not> in_range (root_nodes u) (length files * 184) a \<longrightarrow> mem t a = mem u a)"

lemma prepared_facts:
  assumes "prepared img loc files rs m u"
  shows "image_placed img m loc files rs" "on_image m loc files" "length files < 2 ^ 20" "node_count u = length files"
    "same_on (rs @ image_area img m loc files) (mem u) m"
    "(loc + 4, length files * 76) \<in> set (rs @ image_area img m loc files)" "file_headers u = loc + 4"
  using assms node_count_small [of u "length files"]
  by (simp_all add: prepared_def image_placed_def on_image_def image_area_def)

lemma prepared_clear:
  assumes "prepared img loc files rs m u"
  shows "clear_of (initrd_root u) 184 (rs @ image_area img m loc files)"
    "clear_of (initrd_dev u) 184 ((initrd_root u, 184) # rs @ image_area img m loc files)"
    "clear_of (root_nodes u) (length files * 184) ((initrd_dev u, 184) # (initrd_root u, 184) # rs @ image_area img m loc files)"
  using assms by (simp_all add: prepared_def)

lemma on_imageD:
  assumes "on_image m loc files" and "i < length files"
  shows "cstr m (off (header_at loc i) 1) (fst (files ! i))" "fst (files ! i) \<noteq> []" "length (fst (files ! i)) < 64"
    "off (header_at loc i) 1 \<noteq> 0" "unat (load32 m (off (header_at loc i) 72)) = length (snd (files ! i))"
    "bytes_at m (fst (content_at m loc files i)) (length (snd (files ! i))) = snd (files ! i)"
  using assms unfolding on_image_def list_all_iff by auto

lemma prepared_node:
  assumes "prepared img loc files rs m u" and "i < length files"
  shows "node_at (root_nodes u) i \<noteq> 0" and "j < 184 \<Longrightarrow> mem u (node_at (root_nodes u) i + of_nat j) = 0"
proof -
  have z: "a \<noteq> 0 \<and> mem u a = 0" if "in_range (root_nodes u) (length files * 184) a" for a
    using assms(1) that by (simp add: prepared_def)
  have b: "length files * 184 \<le> 2 ^ 32" using prepared_facts(3) [OF assms(1)] by simp
  have *: "in_range (root_nodes u) (length files * 184) (node_at (root_nodes u) i + of_nat k)" if "k < 184" for k
    using node_in_array [OF in_range_offset [OF that] assms(2) b] by simp
  show "node_at (root_nodes u) i \<noteq> 0" using *[of 0] z by simp
  show "j < 184 \<Longrightarrow> mem u (node_at (root_nodes u) i + of_nat j) = 0" using * z by blast
qed

lemma prepared_header:
  assumes "prepared img loc files rs m u" and "i < length files" and "j < 76"
  shows "mem u (header_at loc i + of_nat j) = m (header_at loc i + of_nat j)"
proof -
  note pf = prepared_facts [OF assms(1)]
  have "in_range (off (loc + 4) (i * 76)) 76 (header_at loc i + of_nat j)"
    unfolding header_at_def using assms(3) by (intro in_range_offset) simp_all
  then have "in_range (loc + 4) (length files * 76) (header_at loc i + of_nat j)"
    by (rule in_range_off) (use assms(2) pf(3) in simp_all)
  from same_on_range [OF pf(5,6) this] show ?thesis .
qed

lemma prepared_mounts:
  assumes "prepared img loc files rs m u"
  shows "\<exists>t. mount_files img loc [0..<node_count u] u = Inr t \<and> filled img loc files u t"
proof -
  let ?N = "length files"
  note pf = prepared_facts [OF assms]
  have ap: "apart (file_headers u) (?N * 76) (root_nodes u) (?N * 184)"
    using clear_of_in [OF prepared_clear(3) [OF assms], of "loc + 4" "?N * 76"] pf(6,7) by (simp add: apart_sym)
  have ok: "cstr (mem u) (off (header_at loc k) 1) (fst (files ! k)) \<and> fst (files ! k) \<noteq> [] \<and> length (fst (files ! k)) < 64
      \<and> off (header_at loc k) 1 \<noteq> 0 \<and> node_at (root_nodes u) k \<noteq> 0" if k: "k < ?N" for k
  proof -
    note oi = on_imageD [OF pf(2) k]
    have "mem u (off (header_at loc k) 1 + of_nat j) = m (off (header_at loc k) 1 + of_nat j)" if "j \<le> length (fst (files ! k))" for j
      using prepared_header [OF assms k, of "Suc j"] that oi(3) by (simp add: off_def algebra_simps)
    then have "cstr (mem u) (off (header_at loc k) 1) (fst (files ! k))"
      using oi(1) cstr_cong [of "fst (files ! k)" "mem u" "off (header_at loc k) 1" m] by blast
    then show ?thesis using oi prepared_node(1) [OF assms k] by simp
  qed
  show ?thesis
    using mount_files_result [where nms = "\<lambda>k. fst (files ! k)" and img = img and loc = loc, OF pf(3) ap _ _ ok]
    unfolding filled_def pf(4,7) header_at_def by auto
qed

lemma filled_globals:
  assumes "filled img loc files u t"
  shows "file_headers t = file_headers u" "initrd_root t = initrd_root u" "initrd_dev t = initrd_dev u" "root_nodes t = root_nodes u"
    "nroot_nodes t = nroot_nodes u"
proof -
  have t: "t = u\<lparr>mem := mem t\<rparr>" using assms by (simp add: filled_def)
  show "file_headers t = file_headers u" "initrd_root t = initrd_root u" "initrd_dev t = initrd_dev u" "root_nodes t = root_nodes u"
    "nroot_nodes t = nroot_nodes u"
    by (subst t, simp)+
qed

lemma filled_keeps:
  assumes p: "prepared img loc files rs m u" and f: "filled img loc files u t"
  shows "same_on ((initrd_root u, 184) # (initrd_dev u, 184) # (lit_dev img, 4) # contents m loc files) (mem t) (mem u)"
proof -
  let ?N = "length files" and ?R = "rs @ image_area img m loc files"
  let ?Q = "(initrd_root u, 184) # (initrd_dev u, 184) # (lit_dev img, 4) # contents m loc files"
  note pf = prepared_facts [OF p]
  note cl = prepared_clear [OF p]
  have lc: "clear_of (loc + 4) (?N * 76) ((lit_dev img, 4) # contents m loc files)"
    using pf(1) by (simp add: image_placed_def)
  have "apart (loc + 4) (?N * 76) b k \<and> apart (root_nodes u) (?N * 184) b k" if bk: "(b, k) \<in> set ?Q" for b k
  proof
    have "(b, k) \<in> set ((initrd_dev u, 184) # (initrd_root u, 184) # ?R)" using bk by (auto simp: image_area_def)
    then show "apart (root_nodes u) (?N * 184) b k" by (rule clear_of_in [OF cl(3)])
    have "apart (loc + 4) (?N * 76) (initrd_root u) 184" "apart (loc + 4) (?N * 76) (initrd_dev u) 184"
      using clear_of_in [OF cl(1) pf(6)] clear_of_in [OF cl(2), of "loc + 4" "?N * 76"] pf(6) by (simp_all add: apart_sym)
    then show "apart (loc + 4) (?N * 76) b k" using bk clear_of_in [OF lc] by auto
  qed
  then show ?thesis unfolding same_on_def using f apart_in_range unfolding filled_def by blast
qed

text \<open>What lies apart from the image and the nodes is as it was.\<close>

lemma filled_elsewhere:
  assumes p: "prepared img loc files rs m u" and f: "filled img loc files u t"
  shows "same_on rs (mem t) m"
proof -
  note pf = prepared_facts [OF p] and cl = prepared_clear(3) [OF p]
  have "mem t x = mem u x" if "(a, k) \<in> set rs" "in_range a k x" for a k x
  proof -
    have "clear_of a k (image_area img m loc files)" using pf(1) that(1) unfolding image_placed_def list_all_iff by auto
    then have "apart (loc + 4) (length files * 76) a k"
      using clear_of_in [of a k _ "loc + 4" "length files * 76"] by (simp add: image_area_def apart_sym)
    moreover have "apart (root_nodes u) (length files * 184) a k" by (rule clear_of_in [OF cl]) (use that(1) in simp)
    ultimately show ?thesis using f that(2) apart_in_range unfolding filled_def by blast
  qed
  then have "same_on rs (mem t) (mem u)" by (auto simp: same_on_def)
  then show ?thesis using same_on_trans same_on_subset [OF pf(5), of rs] by auto
qed

lemma filled_file:
  fixes u t :: "'a ird"
  assumes p: "prepared img loc files rs m u" and f: "filled img loc files u t" and i: "i < length files" and t': "mem t' = mem t" "file_headers t' = loc + 4"
  defines "x \<equiv> node_at (root_nodes u) i" and "c \<equiv> fst (content_at m loc files i)"
  shows "is_file img t' x (files ! i)" and "header_of t' x = header_at loc i" and "header_offset t' (header_at loc i) = c"
proof -
  let ?l = "length (snd (files ! i))"
  note pf = prepared_facts [OF p] and oi = on_imageD [OF prepared_facts(2) [OF p] i]
  have e: "file_entered img loc (mem u) (mem t') (header_at loc i) x i (fst (files ! i))" using f i by (simp add: filled_def t'(1) x_def)
  have word: "load32 (mem u) (off (header_at loc i) j) = load32 m (off (header_at loc i) j)" if "j + 4 \<le> 76" for j
    using prepared_header [OF p i, of j] prepared_header [OF p i, of "j + 1"] prepared_header [OF p i, of "j + 2"]
      prepared_header [OF p i, of "j + 3"] that by (simp add: load32_def off_def ac_simps)
  have nul: "mem u (x + of_nat (length (fst (files ! i)))) = 0" unfolding x_def using prepared_node(2) [OF p i] oi(3) by simp
  have len: "unat (load32 (mem u) (off (header_at loc i) 72)) = ?l" using word oi(5) by simp
  have o: "load32 (mem u) (off (header_at loc i) 68) + loc = c" using word by (simp add: c_def content_at_def)
  have "(c, ?l) \<in> set (contents m loc files)" using i by (auto simp: c_def contents_def content_at_def image_iff)
  then have inQ: "(c, ?l) \<in> set ((initrd_root u, 184) # (initrd_dev u, 184) # (lit_dev img, 4) # contents m loc files)"
    "(c, ?l) \<in> set (rs @ image_area img m loc files)" by (simp_all add: image_area_def)
  have "?l < 2 ^ 32" using oi(5) unat_u32_lt [of "load32 m (off (header_at loc i) 72)"] by simp
  then have bt: "bytes_at (mem t') (load32 (mem u) (off (header_at loc i) 68) + loc) ?l = snd (files ! i)"
    using same_on_bytes [OF filled_keeps [OF p f] inQ(1)] same_on_bytes [OF pf(5) inQ(2)] oi(6) unfolding o t'(1) c_def by simp
  note e' = entered_is_file [OF e t'(2) oi(2,3) cstr_nonzero [OF oi(1)] prepared_node(1) [OF p i, folded x_def] nul len bt]
  show "is_file img t' x (files ! i)" "header_of t' x = header_at loc i" by (rule e')+
  show "header_offset t' (header_at loc i) = c" using e'(2,3) o by simp
qed

lemma filled_clear:
  fixes u t :: "'a ird" and r :: u32
  assumes p: "prepared img loc files rs m u" and f: "filled img loc files u t" and ak: "(a, k) \<in> set rs"
  defines "t' \<equiv> t\<lparr>fs_root := r\<rparr>"
  shows "clear_of a k (area img t' files)"
proof -
  let ?N = "length files" and ?R = "rs @ image_area img m loc files"
  note pf = prepared_facts [OF p]
  have pos: "0 < k" and ca: "clear_of a k (image_area img m loc files)" using pf(1) ak unfolding image_placed_def list_all_iff by auto
  have g: "mem t' = mem t" "file_headers t' = loc + 4" "initrd_root t' = initrd_root u" "initrd_dev t' = initrd_dev u" "root_nodes t' = root_nodes u"
    using filled_globals [OF f] pf(7) by (simp_all add: t'_def)
  have nodes: "apart a k (initrd_root u) 184" "apart a k (initrd_dev u) 184" "apart (root_nodes u) (?N * 184) a k"
    using ak clear_of_in [OF prepared_clear(1) [OF p], of a k] clear_of_in [OF prepared_clear(2) [OF p], of a k]
      clear_of_in [OF prepared_clear(3) [OF p], of a k] by (auto simp: apart_sym)
  have hd: "apart (loc + 4) (?N * 76) a k" using clear_of_in [OF ca, of "loc + 4" "?N * 76"] by (simp add: image_area_def apart_sym)
  have k32: "k \<le> 2 ^ 32" using hd unat_u32_lt [of "loc + 4 - a"] by (simp add: apart_def)
  have "apart a k b n" if "(b, n) \<in> set (file_area t' (node_at (root_nodes u) i) (length (snd (files ! i))))" and i: "i < ?N" for b n i
  proof -
    have "apart (off (root_nodes u) (i * 184)) 184 a k" by (rule apart_sub [OF nodes(3)]) (use i pf(3) k32 pos in simp_all)
    moreover have "apart (off (loc + 4) (i * 76)) 76 a k" by (rule apart_sub [OF hd]) (use i pf(3) k32 pos in simp_all)
    moreover have "apart a k (fst (content_at m loc files i)) (length (snd (files ! i)))"
      by (rule clear_of_in [OF ca]) (use i in \<open>auto simp: image_area_def contents_def content_at_def image_iff\<close>)
    ultimately show ?thesis
      using that(1) filled_file(2,3) [OF p f i g(1,2)] by (auto simp: file_area_def node_at_def header_at_def apart_sym)
  qed
  moreover have "apart a k (lit_dev img) 4" by (rule clear_of_in [OF ca]) (simp add: image_area_def)
  moreover have "root_node t' (of_nat i) = node_at (root_nodes u) i" for i using root_node_at [of t' i] by (simp add: g)
  ultimately show ?thesis using nodes(1,2) unfolding clear_of_def list_all_iff area_def by (auto simp: g)
qed

lemma filled_mounted:
  fixes u t :: "'a ird"
  assumes p: "prepared img loc files ((at_dirent img, 132) # rs) m u" and f: "filled img loc files u t"
  shows "mounted img rs (t\<lparr>fs_root := initrd_root t\<rparr>) files"
proof -
  let ?t = "t\<lparr>fs_root := initrd_root t\<rparr>"
  note pf = prepared_facts [OF p] and keeps = filled_keeps [OF p f]
  have g: "mem ?t = mem t" "file_headers ?t = loc + 4" "initrd_root t = initrd_root u" "initrd_dev t = initrd_dev u" "root_nodes t = root_nodes u"
    "nroot_nodes t = of_nat (length files)"
    using filled_globals [OF f] p by (simp_all add: prepared_def)
  have same: "peek ?t (off b j) = peek u (off b j)" if "b = initrd_root u \<or> b = initrd_dev u" "j + 4 \<le> 184" for b j
  proof -
    have "peek t (off b j) = peek u (off b j)" by (rule same_on_peek [OF keeps, of b 184]) (use that in auto)
    then show ?thesis by (simp add: peek_def)
  qed
  have root: "node_flags ?t (initrd_root u) = FS_DIRECTORY" "node_readdir ?t (initrd_root u) = at_readdir img"
    "node_finddir ?t (initrd_root u) = at_finddir img" "node_flags ?t (initrd_dev u) = FS_DIRECTORY"
    using p by (simp_all add: prepared_def node_flags_def node_readdir_def node_finddir_def same)
  have l3: "length (ascii ''dev'') < 4" by (simp add: ascii_def)
  have "cstr (mem t) (lit_dev img) (ascii ''dev'') = cstr (mem u) (lit_dev img) (ascii ''dev'')"
    by (rule same_on_cstr [OF keeps _ l3]) simp_all
  also have "\<dots> = cstr m (lit_dev img) (ascii ''dev'')"
    by (rule same_on_cstr [OF pf(5) _ l3]) (simp_all add: image_area_def)
  finally have lc: "cstr (mem ?t) (lit_dev img) (ascii ''dev'')" using pf(1) by (simp add: image_placed_def)
  have rn: "root_node ?t (of_nat i) = node_at (root_nodes u) i" for i using root_node_at [of ?t i] by (simp add: g)
  have "list_all (\<lambda>i. is_file img ?t (root_node ?t (of_nat i)) (files ! i)) [0..<length files]"
    unfolding rn list_all_iff using filled_file(1) [OF p f _ g(1,2)] by simp
  moreover have "list_all (\<lambda>(a, k). clear_of a k (area img ?t files)) ((at_dirent img, 132) # rs)"
    unfolding list_all_iff using filled_clear [OF p f] by blast
  moreover have "at_dirent img \<noteq> 0" "at_readdir img \<noteq> 0" "at_finddir img \<noteq> 0" "at_read img \<noteq> 0" "lit_dev img \<noteq> 0"
    using pf(1) by (simp_all add: image_placed_def)
  ultimately show ?thesis unfolding mounted_def using root lc pf(3) by (simp add: g)
qed

lemma initialise_initrd_result:
  fixes s :: "'a ird"
  assumes "image_placed img (mem s) loc files ((at_dirent img, 132) # rs)"
    and "allots n [184, 184, length files * 184] (((at_dirent img, 132) # rs) @ image_area img (mem s) loc files)
      (s\<lparr>initrd_header := loc, file_headers := loc + 4\<rparr>)"
  shows "\<exists>t. initialise_initrd img n loc s = Inr (initrd_root t, t) \<and> mounted img rs (t\<lparr>fs_root := initrd_root t\<rparr>) files
    \<and> same_on ((at_dirent img, 132) # rs) (mem t) (mem s) \<and> same_tasks s t"
proof -
  obtain u where u: "initialise_initrd img n loc s = ebind (mount_files img loc [0..<node_count u] u) (\<lambda>s. Inr (initrd_root s, s))"
    "prepared img loc files ((at_dirent img, 132) # rs) (mem s) u" "same_tasks s u"
    using nodes_from_image [OF assms] by blast
  from prepared_mounts [OF u(2)] obtain t where t: "mount_files img loc [0..<node_count u] u = Inr t" "filled img loc files u t" by blast
  have "initialise_initrd img n loc s = Inr (initrd_root t, t)" by (simp add: u(1) t(1))
  moreover have "same_tasks u t" using t(2) unfolding filled_def by (metis same_tasks_mem)
  ultimately show ?thesis using filled_mounted [OF u(2) t(2)] filled_elsewhere [OF u(2) t(2)] same_tasks_trans [OF u(3)] by blast
qed

text \<open>
  Property C5. From an image in memory that nothing overlaps, and an allocator that gives it cleared blocks,
  \<open>initialise_initrd\<close> returns the root, and once \<open>fs_root\<close> is set to it the files of the image are mounted:
  the listing then prints the device directory and the names of all files.
\<close>

theorem initialise_initrd_mounts:
  fixes s :: "'a ird"
  assumes "image_placed img (mem s) loc files ((at_dirent img, 132) # rs)"
    and "allots n [184, 184, length files * 184] (((at_dirent img, 132) # rs) @ image_area img (mem s) loc files)
      (s\<lparr>initrd_header := loc, file_headers := loc + 4\<rparr>)"
  shows "\<exists>t v. initialise_initrd img n loc s = Inr (initrd_root t, t) \<and> mounted img rs (t\<lparr>fs_root := initrd_root t\<rparr>) files
    \<and> print_all_file (initrd_driver img n) (t\<lparr>fs_root := initrd_root t\<rparr>) = Inr v
    \<and> console v = console t @ concat (List.map found_line (ascii ''dev'' # List.map fst files))"
proof -
  obtain t where t: "initialise_initrd img n loc s = Inr (initrd_root t, t)" "mounted img rs (t\<lparr>fs_root := initrd_root t\<rparr>) files"
    using initialise_initrd_result [OF assms] by blast
  from initrd.print_all_file_lists [OF t(2), of n] show ?thesis using t by (auto simp: entry_names_def)
qed

text \<open>An image with one file, as the boot loader leaves it.\<close>

definition image_bytes :: "(u32 \<times> u8) list" where
  "image_bytes = [(0x300, 100), (0x301, 101), (0x302, 118), (0x310, 105), (0x311, 110), (0x312, 105), (0x313, 116), (0x314, 114), (0x315, 100),
     (0x3000, 1), (0x3005, 97), (0x3049, 0x10), (0x304C, 2), (0x4000, 104), (0x4001, 105)]"

definition image_mem :: memory where
  "image_mem a = (case map_of image_bytes a of Some v \<Rightarrow> v | None \<Rightarrow> 0)"

definition before_mount :: initrd_memory where
  "before_mount = demo\<lparr>mem := image_mem\<rparr>"

lemma image_on: "on_image image_mem 0x3000 demo_files"
proof -
  note ev = load32_def image_mem_def image_bytes_def
  have h: "header_at 0x3000 0 = 0x3004" by (simp add: header_at_def off_def)
  have n: "load32 image_mem 0x3000 = 1" "load32 image_mem 0x304C = 2" "load32 image_mem 0x3048 = 0x1000" by (simp_all add: ev)
  have "cstr image_mem 0x3005 (ascii ''a'')" by (simp add: ascii_def image_mem_def image_bytes_def)
  moreover have "bytes_at image_mem 0x4000 (Suc (Suc 0)) = ascii ''hi''" by (simp add: ascii_def image_mem_def image_bytes_def)
  moreover have "ascii ''a'' \<noteq> []" "length (ascii ''a'') < 64" "length (ascii ''hi'') = Suc (Suc 0)" by (simp_all add: ascii_def)
  ultimately show ?thesis
    by (simp add: on_image_def demo_files_def content_at_def h off_def n)
qed

lemma image_ranges: "image_area demo_image image_mem 0x3000 demo_files = [(0x300, 4), (0x310, 7), (0x3000, 4), (0x3004, 76), (0x4000, 2)]"
proof -
  have "load32 image_mem 0x3048 = 0x1000" by (simp add: load32_def image_mem_def image_bytes_def)
  then show ?thesis
    by (simp add: image_area_def contents_def content_at_def header_at_def off_def demo_files_def demo_image_def ascii_def)
qed

lemma image_is_placed: "image_placed demo_image image_mem 0x3000 demo_files [(0x200, 132)]"
proof -
  have c: "cstr image_mem 0x300 (ascii ''dev'')" "cstr image_mem 0x310 (ascii ''initrd'')"
    by (simp_all add: ascii_def image_mem_def image_bytes_def)
  have i: "lit_dev demo_image = 0x300" "lit_initrd demo_image = 0x310" "at_dirent demo_image = 0x200" "at_readdir demo_image = 0x40"
    "at_finddir demo_image = 0x50" "at_read demo_image = 0x10" by (simp_all add: demo_image_def)
  have ct: "contents image_mem 0x3000 demo_files = [(0x4000, 2)]" using image_ranges by (simp add: image_area_def)
  have "length demo_files = 1" by (simp add: demo_files_def)
  then have "clear_of (0x3000 + 4) (length demo_files * 76) ((0x300, 4) # contents image_mem 0x3000 demo_files)"
    by (simp add: ct clear_of_def apart_def)
  then show ?thesis
    unfolding image_placed_def i image_ranges using image_on c by (simp add: clear_of_def apart_def)
qed

lemma image_allots:
  "allots 0 [184, 184, length demo_files * 184] [(0x200, 132), (0x300, 4), (0x310, 7), (0x3000, 4), (0x3004, 76), (0x4000, 2)]
    (before_mount\<lparr>initrd_header := 0x3000, file_headers := 0x3000 + 4\<rparr>)"
proof (rule allots_before_heap)
  let ?s = "before_mount\<lparr>initrd_header := 0x3000, file_headers := 0x3000 + 4\<rparr>"
  have l: "sum_list [184, 184, length demo_files * 184] = 552" by (simp add: demo_files_def)
  have p: "placement_address ?s = 0x8000" "mem ?s = image_mem" by (simp_all add: before_mount_def demo_with_def)
  show "kheap ?s = None" by (simp add: before_mount_def demo_with_def)
  show "clear_of (placement_address ?s) (sum_list [184, 184, length demo_files * 184])
      [(0x200, 132), (0x300, 4), (0x310, 7), (0x3000, 4), (0x3004, 76), (0x4000, 2)]"
    unfolding l p by (simp add: clear_of_def apart_def)
  show "unat (placement_address ?s) + sum_list [184, 184, length demo_files * 184] < 2 ^ 32" unfolding l p by simp
  show "y \<noteq> 0 \<and> mem ?s y = 0" if "in_range (placement_address ?s) (sum_list [184, 184, length demo_files * 184]) y" for y
  proof -
    have "0x8000 \<le> unat y" using that unfolding l p by (simp add: in_range_interval)
    then have "\<not> y < 0x8000" by (simp add: word_less_nat_alt)
    then have "y \<noteq> 0" "map_of image_bytes y = None" by (auto simp: image_bytes_def)
    then show ?thesis unfolding p by (simp add: image_mem_def)
  qed
qed (simp_all add: demo_files_def)

theorem initialise_initrd_mounts_witness:
  "\<exists>t v. initialise_initrd demo_image 0 0x3000 before_mount = Inr (initrd_root t, t)
    \<and> print_all_file (initrd_driver demo_image 0) (t\<lparr>fs_root := initrd_root t\<rparr>) = Inr v
    \<and> console v = console t @ found_line (ascii ''dev'') @ found_line (ascii ''a'')"
proof -
  have m: "mem before_mount = image_mem" by (simp add: before_mount_def)
  have d: "at_dirent demo_image = 0x200" by (simp add: demo_image_def)
  show ?thesis
    using initialise_initrd_mounts [where rs = "[]" and s = before_mount and loc = "0x3000" and files = demo_files and img = demo_image and n = 0,
        unfolded m d image_ranges append.simps, OF image_is_placed image_allots]
    by (auto simp: demo_files_def)
qed

end
