(* ===== verification/Shell.thy ===== *)
theory Shell
  imports Initrd Keyboard
begin

text \<open>
  \<open>src/src/shell.c\<close>: the loop that reads a line from the keyboard and runs the command in it. The line
  is the buffer of 256 bytes at \<open>v\<close>. The commands are \<open>p -a\<close>, \<open>f -n\<close>, \<open>f -d\<close>, \<open>f -a\<close>, \<open>f -c\<close>, \<open>t -a\<close>, \<open>t -c\<close>,
  \<open>t -n\<close> and \<open>t -k\<close>. Characters are compared by their codes: 32 is a space, 45 is \<open>-\<close>.

  \<open>drv\<close> and \<open>n\<close> are as in \<open>Fs\<close> and \<open>Kernel_Heap\<close>, \<open>buf\<close> is the address of the local array of
  \<open>print_all_file_content\<close>, and \<open>eip\<close> what \<open>read_eip\<close> returns. A command that ends the running of the
  task for now leaves with a \<open>Jump\<close>.
\<close>

section \<open>State\<close>

record shell_memory = initrd_memory +
  kbd :: keyboard

type_synonym 'a shell = "'a shell_memory_scheme"

definition char_at :: "'a kmem \<Rightarrow> u32 \<Rightarrow> nat \<Rightarrow> u8" where
  "char_at s v i = load8 (mem s) (off v i)"

section \<open>The commands\<close>

definition page_test :: "u32 \<Rightarrow> 'a kmem \<Rightarrow> u32 \<times> 'a kmem" where
  "page_test v s =
     (if char_at s v 1 = 32 \<and> char_at s v 2 = 45 then
        if char_at s v 3 = 97 then (1, print_pages_status s)
        else (-1, s)
      else (-1, s))"

text \<open>The character after \<open>t -k\<close> is compared as a signed \<open>char\<close> with the digits 2 and 9.\<close>

definition thread_test :: "nat \<Rightarrow> u32 \<Rightarrow> u32 \<Rightarrow> 'a tasking \<Rightarrow> fault + (u32 control \<times> 'a tasking)" where
  "thread_test n eip v s =
     (if char_at s v 1 = 32 \<and> char_at s v 2 = 45 then
        if char_at s v 3 = 97 then ebind (print_task s) (\<lambda>s. Inr (Return 1, s))
        else if char_at s v 3 = 99 then Inr (Return 1, print_curtask s)
        else if char_at s v 3 = 110 then ebind (create_task n eip s) (\<lambda>s. Inr (Return 1, s))
        else if char_at s v 3 = 107 then
          if 57 < sint (char_at s v 5) \<or> sint (char_at s v 5) < 50 then Inr (Return 1, s)
          else ebind (task_exit_pid (scast (char_at s v 5) - 48) eip s) (\<lambda>(c, s).
                 case c of Return _ \<Rightarrow> Inr (Return 1, s) | Jump ip \<Rightarrow> Inr (Jump ip, s))
        else Inr (Return (-1), s)
      else Inr (Return (-1), s))"

text \<open>The name of a file to make or remove: 250 bytes of the line from its sixth character on.\<close>

definition file_name_arg :: "nat \<Rightarrow> u32 \<Rightarrow> 'a kmem \<Rightarrow> fault + (u32 \<times> 'a kmem)" where
  "file_name_arg n v s =
     ebind (malloc_s n 256 s) (\<lambda>(f, s). Inr (f, s\<lparr>mem := fst (memcpy (mem s) f (off v 5) 250)\<rparr>))"

definition file_test :: "('a fs) driver \<Rightarrow> nat \<Rightarrow> u32 \<Rightarrow> u32 \<Rightarrow> 'a fs \<Rightarrow> fault + (u32 \<times> 'a fs)" where
  "file_test drv n buf v s =
     (if char_at s v 1 = 32 \<and> char_at s v 2 = 45 then
        if char_at s v 3 = 110 then
          ebind (file_name_arg n v s) (\<lambda>(f, s).
          ebind (open_fs drv (fs_root s) f 1 1 s) (\<lambda>(_, s). Inr (1, s)))
        else if char_at s v 3 = 100 then
          ebind (file_name_arg n v s) (\<lambda>(f, s).
          ebind (close_fs drv (fs_root s) f s) (\<lambda>s. Inr (1, s)))
        else if char_at s v 3 = 97 then ebind (print_all_file drv s) (\<lambda>s. Inr (1, s))
        else if char_at s v 3 = 99 then ebind (print_all_file_content drv buf s) (\<lambda>s. Inr (1, s))
        else Inr (-1, s)
      else Inr (-1, s))"

text \<open>\<open>test_process\<close> ends without a value after a command of the \<open>t\<close> group.\<close>

definition test_process ::
  "('a fs) driver \<Rightarrow> nat \<Rightarrow> u32 \<Rightarrow> u32 \<Rightarrow> u32 \<Rightarrow> 'a fs \<Rightarrow> fault + (u32 option control \<times> 'a fs)" where
  "test_process drv n buf eip v s =
     (if char_at s v 0 = 112 then
        let s = kprintf (''page test:'' @ [CHR 0x0A]) [] s;
            r = page_test v s
        in Inr (Return (Some (fst r)), snd r)
      else if char_at s v 0 = 102 then
        let s = kprintf (''file test:'' @ [CHR 0x0A]) [] s
        in ebind (file_test drv n buf v s) (\<lambda>(error, s). Inr (Return (Some error), s))
      else if char_at s v 0 = 116 then
        let s = kprintf (''thread test:'' @ [CHR 0x0A]) [] s
        in ebind (thread_test n eip v s) (\<lambda>(c, s).
             case c of Return _ \<Rightarrow> Inr (Return None, s) | Jump ip \<Rightarrow> Inr (Jump ip, s))
      else Inr (Return (Some (-1)), s))"

section \<open>The loop\<close>

definition prompt :: "u8 list" where
  "prompt = ascii (CHR 0x0A # ''mashiro>>$ '')"

text \<open>
  One round of the \<open>while\<close>. \<open>polls\<close> are the interrupts of the keyboard between the polls of \<open>scanf\<close>, as
  in \<open>Keyboard\<close>; keys pressed while a command runs are part of the next poll. \<open>junk\<close> is what the
  register for the result holds when \<open>test_process\<close> gives no value. \<open>None\<close>: \<open>scanf\<close> is still waiting
  for the end of the line.
\<close>

definition shell_round ::
  "('a shell) driver \<Rightarrow> nat \<Rightarrow> u32 \<Rightarrow> u32 \<Rightarrow> u32 \<Rightarrow> u32 \<Rightarrow> u8 list list \<Rightarrow> 'a shell \<Rightarrow>
    (fault + (unit control \<times> u8 list list \<times> 'a shell)) option" where
  "shell_round drv n buf eip junk v polls s =
     (case scanf prompt (mem s) (kbd s) v polls of
        None \<Rightarrow> None
      | Some (m, k, out, rest) \<Rightarrow> Some (
          let s = s\<lparr>mem := m, kbd := k, console := console s @ out\<rparr>;
              s = kprintf [CHR 0x0A] [] s
          in ebind (test_process drv n buf eip v s) (\<lambda>(c, s).
               case c of
                 Jump ip \<Rightarrow> Inr (Jump ip, rest, s)
               | Return r \<Rightarrow>
                   let error = (case r of Some e \<Rightarrow> e | None \<Rightarrow> junk) in
                   if error = -1 then Inr (Return (), rest, kprintf (''unknown commond...'' @ [CHR 0x0A]) [] s)
                   else Inr (Return (), rest, s\<lparr>mem := fst (memset (mem s) v 0 256)\<rparr>))))"

text \<open>The rounds for as long as the polls give lines; a \<open>Jump\<close> stops them.\<close>

fun shell_rounds ::
  "('a shell) driver \<Rightarrow> nat \<Rightarrow> u32 \<Rightarrow> (u32 \<times> u32) list \<Rightarrow> u32 \<Rightarrow> u8 list list \<Rightarrow> 'a shell \<Rightarrow>
    fault + (unit control \<times> u8 list list \<times> 'a shell)" where
  "shell_rounds drv n buf [] v polls s = Inr (Return (), polls, s)"
| "shell_rounds drv n buf ((eip, junk) # envs) v polls s =
     (case shell_round drv n buf eip junk v polls s of
        None \<Rightarrow> Inr (Return (), polls, s)
      | Some r \<Rightarrow> ebind r (\<lambda>(c, rest, s).
          case c of Jump ip \<Rightarrow> Inr (Jump ip, rest, s) | Return _ \<Rightarrow> shell_rounds drv n buf envs v rest s))"

text \<open>\<open>init_shell\<close> with as many rounds as there are elements in \<open>envs\<close>; the code's loop has no end.\<close>

definition init_shell ::
  "('a shell) driver \<Rightarrow> nat \<Rightarrow> u32 \<Rightarrow> (u32 \<times> u32) list \<Rightarrow> u8 list list \<Rightarrow> 'a shell \<Rightarrow>
    fault + (unit control \<times> u8 list list \<times> 'a shell)" where
  "init_shell drv n buf envs polls s =
     (let s = kprintf [CHR 0x0A] [] s in
      ebind (malloc_s n 256 s) (\<lambda>(v, s).
        let s = s\<lparr>mem := fst (memset (mem s) v 0 256)\<rparr>
        in shell_rounds drv n buf envs v polls s))"

end
