(* ===== verification/Shell_Correctness.thy ===== *)
theory Shell_Correctness
  imports Shell Initrd_Correctness
begin

text \<open>
  What the shell of \<open>src/src/shell.c\<close> does from the keys pressed to what is printed, for the commands on
  files and pages, and what becomes of its buffer.
\<close>

section \<open>Reading the line\<close>

lemma scanf_line:
  assumes "10 \<in> set (polled polls s)"
  shows "\<exists>k rest. scanf tip m s v polls =
    Some (store_bytes m v (typed_line (polled polls s)), k, tip @ typed_line (polled polls s), rest)"
  using scanf_wait_line [of polls s m v tip] assms by (simp add: scanf_def)

text \<open>The state in which a round runs the command.\<close>

definition after_line :: "u32 \<Rightarrow> u8 list \<Rightarrow> keyboard \<Rightarrow> 'a shell \<Rightarrow> 'a shell" where
  "after_line v line k s = s\<lparr>mem := store_bytes (mem s) v line, kbd := k, console := console s @ prompt @ line @ [10]\<rparr>"

lemma shell_round_line:
  assumes "10 \<in> set (polled polls (kbd s))"
  defines "line \<equiv> typed_line (polled polls (kbd s))"
  obtains k rest where "shell_round drv n buf eip junk v polls s = Some (
      ebind (test_process drv n buf eip v (after_line v line k s)) (\<lambda>(c, s).
        case c of
          Jump ip \<Rightarrow> Inr (Jump ip, rest, s)
        | Return r \<Rightarrow>
            if (case r of Some e \<Rightarrow> e | None \<Rightarrow> junk) = -1
            then Inr (Return (), rest, kprintf (''unknown commond...'' @ [CHR 0x0A]) [] s)
            else Inr (Return (), rest, s\<lparr>mem := fst (memset (mem s) v 0 256)\<rparr>)))"
proof -
  obtain k rest where sc: "scanf prompt (mem s) (kbd s) v polls = Some (store_bytes (mem s) v line, k, prompt @ line, rest)"
    using scanf_line [OF assms(1)] unfolding line_def by blast
  have "kprintf [CHR 0x0A] [] (s\<lparr>mem := store_bytes (mem s) v line, kbd := k, console := console s @ (prompt @ line)\<rparr>) = after_line v line k s"
    by (simp add: kprintf_def ascii_def after_line_def)
  then show ?thesis
    using that [of k rest] unfolding shell_round_def sc Let_def by simp
qed

text \<open>Writing to the buffer keeps the files when the buffer is one of the ranges kept clear of them.\<close>

lemma mounted_buffer:
  fixes s :: "'a shell"
  assumes "mounted img rs s files" and "(v, b) \<in> set rs" and "\<And>x. \<not> in_range v b x \<Longrightarrow> m x = mem s x"
  shows "mounted img rs (s\<lparr>mem := m, kbd := k, console := c\<rparr>) files"
proof -
  have "mounted img rs (s\<lparr>mem := m, console := c\<rparr>) files"
    by (rule mounted_scratch [OF assms(1), where a = v and k = b]) (use assms(2,3) in auto)
  then show ?thesis by (rule mounted_same) (simp add: same_files_def same_on_def)
qed

lemma cleared:
  "i < 256 \<Longrightarrow> fst (memset m v 0 256) (v + of_nat i) = 0" "\<not> in_range v 256 x \<Longrightarrow> fst (memset m v 0 256) x = m x"
proof -
  have l: "nat (sint (256 :: u32)) = 256" by (simp add: sint_u32)
  show "fst (memset m v 0 256) (v + of_nat i) = 0" if "i < 256"
    unfolding memset_def fst_conv l by (subst memset_loop_in) (use that in_range_offset [of i 256 v] in auto)
  show "fst (memset m v 0 256) x = m x" if "\<not> in_range v 256 x"
    unfolding memset_def fst_conv l by (rule memset_loop_other [OF that]) simp
qed

section \<open>Listing the files\<close>

lemma run_list_command:
  fixes s :: "'a shell"
  assumes "mounted img rs s files" and "bytes_at (mem s) v 4 = ascii ''f -a''"
  shows "\<exists>t. test_process (initrd_driver img n) n buf eip v s = Inr (Return (Some 1), t) \<and> mounted img rs t files
    \<and> console t = console s @ ascii ''file test:'' @ [10] @ concat (List.map found_line (ascii ''dev'' # List.map fst files))"
proof -
  let ?s = "s\<lparr>console := console s @ ascii ''file test:'' @ [10]\<rparr>"
  have k: "kprintf (''file test:'' @ [CHR 0x0A]) [] s = ?s" by (simp add: kprintf_def ascii_def)
  have four: "(4 :: nat) = Suc (Suc (Suc (Suc 0)))" by simp
  have c: "char_at s v 0 = 102" "char_at s v 1 = 32" "char_at s v 2 = 45" "char_at s v 3 = 97"
    using assms(2) unfolding four by (simp_all add: char_at_def load8_def off_def ascii_def add.assoc)
  have ck: "char_at ?s v i = char_at s v i" for i by (simp add: char_at_def)
  obtain t where t: "print_all_file (initrd_driver img n) ?s = Inr t" "mounted img rs t files"
    "console t = console ?s @ concat (List.map found_line (ascii ''dev'' # List.map fst files))"
    using initrd.print_all_file_lists [where n = n, OF mounted_printed [OF assms(1), where c = "console ?s"]]
    by (auto simp: entry_names_def)
  have "file_test (initrd_driver img n) n buf v ?s = Inr (1, t)"
    using c ck t(1) by (simp add: file_test_def)
  then have "test_process (initrd_driver img n) n buf eip v s = Inr (Return (Some 1), t)"
    using c(1) unfolding test_process_def Let_def k by simp
  then show ?thesis using t by auto
qed

lemma list_round:
  fixes s :: "'a shell"
  assumes "mounted img rs s files" and "(v, 256) \<in> set rs" and "10 \<in> set (polled polls (kbd s))"
    and "length (typed_line (polled polls (kbd s))) \<le> 256"
    and "bytes_at (store_bytes (mem s) v (typed_line (polled polls (kbd s)))) v 4 = ascii ''f -a''"
  shows "\<exists>rest t. shell_round (initrd_driver img n) n buf eip junk v polls s = Some (Inr (Return (), rest, t))
    \<and> mounted img rs t files \<and> (\<forall>i < 256. mem t (v + of_nat i) = 0)
    \<and> console t = console s @ prompt @ typed_line (polled polls (kbd s)) @ [10] @ ascii ''file test:'' @ [10]
        @ concat (List.map found_line (ascii ''dev'' # List.map fst files))"
proof -
  let ?l = "typed_line (polled polls (kbd s))"
  obtain k rest where r: "shell_round (initrd_driver img n) n buf eip junk v polls s = Some (
      ebind (test_process (initrd_driver img n) n buf eip v (after_line v ?l k s)) (\<lambda>(c, s).
        case c of
          Jump ip \<Rightarrow> Inr (Jump ip, rest, s)
        | Return r \<Rightarrow>
            if (case r of Some e \<Rightarrow> e | None \<Rightarrow> junk) = -1
            then Inr (Return (), rest, kprintf (''unknown commond...'' @ [CHR 0x0A]) [] s)
            else Inr (Return (), rest, s\<lparr>mem := fst (memset (mem s) v 0 256)\<rparr>)))"
    by (rule shell_round_line [OF assms(3)])
  have "mounted img rs (after_line v ?l k s) files"
    unfolding after_line_def
    by (rule mounted_buffer [OF assms(1,2)]) (use assms(4) in_range_mono in \<open>auto intro: store_bytes_other\<close>)
  moreover have "bytes_at (mem (after_line v ?l k s)) v 4 = ascii ''f -a''"
    using assms(5) by (simp add: after_line_def)
  ultimately obtain t where t: "test_process (initrd_driver img n) n buf eip v (after_line v ?l k s) = Inr (Return (Some 1), t)"
    "mounted img rs t files"
    "console t = console (after_line v ?l k s) @ ascii ''file test:'' @ [10] @ concat (List.map found_line (ascii ''dev'' # List.map fst files))"
    using run_list_command by blast
  let ?t = "t\<lparr>mem := fst (memset (mem t) v 0 256)\<rparr>"
  have "mounted img rs (t\<lparr>mem := fst (memset (mem t) v 0 256), kbd := kbd t, console := console t\<rparr>) files"
    by (rule mounted_buffer [OF t(2) assms(2)]) (rule cleared(2))
  then have "mounted img rs ?t files" by simp
  then show ?thesis
    using r t(1,3) cleared(1) by (intro exI [of _ rest] exI [of _ ?t]) (simp add: after_line_def)
qed

lemma store_bytes_at:
  "length xs \<le> 2 ^ 32 \<Longrightarrow> n \<le> length xs \<Longrightarrow> bytes_at (store_bytes m a xs) a n = take n xs"
  by (rule bytes_at_eqI) (simp_all add: store_bytes_in)

text \<open>
  Property C7. From the keys to the screen: when the keys pressed, at whatever times between the polls, give
  the line \<open>f -a\<close>, the round of the shell returns after printing the prompt, the line as it was typed, and
  the name of every file of the initrd; it has cleared its buffer, and the files are still mounted.
\<close>

theorem typed_list_command:
  fixes s :: "'a shell"
  assumes "mounted img rs s files" and "(v, 256) \<in> set rs"
    and "10 \<in> set (polled polls (kbd s))" and "typed_line (polled polls (kbd s)) = ascii ''f -a''"
  shows "\<exists>rest t. shell_round (initrd_driver img n) n buf eip junk v polls s = Some (Inr (Return (), rest, t))
    \<and> mounted img rs t files \<and> (\<forall>i < 256. mem t (v + of_nat i) = 0)
    \<and> console t = console s @ prompt @ ascii ''f -a'' @ [10] @ ascii ''file test:'' @ [10]
        @ concat (List.map found_line (ascii ''dev'' # List.map fst files))"
proof -
  have l: "length (ascii ''f -a'') = 4" by (simp add: ascii_def)
  show ?thesis
    using list_round [OF assms(1-3), of n buf eip junk] store_bytes_at [of "ascii ''f -a''" 4 "mem s" v] l
    unfolding assms(4) by simp
qed

text \<open>
  Property C36. A line that is no command is not cleared from the buffer, and the next line is stored over its
  start: after an unknown line that ends in the argument of another command, the first letter alone of
  that command runs it with the old argument.
\<close>

theorem unknown_command_leaves_line:
  fixes s :: "'a shell"
  assumes "mounted img rs s files" and "(v, 256) \<in> set rs"
    and "10 \<in> set (polled polls (kbd s))" and "typed_line (polled polls (kbd s)) = c # ascii '' -a''"
    and "c \<noteq> 112" and "c \<noteq> 102" and "c \<noteq> 116"
  shows "\<exists>rest t. shell_round (initrd_driver img n) n buf eip junk v polls s = Some (Inr (Return (), rest, t))
    \<and> console t = console s @ prompt @ c # ascii '' -a'' @ [10] @ ascii ''unknown commond...'' @ [10]
    \<and> bytes_at (mem t) v 4 = c # ascii '' -a''
    \<and> (10 \<in> set (polled later (kbd t)) \<and> typed_line (polled later (kbd t)) = ascii ''f'' \<longrightarrow>
        (\<exists>rest' u. shell_round (initrd_driver img n) n buf eip junk v later t = Some (Inr (Return (), rest', u))
          \<and> console u = console t @ prompt @ ascii ''f'' @ [10] @ ascii ''file test:'' @ [10]
              @ concat (List.map found_line (ascii ''dev'' # List.map fst files))))"
proof -
  let ?l = "c # ascii '' -a''"
  have len: "length ?l = 4" by (simp add: ascii_def)
  obtain k rest where r: "shell_round (initrd_driver img n) n buf eip junk v polls s = Some (
      ebind (test_process (initrd_driver img n) n buf eip v (after_line v ?l k s)) (\<lambda>(c, s).
        case c of
          Jump ip \<Rightarrow> Inr (Jump ip, rest, s)
        | Return r \<Rightarrow>
            if (case r of Some e \<Rightarrow> e | None \<Rightarrow> junk) = -1
            then Inr (Return (), rest, kprintf (''unknown commond...'' @ [CHR 0x0A]) [] s)
            else Inr (Return (), rest, s\<lparr>mem := fst (memset (mem s) v 0 256)\<rparr>)))"
    by (rule shell_round_line [OF assms(3), unfolded assms(4)])
  let ?u = "after_line v ?l k s"
  let ?t = "kprintf (''unknown commond...'' @ [CHR 0x0A]) [] ?u"
  have bytes: "bytes_at (mem ?u) v 4 = ?l"
    using store_bytes_at [of ?l 4 "mem s" v] len by (simp add: after_line_def del: store_bytes.simps)
  have "char_at ?u v 0 = c"
    using store_bytes_in [of 0 ?l "mem s" v] len by (simp add: char_at_def load8_def off_def after_line_def del: store_bytes.simps)
  then have tp: "test_process (initrd_driver img n) n buf eip v ?u = Inr (Return (Some (-1)), ?u)"
    using assms(5-7) by (simp add: test_process_def)
  have round: "shell_round (initrd_driver img n) n buf eip junk v polls s = Some (Inr (Return (), rest, ?t))"
    using r by (simp add: tp)
  have "mounted img rs ?u files"
    unfolding after_line_def
    by (rule mounted_buffer [OF assms(1,2)])
      (rule store_bytes_other, use len in_range_mono in \<open>auto simp: ascii_def\<close>)
  then have m: "mounted img rs ?t files"
    unfolding kprintf_def by (rule mounted_printed)
  show ?thesis
  proof (rule exI [of _ rest], rule exI [of _ ?t], intro conjI impI)
    show "shell_round (initrd_driver img n) n buf eip junk v polls s = Some (Inr (Return (), rest, ?t))" by (rule round)
    show "console ?t = console s @ prompt @ c # ascii '' -a'' @ [10] @ ascii ''unknown commond...'' @ [10]"
      by (simp add: kprintf_def ascii_def after_line_def)
    show "bytes_at (mem ?t) v 4 = c # ascii '' -a''" using bytes by simp
  next
    assume a: "10 \<in> set (polled later (kbd ?t)) \<and> typed_line (polled later (kbd ?t)) = ascii ''f''"
    have "bytes_at (store_bytes (mem ?t) v (ascii ''f'')) v 4 = ascii ''f -a''"
    proof (rule bytes_at_eqI)
      fix i :: nat assume i: "i < 4"
      have b: "mem ?t (v + of_nat i) = ?l ! i"
        using bytes i nth_bytes_at [of i 4 "mem ?t" v] by simp
      have o: "of_nat i = (0 :: u32) \<longleftrightarrow> i = 0"
        using i unat_of_nat_small [of i] by (cases "i = 0") (auto simp flip: unat_eq_zero)
      show "store_bytes (mem ?t) v (ascii ''f'') (v + of_nat i) = ascii ''f -a'' ! i"
      proof (cases i)
        case 0
        then show ?thesis by (simp add: ascii_def)
      next
        case (Suc j)
        then show ?thesis using b o i by (simp add: ascii_def)
      qed
    qed (simp add: ascii_def)
    then show "\<exists>rest' u. shell_round (initrd_driver img n) n buf eip junk v later ?t = Some (Inr (Return (), rest', u))
          \<and> console u = console ?t @ prompt @ ascii ''f'' @ [10] @ ascii ''file test:'' @ [10]
              @ concat (List.map found_line (ascii ''dev'' # List.map fst files))"
      using list_round [OF m assms(2), of later n buf eip junk] a by (auto simp: ascii_def)
  qed
qed

section \<open>A session\<close>

definition demo_shell :: shell_memory where
  "demo_shell = demo_with \<lparr>kbd = fresh_keyboard 0 0\<rparr>"

lemma kbd_demo: "kbd demo_shell = fresh_keyboard 0 0"
  by (simp add: demo_shell_def demo_with_def)

text \<open>Keys pressed one by one, each polled before the next.\<close>

definition keys_at :: "u32 \<Rightarrow> keyboard \<Rightarrow> bool" where
  "keys_at i s \<longleftrightarrow> keyboard_buffer_start s = i \<and> keyboard_buffer_end s = i
     \<and> current_layout s = GB \<and> gb_map s = gb"

lemma poll_key:
  assumes "keys_at i s" and "i < 255" and "plain_key (fresh_keyboard 0 0) sc"
  shows "fst (poll [sc] s) = key_char (fresh_keyboard 0 0) sc \<and> keys_at (i + 1) (snd (poll [sc] s))"
proof -
  have l: "layout_map s = layout_map (fresh_keyboard 0 0)" using assms(1) by (simp add: keys_at_def layout_map_def fresh_keyboard_def)
  have h: "keyboard_handler sc s = buffer_put (key_char (fresh_keyboard 0 0) sc) s"
    using handler_plain [of s sc] assms(3) l by (simp add: plain_key_def key_char_def)
  have n: "(i + 1) AND 255 = i + 1"
  proof -
    have m: "(255 :: u32) = mask 8" by (simp add: mask_eq_exp_minus_1)
    have "unat (i + 1) = unat i + 1" "unat i < 255"
      using assms(2) by (simp_all add: word_less_nat_alt unat_word_ariths)
    then have "unat ((i + 1) AND 255) = unat (i + 1)"
      by (simp only: m unat_and_mask)
        simp
    then show ?thesis by (simp add: word_unat_eq_iff)
  qed
  have "i + 1 \<noteq> i" "i \<noteq> i - 1" by simp_all
  then show ?thesis
    using assms(1) n unfolding keys_at_def
    by (simp add: poll_def h buffer_put_def keyboard_getchar_def)
qed

lemma polled_keys:
  assumes "keys_at i s" and "unat i + length scs \<le> 255" and "\<forall>sc \<in> set scs. plain_key (fresh_keyboard 0 0) sc"
  shows "polled (List.map (\<lambda>sc. [sc]) scs) s = List.map (key_char (fresh_keyboard 0 0)) scs"
  using assms
proof (induction scs arbitrary: i s)
  case (Cons sc scs)
  have i: "i < 255" using Cons.prems(2) by (simp add: word_less_nat_alt)
  then have "unat (i + 1) = unat i + 1" by (simp add: word_less_nat_alt unat_word_ariths)
  moreover have "fst (poll [sc] s) = key_char (fresh_keyboard 0 0) sc" "keys_at (i + 1) (snd (poll [sc] s))"
    using poll_key [OF Cons.prems(1) i] Cons.prems(3) by simp_all
  ultimately show ?case
    using Cons.IH [of "i + 1" "snd (poll [sc] s)"] Cons.prems by (cases "poll [sc] s") simp
qed simp

lemma demo_keys:
  "polled [[33], [57], [12], [30], [28]] (kbd demo_shell) = ascii ''f -a'' @ [10]"
  "polled [[16], [57], [12], [30], [28]] (kbd demo_shell) = ascii ''q -a'' @ [10]"
proof -
  have f: "keys_at 0 (kbd demo_shell)" by (simp add: kbd_demo keys_at_def fresh_keyboard_def)
  have p: "\<forall>sc \<in> set [33, 57, 12, 30, 28, 16]. plain_key (fresh_keyboard 0 0) sc"
    by (simp add: plain_key_def all_less_list upt_conv_Cons gb_def control_keys_def RELEASED_MASK_def)
  have c: "List.map (key_char (fresh_keyboard 0 0)) [33, 57, 12, 30, 28, 16] = ascii ''f -a'' @ [10, 113]"
    by (simp add: key_char_def gb_def gb_keys_def keys_after_slash_def pad128_def ascii_def shifted_def)
  show "polled [[33], [57], [12], [30], [28]] (kbd demo_shell) = ascii ''f -a'' @ [10]"
    using polled_keys [OF f, of "[33, 57, 12, 30, 28]"] p c by (simp add: ascii_def)
  show "polled [[16], [57], [12], [30], [28]] (kbd demo_shell) = ascii ''q -a'' @ [10]"
    using polled_keys [OF f, of "[16, 57, 12, 30, 28]"] p c by (simp add: ascii_def)
qed

lemma demo_shell_mounted: "mounted demo_image [(0x5000, 256), (0x6000, 256)] demo_shell demo_files"
  unfolding demo_shell_def by (rule demo_mounted)

theorem typed_list_command_witness:
  "\<exists>rest t. shell_round (initrd_driver demo_image 0) 0 0x5000 0 0 0x6000 [[33], [57], [12], [30], [28]] demo_shell
      = Some (Inr (Return (), rest, t))
    \<and> console t = prompt @ ascii ''f -a'' @ [10] @ ascii ''file test:'' @ [10] @ found_line (ascii ''dev'') @ found_line (ascii ''a'')"
proof -
  have k: "10 \<in> set (polled [[33], [57], [12], [30], [28]] (kbd demo_shell))"
    "typed_line (polled [[33], [57], [12], [30], [28]] (kbd demo_shell)) = ascii ''f -a''"
    unfolding demo_keys by (simp_all add: ascii_def)
  have v: "(0x6000, 256) \<in> set [(0x5000, 256), (0x6000 :: u32, 256 :: nat)]" by simp
  show ?thesis
    using typed_list_command [OF demo_shell_mounted v k, of 0 "0x5000" 0 0]
    by (auto simp: demo_files_def demo_shell_def demo_console)
qed

theorem unknown_command_leaves_line_witness:
  "\<exists>rest t. shell_round (initrd_driver demo_image 0) 0 0x5000 0 0 0x6000 [[16], [57], [12], [30], [28]] demo_shell
      = Some (Inr (Return (), rest, t))
    \<and> bytes_at (mem t) 0x6000 4 = ascii ''q -a''"
proof -
  have k: "10 \<in> set (polled [[16], [57], [12], [30], [28]] (kbd demo_shell))"
    "typed_line (polled [[16], [57], [12], [30], [28]] (kbd demo_shell)) = 113 # ascii '' -a''"
    unfolding demo_keys by (simp_all add: ascii_def)
  have v: "(0x6000, 256) \<in> set [(0x5000, 256), (0x6000 :: u32, 256 :: nat)]" by simp
  have q: "113 # ascii '' -a'' = ascii ''q -a''" by (simp add: ascii_def)
  show ?thesis
    using unknown_command_leaves_line [OF demo_shell_mounted v k, of 0 "0x5000" 0 0 "[]"] unfolding q by auto
qed

end
