(* ===== verification/Boot.thy ===== *)
theory Boot
  imports Shell_Correctness Descriptor_Tables
begin

text \<open>
  \<open>src/src/main.c\<close>: the initialisation of the kernel in the order of \<open>main\<close>, and where the handlers that
  it registers lead. The state is the descriptor tables, the table of handlers, and the memory with the
  globals of the other files.
\<close>

section \<open>The handlers\<close>

text \<open>
  What the handlers do. A handler can end with a fault (\<open>page_fault\<close> spins) or leave with a jump (the
  timer switches tasks); \<open>eip\<close> is what \<open>read_eip\<close> returns, \<open>cr2\<close> the faulting address, \<open>scancode\<close> the byte
  the keyboard offers.
\<close>

definition run_handler ::
  "u32 \<Rightarrow> u32 \<Rightarrow> u8 \<Rightarrow> handler \<Rightarrow> registers \<Rightarrow> isr_state \<times> (fault + unit control) \<times> 'a shell \<Rightarrow>
    isr_state \<times> (fault + unit control) \<times> 'a shell" where
  "run_handler eip cr2 scancode h reg st =
     (case st of (isrs, _, s) \<Rightarrow>
       (case h of
          Timer_callback \<Rightarrow> (case timer_callback eip s of (c, s) \<Rightarrow> (isrs, Inr c, s))
        | Keyboard_handler \<Rightarrow> (isrs, Inr (Return ()), s\<lparr>kbd := keyboard_handler scancode (kbd s)\<rparr>)
        | Page_fault \<Rightarrow> (case page_fault cr2 reg s of (f, s) \<Rightarrow> (isrs, Inl f, s))))"

section \<open>Starting\<close>

text \<open>The addresses of the descriptor tables, their pointers and the stubs, which the linker gives.\<close>

record table_image =
  at_gdt :: u32
  at_gdt_ptr :: u32
  at_idt :: u32
  at_idt_ptr :: u32
  stub_isr :: "nat \<Rightarrow> u32"
  stub_irq :: "nat \<Rightarrow> u32"

definition say :: "string \<Rightarrow> 'a kmem \<Rightarrow> 'a kmem" where
  "say msg s = kprintf (msg @ [CHR 0x0A]) [] s"

text \<open>
  \<open>main\<close> up to its call of \<open>fork\<close>. \<open>monitor_clear\<close> empties the screen, so what was printed starts
  anew; \<open>mods_addr\<close> is the field at 24 of the boot loader's struct.
\<close>

definition main_boot ::
  "image \<Rightarrow> table_image \<Rightarrow> nat \<Rightarrow> u32 \<Rightarrow> u32 \<Rightarrow> tables \<times> isr_state \<times> 'a shell \<Rightarrow> fault + (tables \<times> isr_state \<times> 'a shell)" where
  "main_boot img ti n mboot_ptr initial_stack st =
     (case st of (dt, isrs, s) \<Rightarrow>
      let s = s\<lparr>console := []\<rparr>;
          s = say ''hello, word!'' s;
          s = s\<lparr>initial_esp := initial_stack\<rparr>;
          s = say ''[*]initialising descriptor tables...'' s;
          dt = init_descriptor_tables (at_gdt ti) (at_gdt_ptr ti) (at_idt ti) (at_idt_ptr ti) (stub_isr ti) (stub_irq ti) dt;
          s = say ''[^]descriptor tables ready'' s;
          s = s\<lparr>if_flag := True\<rparr>;
          s = say ''[*]initialising timer...'' s
      in ebind (init_timer 100 isrs) (\<lambda>isrs.
      let s = say ''[^]timer ready'' s;
          mods_addr = peek s (off mboot_ptr 24);
          initrd_location = peek s mods_addr;
          initrd_end = peek s (mods_addr + 4);
          s = s\<lparr>placement_address := initrd_end\<rparr>;
          s = say ''[*]initialising page...'' s
      in ebind (init_paging n isrs s) (\<lambda>(isrs, s).
      let s = say ''[^]page ready'' s;
          s = say ''[*]initialising multithread...'' s
      in ebind (init_multitask n s) (\<lambda>s.
      let s = say ''[^]multithread raedy'' s;
          s = say ''[*]initialising keyboard I/O...'' s;
          r = init_keyboard_driver (isrs, kbd s);
          isrs = fst r;
          s = s\<lparr>kbd := snd r\<rparr>;
          s = say ''[^]keyboard ready'' s;
          s = say ''[*]initialising VFS...'' s
      in ebind (initialise_initrd img n initrd_location s) (\<lambda>(root, s).
      let s = s\<lparr>fs_root := root\<rparr>;
          s = say ''[^]VFS ready'' s;
          s = say (''=============welcome to mashiro'' @ [CHR 0x27] @ ''s OS=============='') s;
          s = say ''=============p -a                      =============='' s;
          s = say ''=============f -a -c -n -d            =============='' s;
          s = say ''=============t -a -c -n -k            =============='' s
      in Inr (dt, isrs, s))))))"

text \<open>
  What \<open>main\<close> does with the result of \<open>fork\<close>: the new task runs the shell, here for the rounds of \<open>envs\<close>,
  and the first task spins.
\<close>

definition main_forked ::
  "image \<Rightarrow> nat \<Rightarrow> u32 \<Rightarrow> (u32 \<times> u32) list \<Rightarrow> u8 list list \<Rightarrow> u32 \<times> 'a shell \<Rightarrow>
    fault + (unit control \<times> u8 list list \<times> 'a shell)" where
  "main_forked img n buf envs polls r =
     (case r of (ret, s) \<Rightarrow> if ret = 0 then init_shell (initrd_driver img n) n buf envs polls s else Inl Hang)"

definition main ::
  "image \<Rightarrow> table_image \<Rightarrow> nat \<Rightarrow> u32 \<Rightarrow> (u32 \<times> u32) list \<Rightarrow> u8 list list \<Rightarrow> u32 \<Rightarrow> u32 \<Rightarrow> u32 \<Rightarrow>
    tables \<times> isr_state \<times> 'a shell \<Rightarrow> fault + (unit control \<times> u8 list list \<times> 'a shell)" where
  "main img ti n buf envs polls eip mboot_ptr initial_stack st =
     ebind (main_boot img ti n mboot_ptr initial_stack st) (\<lambda>(dt, isrs, s).
     ebind (fork n eip s) (main_forked img n buf envs polls))"

section \<open>Where interrupts lead\<close>

text \<open>
  Property C25. With the handlers registered in the order of \<open>main\<close>, a tick of the timer is acknowledged
  at the master controller and runs the switch of tasks, a key is acknowledged there and goes to the
  keyboard's handler, and a page fault, which is not acknowledged, prints its address and never returns.
\<close>

theorem interrupts_reach_handlers:
  fixes s :: "'a shell"
  shows "\<exists>isrs1. init_timer 100 isrs = Inr isrs1 \<and>
    (let isrs2 = fst (init_keyboard_driver (register_interrupt_handler 14 Page_fault isrs1, kbd s));
         acked = isrs2\<lparr>isr_ports := isr_ports isrs2 @ [(0x20, 0x20)]\<rparr>;
         run = run_handler eip cr2 scancode
     in (int_no reg = IRQ0 \<longrightarrow> irq_handler run reg (isrs2, r, s)
           = (acked, Inr (fst (timer_callback eip s)), snd (timer_callback eip s)))
      \<and> (int_no reg = IRQ1 \<longrightarrow> irq_handler run reg (isrs2, r, s)
           = (acked, Inr (Return ()), s\<lparr>kbd := keyboard_handler scancode (kbd s)\<rparr>))
      \<and> (int_no reg = 14 \<longrightarrow> isr_handler run reg (isrs2, r, s)
           = (isrs2, Inl Hang, s\<lparr>console := console s @ ascii ''page fault:'' @ hex_digits (unat cr2) @ [10]\<rparr>)))"
proof -
  obtain isrs1 where t: "init_timer 100 isrs = Inr isrs1" by (simp add: init_timer_def Let_def)
  then have h: "interrupt_handler isrs1 IRQ0 = Some Timer_callback"
    by (auto simp: init_timer_def Let_def)
  let ?i2 = "fst (init_keyboard_driver (register_interrupt_handler 14 Page_fault isrs1, kbd s))"
  have i2: "interrupt_handler ?i2 IRQ0 = Some Timer_callback" "interrupt_handler ?i2 IRQ1 = Some Keyboard_handler"
    "interrupt_handler ?i2 14 = Some Page_fault"
    using h by (simp_all add: init_keyboard_driver_def IRQ0_def IRQ1_def)
  have pf: "page_fault cr2 reg s = (Hang, s\<lparr>console := console s @ ascii ''page fault:'' @ hex_digits (unat cr2) @ [10]\<rparr>)"
    by (simp add: page_fault_def kprintf_def ascii_def)
  show ?thesis
    using t i2 by (intro exI [of _ isrs1])
      (auto simp: irq_handler_def isr_handler_def run_handler_def outb_def IRQ0_def IRQ1_def pf Let_def split: prod.split)
qed

theorem interrupts_reach_handlers_witness:
  "\<exists>isrs1. init_timer 100 \<lparr>interrupt_handler = \<lambda>_. None, isr_ports = [], unhandled = []\<rparr> = Inr isrs1 \<and>
    (let isrs2 = fst (init_keyboard_driver (register_interrupt_handler 14 Page_fault isrs1, kbd demo_shell))
     in irq_handler (run_handler 0 0 30) (quiet_registers IRQ1) (isrs2, Inr (Return ()), demo_shell)
       = (isrs2\<lparr>isr_ports := isr_ports isrs2 @ [(0x20, 0x20)]\<rparr>, Inr (Return ()),
          demo_shell\<lparr>kbd := keyboard_handler 30 (kbd demo_shell)\<rparr>))"
proof -
  have "int_no (quiet_registers IRQ1) = IRQ1" by (simp add: quiet_registers_def)
  then show ?thesis
    using interrupts_reach_handlers [where isrs = "\<lparr>interrupt_handler = \<lambda>_. None, isr_ports = [], unhandled = []\<rparr>"
        and s = demo_shell and eip = "0" and ?cr2.0 = "0" and scancode = "30" and reg = "quiet_registers IRQ1" and r = "Inr (Return ())"]
    by (metis (no_types, lifting))
qed

end
