(* ===== verification/Boot_Stack.thy ===== *)
theory Boot_Stack
  imports Paging_Start Task_Start
begin

text \<open>
  The new stack of \<open>init_multitask\<close> on the kernel that \<open>init_paging\<close> leaves: \<open>map_stack\<close> makes two page tables,
  whose blocks come from the heap, enters them in the current directory, and gives the three pages frames; the stack
  is copied there, and the struct of the first task is cut from the heap.
\<close>

section \<open>The running kernel\<close>

text \<open>
  The kernel's tables with the directory at \<open>D\<close>, the current directory at 0xC0081000, which shares the table
  of the heap's pages, the hole the heap lists first, and the first \<open>M\<close> frames in use.
\<close>

definition kernel_up :: "nat \<Rightarrow> u32 \<Rightarrow> nat \<Rightarrow> nat \<Rightarrow> u32 \<Rightarrow> nat \<Rightarrow> 'a kmem \<Rightarrow> bool" where
  "kernel_up c hp T M D N s \<longleftrightarrow> kernel_tables D N s \<and> cur_vm_page_dir s = 0xC0081000
     \<and> peek s (off 0xC0081000 0xC00) = off D 0x3000 \<and> heap_front c hp T s
     \<and> frame_set s = {..<M} \<and> frame_count s = 4096 \<and> unat (frames s) + 0x200 \<le> unat D"

text \<open>
  What a step leaves alone: the globals, the memory below the bitmap, the part of the hole that is still free, from
  \<open>L\<close> on, and what lies after the heap.
\<close>

definition beside :: "nat \<Rightarrow> 'a kmem \<Rightarrow> 'a kmem \<Rightarrow> bool" where
  "beside L s t \<longleftrightarrow> kept s t \<and> frames t = frames s \<and> if_flag t = if_flag s
     \<and> (\<forall>x. unat x < unat (frames s) \<or> L \<le> unat x \<and> unat x < 0xC00C0000 \<or> 0xC0110000 \<le> unat x \<longrightarrow> mem t x = mem s x)"

lemma beside_trans: "beside L s t \<Longrightarrow> beside L' t u \<Longrightarrow> L \<le> L' \<Longrightarrow> beside L' s u"
  unfolding beside_def using kept_trans by fastforce

lemma beside_mono: "beside L s t \<Longrightarrow> L \<le> L' \<Longrightarrow> beside L' s t"
  unfolding beside_def by auto

lemma kernel_up_low:
  assumes "kernel_up c hp T M D N s"
  shows "unat D \<le> 0x3FA000" and "unat D + 0x6000 = N * 0x1000" and "N \<le> 1024" and "unat (frames_bitmap_size s) = 0x200"
    and "bitmap_ok s" and "0xC0080000 \<le> unat hp"
proof -
  show d: "unat D + 0x6000 = N * 0x1000" "N \<le> 1024" using assms by (simp_all add: kernel_up_def kernel_tables_def)
  then show "unat D \<le> 0x3FA000" by linarith
  show b: "unat (frames_bitmap_size s) = 0x200" using assms by (simp add: kernel_up_def frame_count_def)
  then have "frames_bitmap_size s = 0x200" by (simp add: word_unat_eq_iff)
  then show "bitmap_ok s" using assms d by (simp add: bitmap_ok_def kernel_up_def)
  show "0xC0080000 \<le> unat hp" using assms by (simp add: kernel_up_def heap_front_def)
qed

section \<open>One page\<close>

lemma page_gets_frame:
  fixes s :: "'a kmem"
  assumes up: "kernel_up c hp T M D N s" and P: "0xC0083004 \<le> unat P" "unat P + 0x1000 \<le> unat hp" and j: "j < 1024"
    and e: "peek s (page_entry P j) = 0" and M: "M < 4096" and hp: "unat hp \<le> 0xC00A0000"
  defines "t \<equiv> alloc_frame (page_entry P j) 0 1 s"
  shows "kernel_up c hp T (Suc M) D N t" and "beside (unat hp) s t" and "peek t (page_entry P j) = entry_word 0 0 1 (of_nat M)"
    and "\<And>i. i < 1024 \<Longrightarrow> i \<noteq> j \<Longrightarrow> peek t (page_entry P i) = peek s (page_entry P i)"
    and "\<And>i. i < 1024 \<Longrightarrow> peek t (off 0xC0081000 (4 * i)) = peek s (off 0xC0081000 (4 * i))"
    and "\<And>x. \<not> (unat P \<le> unat x \<and> unat x < unat P + 0x1000) \<Longrightarrow> 0x400000 \<le> unat x \<Longrightarrow> mem t x = mem s x"
proof -
  note low = kernel_up_low [OF up]
  have f: "frame_set s = {..<M}" "frame_count s = 4096" "unat (frames s) + 0x200 \<le> unat D" using up by (simp_all add: kernel_up_def)
  have "apart (frames s) 0x200 P 0x1000" using P low hp f by (intro apart_unat) simp_all
  then have off: "table_off s P" using low(4,5) by (simp add: table_off_def apart_sym)
  have eq: "t = fill_table P [j..<Suc j] s" by (simp add: t_def)
  have pre: "peek s (page_entry P i) = 0" if "j \<le> i" "i < Suc j" for i using that e by (metis le_SucE le_antisym less_Suc_eq_le)
  have le: "Suc j \<le> 1024" "M + (Suc j - j) \<le> frame_count s" using j M f(2) by simp_all
  note ft = fill_table_filled [OF off pre le(1) f(1) le(2), folded eq]
  have out: "mem t x = mem s x" if "\<not> (unat P \<le> unat x \<and> unat x < unat P + 0x1000)" "\<not> (unat (frames s) \<le> unat x \<and> unat x < unat (frames s) + 0x200)" for x
    using ft that P hp low f by (simp add: in_range_interval)
  have "same_registers s t" unfolding eq by (rule fill_table_registers)
  note r = same_registersD [OF this]
  have dir: "peek t (off 0xC0081000 c) = peek s (off 0xC0081000 c)" if "c + 4 \<le> 0x2004" for c
  proof (rule peek_within [where n = "0x2004"])
    show "mem t x = mem s x" if "unat (0xC0081000 :: u32) \<le> unat x" "unat x < unat (0xC0081000 :: u32) + 0x2004" for x
      using that P f(3) low(1) by (intro out) simp_all
  qed (use that in simp_all)
  have kt: "kernel_tables D N t"
  proof (rule kernel_tables_within)
    show "kernel_tables D N s" using up by (simp add: kernel_up_def)
    show "mem t x = mem s x" if "unat D \<le> unat x" "unat x < unat D + 0x6000" for x
      using that P f(3) low(1) by (intro out) simp_all
  qed (use r in simp_all)
  have hf: "heap_front c hp T t"
  proof (rule heap_front_cong)
    show "heap_front c hp T s" using up by (simp add: kernel_up_def)
    show "mem t x = mem s x" if "unat hp + 8 \<le> unat x" "unat x < unat hp + 12" for x using that P f(3) low(1) by (intro out) simp_all
    show "mem t x = mem s x" if "0xC0000000 \<le> unat x" "unat x < 0xC0000004" for x using that P f(3) low(1) by (intro out) simp_all
  qed (use r hp in simp_all)
  show "kernel_up c hp T (Suc M) D N t"
    using up kt hf ft r dir [of "0xC00"] by (simp add: kernel_up_def frame_count_def)
  show "beside (unat hp) s t"
  proof -
    have "mem t x = mem s x" if "unat x < unat (frames s) \<or> unat hp \<le> unat x \<and> unat x < 0xC00C0000 \<or> 0xC0110000 \<le> unat x" for x
      using that P f(3) low(1) hp by (intro out) auto
    then show ?thesis using kept_registers [OF \<open>same_registers s t\<close>] r by (simp add: beside_def)
  qed
  show "peek t (page_entry P j) = entry_word 0 0 1 (of_nat M)" using ft by simp
  show "peek t (page_entry P i) = peek s (page_entry P i)" if "i < 1024" "i \<noteq> j" for i using ft that by simp
  show "peek t (off 0xC0081000 (4 * i)) = peek s (off 0xC0081000 (4 * i))" if "i < 1024" for i using dir [of "4 * i"] that by simp
  show "mem t x = mem s x" if "\<not> (unat P \<le> unat x \<and> unat x < unat P + 0x1000)" "0x400000 \<le> unat x" for x
    using that f(3) low(1) by (intro out) simp_all
qed

text \<open>A page-aligned block of a page from the heap, with the physical address that the tables give it.\<close>

lemma page_block:
  fixes s :: "'a kmem"
  assumes up: "kernel_up c hp T M D N s" and c: "c < 0x1000" and room: "0xC0083004 \<le> unat hp" "unat hp \<le> 0xC009E000"
    and al: "(hp + 12) AND 0xFFF \<noteq> 0" "\<not> low_bit_set (hp + 12)" "G = gap hp" "20 \<le> G"
    and P: "P = off hp (G + 12)" "P = off KHEAP_START (k * 0x1000)" "k < 256"
  obtains u where "malloc_ap (Suc n) 0x1000 s = Inr (P, of_nat (N + k) * 0x1000, u)"
    and "heap_front (Suc c) (off hp (G + 0x1014)) (T - (G - 12) - 0x1014) u" and "u = s\<lparr>mem := mem u, kheap := kheap u\<rparr>"
    and "\<And>x. unat x < 0xC0000000 \<or> 0xC0080000 \<le> unat x \<and> unat x < unat hp
      \<or> unat hp + G + 0x1020 \<le> unat x \<and> unat x < 0xC00C0000 \<or> 0xC0110000 \<le> unat x \<Longrightarrow> mem u x = mem s x"
proof -
  note low = kernel_up_low [OF up]
  have f: "heap_front c hp T s" and kt: "kernel_tables D N s" and d: "cur_vm_page_dir s = 0xC0081000" "peek s (off 0xC0081000 0xC00) = off D 0x3000"
    using up by (simp_all add: kernel_up_def)
  have S: "0x1000 = unat (0x1000 :: u32)" "(0x1000 :: nat) \<le> 0x20000" "unat hp + 0x1000 + 0x1000 \<le> 0xC00A0000" using room by simp_all
  obtain u where u: "alloc (Suc n) 0x1000 1 s = Inr (off hp (G + 12), u)"
    "heap_front (Suc c) (off hp (G + 0x1000 + 20)) (T - (G - 12) - (0x1000 + 20)) u" "u = s\<lparr>mem := mem u, kheap := kheap u\<rparr>"
    "\<And>x. unat x < 0xC0000000 \<or> 0xC0080000 \<le> unat x \<and> unat x < unat hp \<or> unat hp + G + 12 \<le> unat x \<and> unat x < unat hp + G + 0x1000 + 12
      \<or> unat hp + G + 0x1000 + 32 \<le> unat x \<and> unat x < 0xC00C0000 \<or> 0xC0110000 \<le> unat x \<Longrightarrow> mem u x = mem s x"
    using front_aligned [OF f c S al, of n] by metis
  have g: "vm_page_dir u = vm_page_dir s" "placement_address u = placement_address s" "cur_vm_page_dir u = cur_vm_page_dir s"
    by (subst u(3), simp)+
  have mlow: "mem u x = mem s x" if "unat x < 0xC0000000" for x using u(4) that by blast
  have ku: "kernel_tables D N u" using g mlow by (intro kernel_tables_cong [OF kt]) simp_all
  have "peek u (off 0xC0081000 0xC00) = peek s (off 0xC0081000 0xC00)"
  proof (rule peek_within [where n = "0x2004"])
    show "mem u x = mem s x" if "unat (0xC0081000 :: u32) \<le> unat x" "unat x < unat (0xC0081000 :: u32) + 0x2004" for x
      using that room by (intro u(4)) simp
  qed simp_all
  then have E: "peek u (table_slot 0xC0081000 768) = off D 0x3000" by (simp add: slots_as_off d)
  obtain page where page: "find_page P 0xC0081000 u = Inr (page, u)" "frame_of (peek u page) = of_nat (N + k)"
    using heap_page_frame [OF ku P(3) _ E, of 0] P(2) by auto
  have "unat P = 0xC0000000 + k * 0x1000" using P(3) by (subst P(2), subst unat_off) (simp_all add: KHEAP_START_def)
  then have "P AND 0xFFF = 0" by (simp add: and_FFF_dvd)
  moreover have "kheap s \<noteq> None" using f by (simp add: heap_front_def)
  ultimately have "malloc_ap (Suc n) 0x1000 s = Inr (P, of_nat (N + k) * 0x1000, u)"
    using u(1) page g(3) d(1) by (simp add: P(1) [symmetric] malloc_ap_def k_malloc_def malloc_over_def del: alloc.simps of_nat_add not_None_eq)
  moreover have "heap_front (Suc c) (off hp (G + 0x1014)) (T - (G - 12) - 0x1014) u" using u(2) by (simp add: add.assoc)
  moreover note u(3)
  moreover have "mem u x = mem s x" if "unat x < 0xC0000000 \<or> 0xC0080000 \<le> unat x \<and> unat x < unat hp
      \<or> unat hp + G + 0x1020 \<le> unat x \<and> unat x < 0xC00C0000 \<or> 0xC0110000 \<le> unat x" for x
    using that by (intro u(4)) auto
  ultimately show ?thesis by (rule that)
qed

lemma table_made:
  fixes s :: "'a kmem"
  assumes up: "kernel_up c hp T M D N s" and c: "c < 0x1000" and room: "0xC0083004 \<le> unat hp" "unat hp \<le> 0xC009E000"
    and al: "(hp + 12) AND 0xFFF \<noteq> 0" "\<not> low_bit_set (hp + 12)" "G = gap hp" "20 \<le> G"
    and P: "P = off hp (G + 12)" "P = off KHEAP_START (k * 0x1000)" "k < 256"
    and i: "addr div 0x1000 div 1024 = of_nat i" "addr div 0x1000 mod 1024 = of_nat j" "i < 1024" "j < 1024" "i \<noteq> 768"
    and z: "peek s (off 0xC0081000 (4 * i)) = 0"
  obtains t where "get_page (malloc_ap (Suc n)) addr 1 0xC0081000 s = Inr (page_entry P j, t)"
    and "kernel_up (Suc c) (off hp (G + 0x1014)) (T - (G - 12) - 0x1014) M D N t" and "beside (unat hp + G + 0x1020) s t"
    and "peek t (off 0xC0081000 (4 * i)) = P" and "\<And>l. l < 1024 \<Longrightarrow> peek t (page_entry P l) = 0"
    and "\<And>l. l < 1024 \<Longrightarrow> l \<noteq> i \<Longrightarrow> peek t (off 0xC0081000 (4 * l)) = peek s (off 0xC0081000 (4 * l))"
    and "\<And>x. 0xC0083004 \<le> unat x \<Longrightarrow> unat x < unat hp \<Longrightarrow> mem t x = mem s x"
proof -
  let ?C = "0xC0081000 :: u32"
  note low = kernel_up_low [OF up]
  obtain u where u: "malloc_ap (Suc n) 0x1000 s = Inr (P, of_nat (N + k) * 0x1000, u)"
    "heap_front (Suc c) (off hp (G + 0x1014)) (T - (G - 12) - 0x1014) u" "u = s\<lparr>mem := mem u, kheap := kheap u\<rparr>"
    "\<And>x. unat x < 0xC0000000 \<or> 0xC0080000 \<le> unat x \<and> unat x < unat hp
      \<or> unat hp + G + 0x1020 \<le> unat x \<and> unat x < 0xC00C0000 \<or> 0xC0110000 \<le> unat x \<Longrightarrow> mem u x = mem s x"
    using page_block [OF up c room al P, of n] by metis
  have G: "G \<le> 0x1000" by (simp add: al(3) gap_le)
  have uP: "unat P = unat hp + G + 12" using room G by (simp add: P(1) unat_off)
  have ap: "apart ?C 0x2004 P 0x1000" using uP room G by (intro apart_unat) simp_all
  have ui: "unat (of_nat i :: u32) = i" using i(3) by (simp add: unat_of_nat_small)
  have sl: "table_slot ?C (of_nat i) = off ?C (4 * i)" "phy_slot ?C (of_nat i) = off ?C (0x1000 + 4 * i)"
    using i(3) by (simp_all add: slots_off ui)
  define t where "t = with_table ?C (of_nat i) P (of_nat (N + k) * 0x1000) u"
  have run: "get_page (malloc_ap (Suc n)) addr 1 ?C s = Inr (page_entry P j, t)"
    using get_page_makes [of s ?C addr 1 "malloc_ap (Suc n)" P _ u] z u(1) ap i(4) by (simp add: i(1,2) sl slot_of_nat t_def)
  have wt: "peek t (off ?C (4 * i)) = P" "\<And>l. l < 1024 \<Longrightarrow> peek t (page_entry P l) = 0"
    using with_table_peek(1,3) [OF ap, of "of_nat i"] i(3) ui by (simp_all add: t_def sl)
  have out: "mem t x = mem u x" if "\<not> (unat ?C \<le> unat x \<and> unat x < unat ?C + 0x2004)" "\<not> (unat P \<le> unat x \<and> unat x < unat P + 0x1000)" for x
  proof -
    have "\<not> in_range (off ?C (4 * i)) 4 x" "\<not> in_range (off ?C (0x1000 + 4 * i)) 4 x" "\<not> in_range P 0x1000 x"
      using that i(3) uP room G by (auto simp: in_range_interval unat_off)
    then show ?thesis using with_table_peek(4) [OF ap, of "of_nat i" x] ui i(3) by (simp add: t_def sl)
  qed
  have other: "peek t (off ?C (4 * l)) = peek s (off ?C (4 * l))" if "l < 1024" "l \<noteq> i" for l
  proof -
    have o: "apart (off ?C (4 * l)) 4 (off ?C (4 * i)) 4" "apart (off ?C (4 * l)) 4 (off ?C (0x1000 + 4 * i)) 4"
      using that i(3) by (intro off_apart_either; auto)+
    have "apart (off ?C (4 * l)) 4 P 0x1000" using that(1) uP room G by (intro apart_unat) (simp_all add: unat_off)
    then have "peek t (off ?C (4 * l)) = peek u (off ?C (4 * l))"
      unfolding t_def by (intro with_table_peek_other) (simp_all only: sl o)
    also have "\<dots> = peek s (off ?C (4 * l))"
    proof (rule peek_within [where n = "0x2004"])
      show "mem u x = mem s x" if "unat ?C \<le> unat x" "unat x < unat ?C + 0x2004" for x using that room by (intro u(4)) simp
    qed (use that in simp_all)
    finally show ?thesis .
  qed
  have "same_registers u t" unfolding t_def by (rule with_table_registers)
  note r = same_registersD [OF this]
  have ru: "frames u = frames s" "frames_bitmap_size u = frames_bitmap_size s" "vm_page_dir u = vm_page_dir s"
    "placement_address u = placement_address s" "cur_vm_page_dir u = cur_vm_page_dir s" by (subst u(3), simp)+
  have low_same: "mem t x = mem s x" if "unat x < 0xC0000000" for x using that out [of x] u(4) [of x] uP room by simp
  have f: "frame_set s = {..<M}" "frame_count s = 4096" "unat (frames s) + 0x200 \<le> unat D" using up by (simp_all add: kernel_up_def)
  have uh: "unat (off hp (G + 0x1014)) = unat hp + G + 0x1014" using room G by (simp add: unat_off)
  show ?thesis
  proof (rule that [OF run _ _ wt(1) wt(2) other])
    have ks: "kernel_tables D N s" using up by (simp add: kernel_up_def)
    have "kernel_tables D N t"
    proof (rule kernel_tables_cong [OF ks])
      show "mem t x = mem s x" if "unat x < 0x400000" for x using that by (intro low_same) simp
    qed (simp_all add: r ru)
    moreover have "heap_front (Suc c) (off hp (G + 0x1014)) (T - (G - 12) - 0x1014) t"
    proof (rule heap_front_cong [OF u(2) r(3)])
      show "mem t x = mem u x" if "0xC0000000 \<le> unat x" "unat x < 0xC0000004" for x using that uP room by (intro out) simp_all
      show "mem t x = mem u x" if "unat (off hp (G + 0x1014)) + 8 \<le> unat x" for x using that uP uh room by (intro out) simp_all
      show "unat (off hp (G + 0x1014)) \<le> 0xC00F0000" using uh room G by simp
    qed
    moreover have "frame_set t = frame_set s"
    proof (rule frame_set_cong)
      fix i assume "i < unat (frames_bitmap_size s)"
      then have "i < 0x200" using low(4) by simp
      then have "unat (frames s + of_nat i) < 0xC0000000" using f(3) low(1) by (simp add: unat_word_ariths unat_of_nat_small)
      then show "mem t (frames s + of_nat i) = mem s (frames s + of_nat i)" by (rule low_same)
    qed (use r ru in simp_all)
    moreover have "peek t (off ?C 0xC00) = off D 0x3000" using other [of 768] i(5) up by (simp add: kernel_up_def)
    ultimately show "kernel_up (Suc c) (off hp (G + 0x1014)) (T - (G - 12) - 0x1014) M D N t"
      using up r ru by (simp add: kernel_up_def frame_count_def)
    have "mem t x = mem s x" if "unat x < unat (frames s) \<or> unat hp + G + 0x1020 \<le> unat x \<and> unat x < 0xC00C0000 \<or> 0xC0110000 \<le> unat x" for x
    proof -
      have "mem t x = mem u x" using that uP room G f(3) low(1) by (intro out) auto
      also have "\<dots> = mem s x" using that f(3) low(1) by (intro u(4)) auto
      finally show ?thesis .
    qed
    moreover have "kept s t" by (rule get_page_kept [OF malloc_ap_keeping run])
    ultimately show "beside (unat hp + G + 0x1020) s t" using r ru by (simp add: beside_def kept_def)
    show "mem t x = mem s x" if "0xC0083004 \<le> unat x" "unat x < unat hp" for x
    proof -
      have "mem t x = mem u x" using that uP by (intro out) simp_all
      also have "\<dots> = mem s x" using that by (intro u(4)) simp
      finally show ?thesis .
    qed
  qed
qed

section \<open>The stack of init_multitask\<close>

lemma map_stack_step:
  assumes "lower \<le> i" and "get_page (malloc_ap n) i 1 (cur_vm_page_dir s) s = Inr (p, t)"
  shows "map_stack n lower i s = map_stack n lower (i - 0x1000) (alloc_frame p 0 1 t)"
  using assms by (subst map_stack.simps) simp

lemma stack_mapped:
  fixes s :: "'a kmem"
  assumes up: "kernel_up 2 0xC008300C 0x7D000 M D N s" and M: "M + 3 \<le> 4096"
    and z: "peek s (off 0xC0081000 (4 * 896)) = 0" "peek s (off 0xC0081000 (4 * 895)) = 0"
  obtains u where "map_stack (Suc n) 0xDFFFE000 0xE0000000 s = Some (Inr u)"
    and "kernel_up 4 0xC0087008 0x7901C (M + 3) D N u" and "beside 0xC0087014 s u"
    and "peek u (off 0xC0081000 (4 * 896)) = 0xC0084000" "peek u (off 0xC0081000 (4 * 895)) = 0xC0086000"
    and "peek u (page_entry 0xC0084000 0) = entry_word 0 0 1 (of_nat M)"
    and "peek u (page_entry 0xC0086000 1023) = entry_word 0 0 1 (of_nat (M + 1))"
    and "peek u (page_entry 0xC0086000 1022) = entry_word 0 0 1 (of_nat (M + 2))"
proof -
  let ?C = "0xC0081000 :: u32"
  have g1: "(0xC008300C + 12 :: u32) AND 0xFFF \<noteq> 0" "\<not> low_bit_set (0xC008300C + 12)" "gap 0xC008300C = 0xFE8" by code_simp+
  have g2: "(0xC0085008 + 12 :: u32) AND 0xFFF \<noteq> 0" "\<not> low_bit_set (0xC0085008 + 12)" "gap 0xC0085008 = 0xFEC" by code_simp+
  have c: "(2 :: nat) < 0x1000" "(3 :: nat) < 0x1000" "(0x84 :: nat) < 256" "(0x86 :: nat) < 256" "(20 :: nat) \<le> 0xFE8" "(20 :: nat) \<le> 0xFEC" by simp_all
  have r1: "0xC0083004 \<le> unat (0xC008300C :: u32)" "unat (0xC008300C :: u32) \<le> 0xC009E000"
    "0xC0083004 \<le> unat (0xC0085008 :: u32)" "unat (0xC0085008 :: u32) \<le> 0xC009E000" by simp_all
  have P1: "0xC0084000 = off 0xC008300C (0xFE8 + 12)" "0xC0084000 = off KHEAP_START (0x84 * 0x1000)"
    "off 0xC008300C (0xFE8 + 0x1014) = 0xC0085008" by (simp_all add: off_def KHEAP_START_def)
  have P2: "0xC0086000 = off 0xC0085008 (0xFEC + 12)" "0xC0086000 = off KHEAP_START (0x86 * 0x1000)"
    "off 0xC0085008 (0xFEC + 0x1014) = 0xC0087008" by (simp_all add: off_def KHEAP_START_def)
  have i1: "(0xE0000000 :: u32) div 0x1000 div 1024 = of_nat 896" "(0xE0000000 :: u32) div 0x1000 mod 1024 = of_nat 0"
    "(896 :: nat) < 1024" "(0 :: nat) < 1024" "(896 :: nat) \<noteq> 768" by simp_all
  have i2: "(0xDFFFF000 :: u32) div 0x1000 div 1024 = of_nat 895" "(0xDFFFF000 :: u32) div 0x1000 mod 1024 = of_nat 1023"
    "(895 :: nat) < 1024" "(1023 :: nat) < 1024" "(895 :: nat) \<noteq> 768" by simp_all
  obtain t1 where t1: "get_page (malloc_ap (Suc n)) 0xE0000000 1 ?C s = Inr (page_entry 0xC0084000 0, t1)"
    "kernel_up (Suc 2) (off 0xC008300C (0xFE8 + 0x1014)) (0x7D000 - (0xFE8 - 12) - 0x1014) M D N t1"
    "beside (unat (0xC008300C :: u32) + 0xFE8 + 0x1020) s t1"
    "peek t1 (off ?C (4 * 896)) = 0xC0084000" "\<And>l. l < 1024 \<Longrightarrow> peek t1 (page_entry 0xC0084000 l) = 0"
    "\<And>l. l < 1024 \<Longrightarrow> l \<noteq> 896 \<Longrightarrow> peek t1 (off ?C (4 * l)) = peek s (off ?C (4 * l))"
    using table_made [OF up c(1) r1(1,2) g1(1,2) g1(3) [symmetric] c(5) P1(1,2) c(3) i1 z(1), of n] by metis
  have u1: "kernel_up 3 0xC0085008 0x7B010 M D N t1" using t1(2) unfolding P1(3) by simp
  define f1 where "f1 = alloc_frame (page_entry 0xC0084000 0) 0 1 t1"
  have p1: "0xC0083004 \<le> unat (0xC0084000 :: u32)" "unat (0xC0084000 :: u32) + 0x1000 \<le> unat (0xC0085008 :: u32)" "M < 4096"
    "unat (0xC0085008 :: u32) \<le> 0xC00A0000" using M by simp_all
  note f1s = page_gets_frame [OF u1 p1(1,2) i1(4) t1(5) [OF i1(4)] p1(3,4), folded f1_def]
  have z2: "peek f1 (off ?C (4 * 895)) = 0" using f1s(5) [of 895] t1(6) [of 895] z(2) by simp
  obtain t2 where t2: "get_page (malloc_ap (Suc n)) 0xDFFFF000 1 ?C f1 = Inr (page_entry 0xC0086000 1023, t2)"
    "kernel_up (Suc 3) (off 0xC0085008 (0xFEC + 0x1014)) (0x7B010 - (0xFEC - 12) - 0x1014) (Suc M) D N t2"
    "beside (unat (0xC0085008 :: u32) + 0xFEC + 0x1020) f1 t2"
    "peek t2 (off ?C (4 * 895)) = 0xC0086000" "\<And>l. l < 1024 \<Longrightarrow> peek t2 (page_entry 0xC0086000 l) = 0"
    "\<And>l. l < 1024 \<Longrightarrow> l \<noteq> 895 \<Longrightarrow> peek t2 (off ?C (4 * l)) = peek f1 (off ?C (4 * l))"
    "\<And>x. 0xC0083004 \<le> unat x \<Longrightarrow> unat x < unat (0xC0085008 :: u32) \<Longrightarrow> mem t2 x = mem f1 x"
    using table_made [OF f1s(1) c(2) r1(3,4) g2(1,2) g2(3) [symmetric] c(6) P2(1,2) c(4) i2 z2, of n] by metis
  have u2: "kernel_up 4 0xC0087008 0x7901C (Suc M) D N t2" using t2(2) unfolding P2(3) by simp
  define f2 where "f2 = alloc_frame (page_entry 0xC0086000 1023) 0 1 t2"
  have p2: "0xC0083004 \<le> unat (0xC0086000 :: u32)" "unat (0xC0086000 :: u32) + 0x1000 \<le> unat (0xC0087008 :: u32)" "Suc M < 4096" "Suc (Suc M) < 4096"
    "unat (0xC0087008 :: u32) \<le> 0xC00A0000" "(1022 :: nat) < 1024" "(1022 :: nat) \<noteq> 1023" using M by simp_all
  note f2s = page_gets_frame [OF u2 p2(1,2) i2(4) t2(5) [OF i2(4)] p2(3,5), folded f2_def]
  have e: "peek f2 (page_entry 0xC0086000 1022) = 0" using f2s(4) [OF p2(6,7)] t2(5) [OF p2(6)] by simp
  define f3 where "f3 = alloc_frame (page_entry 0xC0086000 1022) 0 1 f2"
  note f3s = page_gets_frame [OF f2s(1) p2(1,2,6) e p2(4,5), folded f3_def]
  have d: "cur_vm_page_dir s = ?C" "cur_vm_page_dir f1 = ?C" "cur_vm_page_dir f2 = ?C"
    using up f1s(1) f2s(1) by (simp_all add: kernel_up_def)
  have tb: "peek f2 (off ?C (4 * 895)) = 0xC0086000" using f2s(5) [of 895] t2(4) by simp
  have g3: "get_page (malloc_ap (Suc n)) 0xDFFFE000 1 ?C f2 = Inr (page_entry 0xC0086000 1022, f2)"
    using get_page_finds [of f2 ?C "0xDFFFE000" "malloc_ap (Suc n)" 1] tb by (simp add: table_slot_def page_slot_def off_def)
  show ?thesis
  proof (rule that)
    have "map_stack (Suc n) 0xDFFFE000 0xDFFFD000 f3 = Some (Inr f3)" by (subst map_stack.simps) simp
    then have "map_stack (Suc n) 0xDFFFE000 0xDFFFE000 f2 = Some (Inr f3)" using g3 d by (subst map_stack_step) (simp_all add: f3_def)
    then have "map_stack (Suc n) 0xDFFFE000 0xDFFFF000 f1 = Some (Inr f3)" using t2(1) d by (subst map_stack_step) (simp_all add: f2_def)
    then show "map_stack (Suc n) 0xDFFFE000 0xE0000000 s = Some (Inr f3)" using t1(1) d by (subst map_stack_step) (simp_all add: f1_def)
    show "kernel_up 4 0xC0087008 0x7901C (M + 3) D N f3" using f3s(1) by (simp add: numeral_3_eq_3)
    have b: "beside 0xC0087014 s t1" "beside 0xC0087014 t1 f1" "beside 0xC0087014 f1 t2" "beside 0xC0087014 t2 f2" "beside 0xC0087014 f2 f3"
      using beside_mono [OF t1(3)] beside_mono [OF f1s(2)] beside_mono [OF t2(3)] beside_mono [OF f2s(2)] beside_mono [OF f3s(2)] by simp_all
    show "beside 0xC0087014 s f3"
      by (rule beside_trans [OF beside_trans [OF beside_trans [OF beside_trans [OF b(1,2)] b(3)] b(4)] b(5)]) simp_all
    show "peek f3 (off ?C (4 * 896)) = 0xC0084000"
      using f3s(5) [of 896] f2s(5) [of 896] t2(6) [of 896] f1s(5) [of 896] t1(4) by simp
    show "peek f3 (off ?C (4 * 895)) = 0xC0086000" using f3s(5) [of 895] tb by simp
    show "peek f3 (page_entry 0xC0086000 1022) = entry_word 0 0 1 (of_nat (M + 2))" using f3s(3) by simp
    show "peek f3 (page_entry 0xC0086000 1023) = entry_word 0 0 1 (of_nat (M + 1))" using f3s(4) [of 1023] f2s(3) by simp
    have "mem f3 x = mem f1 x" if "0xC0084000 \<le> unat x" "unat x < 0xC0084004" for x
      using f3s(6) [of x] f2s(6) [of x] t2(7) [of x] that by simp
    then have "peek f3 0xC0084000 = peek f1 0xC0084000" by (intro peek_cong) (simp add: in_range_interval)
    then show "peek f3 (page_entry 0xC0084000 0) = entry_word 0 0 1 (of_nat M)" using f1s(3) by (simp add: off_0)
  qed
qed

section \<open>The first task\<close>

lemma kernel_up_same:
  fixes s t :: "'a kmem"
  assumes "kernel_up c hp T M D N s" and "mem t = mem s" and "kheap t = kheap s" and "frames t = frames s"
    and "frames_bitmap_size t = frames_bitmap_size s" and "vm_page_dir t = vm_page_dir s" and "cur_vm_page_dir t = cur_vm_page_dir s"
    and "placement_address t = placement_address s"
  shows "kernel_up c hp T M D N t"
proof -
  have up: "kernel_tables D N s" "heap_front c hp T s" "peek s (off 0xC0081000 0xC00) = off D 0x3000" "frame_set s = {..<M}" "frame_count s = 4096"
    "cur_vm_page_dir s = 0xC0081000" "unat (frames s) + 0x200 \<le> unat D" using assms(1) by (simp_all add: kernel_up_def)
  have "peek t = peek s" by (simp add: fun_eq_iff peek_def assms(2))
  moreover have "kernel_tables D N t" by (rule kernel_tables_cong [OF up(1)]) (simp_all add: assms)
  moreover have "heap_front c hp T t"
    using up(2) kheap_heap [OF assms(3)] \<open>peek t = peek s\<close> by (simp add: heap_front_def assms capacity_def header_size_def)
  moreover have "frame_set t = frame_set s" by (rule frame_set_cong) (simp_all add: assms)
  ultimately show ?thesis using up by (simp add: kernel_up_def assms frame_count_def)
qed

lemma paging_on_up:
  assumes "paging_on D N s"
  shows "kernel_up 2 0xC008300C 0x7D000 (N + 256) D N s" and "N \<le> 1024"
    and "peek s (off 0xC0081000 (4 * 896)) = 0" "peek s (off 0xC0081000 (4 * 895)) = 0"
proof -
  have k: "kernel_tables D N s" and d: "\<And>i. i < 1024 \<Longrightarrow> peek s (off 0xC0081000 (4 * i)) = peek s (off D (4 * i))"
    using assms by (simp_all add: paging_on_def)
  have z: "peek s (off D (4 * i)) = 0" if "i < 1024" "i \<noteq> 0" "i \<noteq> 768" for i using k that by (simp add: kernel_tables_def)
  show "kernel_up 2 0xC008300C 0x7D000 (N + 256) D N s"
    using assms d [of 768] by (simp add: kernel_up_def paging_on_def kernel_tables_def)
  show "N \<le> 1024" using k by (simp add: kernel_tables_def)
  show "peek s (off 0xC0081000 (4 * 896)) = 0" "peek s (off 0xC0081000 (4 * 895)) = 0"
    using d [of 896] d [of 895] z [of 896] z [of 895] by simp_all
qed

text \<open>The stack in its new place: the words moved along, and the heap and the memory below the bitmap as they were.\<close>

lemma stack_moved:
  fixes s :: "'a tasking"
  assumes on: "paging_on D N s" and stack: "initial_esp s - esp s = of_nat (4 * k)" "k < 0x800" "unat (esp s) + 4 * k \<le> unat (frames s)"
  defines "d \<equiv> 0xE0000000 - initial_esp s"
  obtains v where "move_stack (Suc n) 0xE0000000 0x2000 s = Inr v" and "heap_front 4 0xC0087008 0x7901C v" and "cur_vm_page_dir v = 0xC0081000"
    and "next_pid v = next_pid s" and "esp v = 0xE0000000 - of_nat (4 * k)" and "ebp v = ebp s + d"
    and "\<And>j. j < k \<Longrightarrow> peek v (off (esp v) (4 * j)) = relocated (esp s) (initial_esp s) d (peek s (off (esp s) (4 * j)))"
    and "\<And>x. unat x < unat (frames s) \<or> 0xC0087014 \<le> unat x \<and> unat x < 0xC00C0000 \<Longrightarrow> mem v x = mem s x"
    and "unat (frames s) < 0x400000"
proof -
  note up = paging_on_up [OF on]
  have "N + 256 + 3 \<le> 4096" using up(2) by simp
  from stack_mapped [OF up(1) this up(3,4), of n] obtain u where u: "map_stack (Suc n) 0xDFFFE000 0xE0000000 s = Some (Inr u)"
    "kernel_up 4 0xC0087008 0x7901C (N + 256 + 3) D N u" "beside 0xC0087014 s u" by metis
  have "kernel_memory.more u = kernel_memory.more s" using u(3) by (simp add: beside_def kept_def)
  then have g: "esp u = esp s" "ebp u = ebp s" "initial_esp u = initial_esp s" "next_pid u = next_pid s"
    by (cases u; cases s; simp)+
  have fr: "frames u = frames s" "cur_vm_page_dir u = 0xC0081000" "unat (frames s) < 0x400000"
    using u(2,3) kernel_up_low(1) [OF u(2)] by (simp_all add: beside_def kernel_up_def)
  have um: "mem u x = mem s x" if "unat x < unat (frames s) \<or> 0xC0087014 \<le> unat x \<and> unat x < 0xC00C0000" for x
    using u(3) that by (auto simp: beside_def)
  have ust: "unat (0xE0000000 - of_nat (4 * k) :: u32) = 0xE0000000 - 4 * k"
    using stack(2) by (simp add: unat_sub_if' word_le_nat_alt unat_of_nat_small del: of_nat_mult)
  have "map_stack (Suc n) (0xE0000000 - of_nat (4 * 0x800)) 0xE0000000 s = Some (Inr u)" using u(1) by simp
  moreover have "4 * 0x800 \<le> unat (0xE0000000 :: u32)" "unat (0xE0000000 :: u32) + 4 \<le> 2 ^ 32" by simp_all
  moreover have "initial_esp u - esp u = of_nat (4 * k)" using stack(1) by (simp only: g)
  moreover have "apart (esp u) (4 * k) (0xE0000000 - of_nat (4 * k)) (4 * k)"
  proof (cases "k = 0")
    case False
    then show ?thesis using stack fr(3) ust by (intro apart_unat) (simp_all add: g)
  qed (simp add: apart_def)
  ultimately obtain v where v: "move_stack (Suc n) 0xE0000000 (of_nat (4 * 0x800)) s = Inr v" "v = u\<lparr>mem := mem v, esp := esp v, ebp := ebp v\<rparr>"
    "esp v = 0xE0000000 - of_nat (4 * k)" "ebp v = ebp u + d"
    "\<And>j. j < k \<Longrightarrow> peek v (off (esp v) (4 * j)) = relocated (esp u) (initial_esp u) d (peek u (off (esp u) (4 * j)))"
    "\<And>y. \<not> in_range (off (0xE0000000 - of_nat (4 * 0x800)) 4) (4 * 0x800) y \<Longrightarrow> mem v y = mem u y"
    using move_stack_result [of "Suc n" "0xE0000000" "0x800" s u k] stack(2) unfolding d_def g by blast
  have vm: "mem v x = mem u x" if "unat x < 0xDFFFE004" for x
    using that by (intro v(6)) (auto simp: off_def in_range_interval)
  have gv: "kheap v = kheap u" "next_pid v = next_pid u" "cur_vm_page_dir v = cur_vm_page_dir u" by (subst v(2), simp)+
  have hu: "heap_front 4 0xC0087008 0x7901C u" using u(2) by (simp add: kernel_up_def)
  have words: "peek u (off (esp s) (4 * j)) = peek s (off (esp s) (4 * j))" if j: "j < k" for j
  proof (rule peek_within [where n = "4 * k"])
    show "mem u x = mem s x" if "unat (esp s) \<le> unat x" "unat x < unat (esp s) + 4 * k" for x
      using that stack(3) by (intro um) simp
  qed (use j stack fr(3) in simp_all)
  show ?thesis
  proof (rule that)
    show "heap_front 4 0xC0087008 0x7901C v" by (rule heap_front_cong [OF hu]) (use vm gv in simp_all)
    show "peek v (off (esp v) (4 * j)) = relocated (esp s) (initial_esp s) d (peek s (off (esp s) (4 * j)))" if "j < k" for j
      using v(5) [OF that] words [OF that] by (simp add: g)
    show "mem v x = mem s x" if "unat x < unat (frames s) \<or> 0xC0087014 \<le> unat x \<and> unat x < 0xC00C0000" for x
      using vm [of x] um [OF that] that fr(3) by auto
  qed (use v g gv fr in simp_all)
qed

lemma multitask_started:
  fixes s :: "'a tasking"
  assumes on: "paging_on D N s" and stack: "initial_esp s - esp s = of_nat (4 * k)" "k < 0x800" "unat (esp s) + 4 * k \<le> unat (frames s)"
  defines "d \<equiv> 0xE0000000 - initial_esp s"
  obtains t where "init_multitask (Suc n) s = Inr t" and "schedules t \<lparr>pids = [next_pid s], running = 0, fresh = next_pid s + 1\<rparr>"
    and "if_flag t" and "heap_front 5 0xC0087054 0x78FD0 t" and "esp t = 0xE0000000 - of_nat (4 * k)" and "ebp t = ebp s + d"
    and "\<And>j. j < k \<Longrightarrow> peek t (off (esp t) (4 * j)) = relocated (esp s) (initial_esp s) d (peek s (off (esp s) (4 * j)))"
    and "\<And>x. unat x < unat (frames s) \<or> 0xC0087060 \<le> unat x \<and> unat x < 0xC00C0000 \<Longrightarrow> mem t x = mem s x"
    and "pcb_page_dir t (cur_task t) = 0xC0081000" and "cur_task t = 0xC0087014"
proof -
  let ?s = "s\<lparr>if_flag := False\<rparr>"
  have "paging_on D N ?s"
    using kernel_up_same [OF paging_on_up(1) [OF on], of ?s] on by (simp add: paging_on_def kernel_up_def peek_def)
  from stack_moved [OF this, of k n] stack obtain v where v: "move_stack (Suc n) 0xE0000000 0x2000 ?s = Inr v" "heap_front 4 0xC0087008 0x7901C v"
    "cur_vm_page_dir v = 0xC0081000" "next_pid v = next_pid s" "esp v = 0xE0000000 - of_nat (4 * k)" "ebp v = ebp s + d"
    "\<And>j. j < k \<Longrightarrow> peek v (off (esp v) (4 * j)) = relocated (esp s) (initial_esp s) d (peek s (off (esp s) (4 * j)))"
    "\<And>x. unat x < unat (frames s) \<or> 0xC0087014 \<le> unat x \<and> unat x < 0xC00C0000 \<Longrightarrow> mem v x = mem s x" "unat (frames s) < 0x400000"
    unfolding d_def by (auto simp: peek_def)
  have S: "(4 :: nat) < 0x1000" "56 = unat (56 :: u32)" "(56 :: nat) \<le> 0x20000" "unat (0xC0087008 :: u32) + 56 \<le> 0xC00A0000" by simp_all
  obtain w where w: "alloc (Suc n) 56 0 v = Inr (off 0xC0087008 12, w)" "heap_front (Suc 4) (off 0xC0087008 (56 + 20)) (0x7901C - (56 + 20)) w"
    "\<And>x. unat x < 0xC0000000 \<or> 0xC0080000 \<le> unat x \<and> unat x < unat (0xC0087008 :: u32) \<or> unat (0xC0087008 :: u32) + 12 \<le> unat x \<and> unat x < unat (0xC0087008 :: u32) + 56 + 12
      \<or> unat (0xC0087008 :: u32) + 56 + 32 \<le> unat x \<and> unat x < 0xC00C0000 \<or> 0xC0110000 \<le> unat x \<Longrightarrow> mem w x = mem v x"
    using front_unaligned [OF v(2) S, of n] by metis
  have "kheap v \<noteq> None" using v(2) by (simp add: heap_front_def)
  then have "malloc_s (Suc n) sizeof_pcb v = Inr (0xC0087014, w)"
    using w(1) by (simp add: malloc_s_def k_malloc_def malloc_over_def sizeof_pcb_def off_def del: alloc.simps not_None_eq)
  from init_multitask_result [OF v(1) this] obtain t where t: "init_multitask (Suc n) s = Inr t"
    "schedules t \<lparr>pids = [next_pid v], running = 0, fresh = next_pid v + 1\<rparr>" "cur_task t = 0xC0087014" "if_flag t" "esp t = esp v" "ebp t = ebp v"
    "pcb_page_dir t 0xC0087014 = cur_vm_page_dir v" "\<And>y. \<not> in_range 0xC0087014 56 y \<Longrightarrow> mem t y = mem w y" "kheap t = kheap w" by auto
  have tm: "mem t x = mem w x" if "unat x < 0xC0087014 \<or> 0xC008704C \<le> unat x" for x
    using that by (intro t(8)) (auto simp: in_range_interval)
  show ?thesis
  proof (rule that [OF t(1)])
    show "heap_front 5 0xC0087054 0x78FD0 t"
    proof (rule heap_front_cong)
      show "heap_front 5 0xC0087054 0x78FD0 w" using w(2) by (simp add: off_def)
    qed (use tm t(9) in simp_all)
    show "peek t (off (esp t) (4 * j)) = relocated (esp s) (initial_esp s) d (peek s (off (esp s) (4 * j)))" if j: "j < k" for j
    proof -
      have uv: "unat (esp v) = 0xE0000000 - 4 * k"
        using stack(2) by (simp add: v(5) unat_sub_if' word_le_nat_alt unat_of_nat_small del: of_nat_mult)
      have "peek t (off (esp v) (4 * j)) = peek v (off (esp v) (4 * j))"
      proof (rule peek_within [where n = "4 * k"])
        fix x :: u32
        assume "unat (esp v) \<le> unat x"
        then have "0xDFFF0000 \<le> unat x" using uv stack(2) by arith
        then show "mem t x = mem v x" using tm [of x] w(3) [of x] by simp
      qed (use j stack(2) uv in simp_all)
      then show ?thesis using v(7) [OF j] by (simp add: t(5))
    qed
    show "mem t x = mem s x" if "unat x < unat (frames s) \<or> 0xC0087060 \<le> unat x \<and> unat x < 0xC00C0000" for x
      using tm [of x] w(3) [of x] v(8) [of x] that v(9) by auto
  qed (use t v in simp_all)
qed

end
