(* ===== verification/Boot_Run.thy ===== *)
theory Boot_Run
  imports Boot Boot_Stack Initrd_Mount
begin

text \<open>
  \<open>main\<close> of \<open>src/src/main.c\<close> from the boot loader to its call of \<open>fork\<close>: the steps of the initialisation one after
  the other, each on the state the one before it leaves.
\<close>

section \<open>Blocks for the file system\<close>

text \<open>
  The heap gives what \<open>initialise_initrd\<close> asks for, when the memory from the first hole on is cleared: ranges below the heap
  and blocks cut before are left alone.
\<close>

lemma below_apart:
  assumes "unat b + n \<le> unat a" and "unat b < unat a" and "unat a + k \<le> 2 ^ 32"
  shows "apart a k b n"
proof -
  have "unat (a - b) = unat a - unat b" using assms(2) by (simp add: unat_sub_if')
  moreover have "unat (b - a) = 2 ^ 32 + unat b - unat a" using assms(2) by (simp add: unat_sub_if')
  ultimately show ?thesis unfolding apart_def using assms by arith
qed

lemma allots_from_heap:
  fixes s :: "'a ird"
  assumes "heap_front c hp T s" and "c + length ks < 0x1000" and "unat hp + (\<Sum>k \<leftarrow> ks. k + 20) \<le> 0xC00A0000"
    and "\<And>y. unat hp + 12 \<le> unat y \<Longrightarrow> unat y < unat hp + 12 + (\<Sum>k \<leftarrow> ks. k + 20) \<Longrightarrow> mem s y = 0"
    and "list_all (\<lambda>(b, m). unat b + m \<le> 0xC0000000 \<or> 0xC0080000 \<le> unat b \<and> unat b + m \<le> unat hp) rs"
  shows "allots (Suc n) ks rs s"
  using assms
proof (induction ks arbitrary: c hp T s rs)
  case (Cons k ks)
  let ?rest = "\<Sum>k \<leftarrow> ks. k + 20" and ?p = "off hp 12" and ?hp = "off hp (k + 20)"
  have hp: "0xC0080000 \<le> unat hp" "kheap s \<noteq> None" using Cons.prems(1) by (simp_all add: heap_front_def)
  have room: "unat hp + (k + 20) + ?rest \<le> 0xC00A0000" using Cons.prems(3) by simp
  have c: "c < 0x1000" using Cons.prems(2) by simp
  have uk: "k = unat (of_nat k :: u32)" "k \<le> 0x20000" "unat hp + k \<le> 0xC00A0000"
    using room hp(1) by (simp_all add: unat_of_nat_small)
  obtain u where u: "alloc (Suc n) (of_nat k) 0 s = Inr (?p, u)" "heap_front (Suc c) ?hp (T - (k + 20)) u"
    "u = s\<lparr>mem := mem u, kheap := kheap u\<rparr>"
    "\<And>x. unat x < 0xC0000000 \<or> 0xC0080000 \<le> unat x \<and> unat x < unat hp \<or> unat hp + 12 \<le> unat x \<and> unat x < unat hp + k + 12
      \<or> unat hp + k + 32 \<le> unat x \<and> unat x < 0xC00C0000 \<or> 0xC0110000 \<le> unat x \<Longrightarrow> mem u x = mem s x"
    using front_unaligned [OF Cons.prems(1) c uk, of n] by metis
  have up: "unat ?p = unat hp + 12" "unat ?hp = unat hp + (k + 20)" using room by (simp_all add: unat_off)
  have m: "malloc_s (Suc n) (of_nat k) s = Inr (?p, u)"
    using u(1) hp(2) by (simp add: malloc_s_def k_malloc_def malloc_over_def del: alloc.simps not_None_eq)
  have ranges: "unat b + m \<le> 0xC0000000 \<or> 0xC0080000 \<le> unat b \<and> unat b + m \<le> unat hp" if "(b, m) \<in> set rs" for b m
    using Cons.prems(5) that by (auto simp: list_all_iff)
  have keep: "same_on rs (mem u) (mem s)"
  proof -
    have "mem u x = mem s x" if "(b, m) \<in> set rs" "in_range b m x" for b m x
      using ranges [OF that(1)] that(2) room by (intro u(4)) (auto simp: in_range_interval)
    then show ?thesis by (auto simp: same_on_def)
  qed
  have clear: "clear_of ?p k rs"
  proof -
    have "apart ?p k b m" if "(b, m) \<in> set rs" for b m
      using ranges [OF that] up hp(1) room by (intro below_apart) auto
    then show ?thesis by (auto simp: clear_of_def list_all_iff)
  qed
  have zero: "y \<noteq> 0 \<and> mem u y = 0" if "in_range ?p k y" for y
  proof -
    have y: "unat hp + 12 \<le> unat y" "unat y < unat hp + 12 + k" using that up room by (simp_all add: in_range_interval)
    then have "mem u y = mem s y" by (intro u(4)) simp
    also have "\<dots> = 0" using y by (intro Cons.prems(4)) simp_all
    finally show ?thesis using y hp(1) by auto
  qed
  have next_ok: "allots (Suc n) ks ((?p, k) # rs) t" if t: "same_kernel u t" "\<And>y. \<not> in_range ?p k y \<Longrightarrow> mem t y = mem u y" for t
  proof (rule Cons.IH)
    have out: "mem t y = mem u y" if "unat y < unat hp + 12 \<or> unat hp + k + 12 \<le> unat y" for y
      using that up room by (intro t(2)) (auto simp: in_range_interval)
    have "kheap t = kheap u" using t(1) by (simp add: same_kernel_def kernel_memory.truncate_def)
    then show "heap_front (Suc c) ?hp (T - (k + 20)) t"
      using up hp(1) room by (intro heap_front_cong [OF u(2)] out) auto
    show "Suc c + length ks < 0x1000" using Cons.prems(2) by simp
    show "unat ?hp + ?rest \<le> 0xC00A0000" using room up by simp
    show "mem t y = 0" if y: "unat ?hp + 12 \<le> unat y" "unat y < unat ?hp + 12 + ?rest" for y
    proof -
      have "mem t y = mem u y" using y up by (intro out) simp
      also have "\<dots> = mem s y" using y up room by (intro u(4)) simp
      also have "\<dots> = 0" using y up by (intro Cons.prems(4)) simp_all
      finally show ?thesis .
    qed
    show "list_all (\<lambda>(b, m). unat b + m \<le> 0xC0000000 \<or> 0xC0080000 \<le> unat b \<and> unat b + m \<le> unat ?hp) ((?p, k) # rs)"
      using ranges up hp(1) by (fastforce simp: list_all_iff)
  qed
  show ?case using m keep clear zero next_ok by (simp del: of_nat_add)
qed simp

section \<open>What is in memory before the kernel runs\<close>

lemma image_placed_same:
  assumes "image_placed img m loc files rs" and same: "same_on (image_area img m loc files) m' m"
  shows "image_area img m' loc files = image_area img m loc files" and "image_placed img m' loc files rs"
proof -
  let ?N = "length files"
  have on: "on_image m loc files" and lit: "cstr m (lit_dev img) (ascii ''dev'')" "cstr m (lit_initrd img) (ascii ''initrd'')"
    using assms(1) by (simp_all add: image_placed_def)
  have N: "?N < 2 ^ 20" "load32 m loc = of_nat ?N" using on by (simp_all add: on_image_def)
  have inR: "(lit_dev img, 4) \<in> set (image_area img m loc files)" "(lit_initrd img, 7) \<in> set (image_area img m loc files)"
    "(loc, 4) \<in> set (image_area img m loc files)" "(loc + 4, ?N * 76) \<in> set (image_area img m loc files)" by (simp_all add: image_area_def)
  have head: "m' (off (header_at loc i) j) = m (off (header_at loc i) j)" if "i < ?N" "j < 76" for i j
  proof -
    have "i * 76 + j < ?N * 76" using that by (simp add: mult_less_cancel2 less_mult_imp_div_less)
    then have "m' (loc + 4 + of_nat (i * 76 + j)) = m (loc + 4 + of_nat (i * 76 + j))"
      using N(1) by (intro same_on_byte [OF same inR(4)]) simp_all
    then show ?thesis by (simp add: header_at_def off_def add.assoc)
  qed
  have word: "load32 m' (off (header_at loc i) j) = load32 m (off (header_at loc i) j)" if "i < ?N" "j + 4 \<le> 76" for i j
    using head [of i j] head [of i "j + 1"] head [of i "j + 2"] head [of i "j + 3"] that by (simp add: load32_def off_def ac_simps)
  have ct: "content_at m' loc files i = content_at m loc files i" if "i < ?N" for i using word that by (simp add: content_at_def)
  then have cs: "contents m' loc files = contents m loc files" by (simp add: contents_def)
  then show area: "image_area img m' loc files = image_area img m loc files" by (simp add: image_area_def)
  have "on_image m' loc files"
  proof -
    have "cstr m' (off (header_at loc i) 1) (fst (files ! i)) \<and> fst (files ! i) \<noteq> [] \<and> length (fst (files ! i)) < 64
        \<and> off (header_at loc i) 1 \<noteq> 0 \<and> unat (load32 m' (off (header_at loc i) 72)) = length (snd (files ! i))
        \<and> bytes_at m' (fst (content_at m' loc files i)) (length (snd (files ! i))) = snd (files ! i)" if i: "i < ?N" for i
    proof -
      note oi = on_imageD [OF on i]
      have "cstr m' (off (header_at loc i) 1) (fst (files ! i)) = cstr m (off (header_at loc i) 1) (fst (files ! i))"
      proof (rule cstr_cong)
        show "m' (off (header_at loc i) 1 + of_nat j) = m (off (header_at loc i) 1 + of_nat j)" if "j \<le> length (fst (files ! i))" for j
          using head [OF i, of "Suc j"] that oi(3) by (simp add: off_def algebra_simps)
      qed
      moreover have "(fst (content_at m loc files i), length (snd (files ! i))) \<in> set (image_area img m loc files)"
        using i by (auto simp: image_area_def contents_def content_at_def image_iff)
      then have "bytes_at m' (fst (content_at m loc files i)) (length (snd (files ! i))) = bytes_at m (fst (content_at m loc files i)) (length (snd (files ! i)))"
        using oi(5) unat_u32_lt [of "load32 m (off (header_at loc i) 72)"] by (intro same_on_bytes [OF same]) simp_all
      ultimately show ?thesis using oi word [OF i, of 72] ct [OF i] by simp
    qed
    moreover have "load32 m' loc = of_nat ?N"
    proof -
      have "load32 m' loc = load32 m loc" by (rule load32_cong) (use same_on_range [OF same inR(3)] in simp)
      then show ?thesis using N(2) by simp
    qed
    ultimately show ?thesis using N(1) by (simp add: on_image_def list_all_iff)
  qed
  moreover have "cstr m' (lit_dev img) (ascii ''dev'')" "cstr m' (lit_initrd img) (ascii ''initrd'')"
    using lit same_on_cstr [OF same inR(1), of "ascii ''dev''"] same_on_cstr [OF same inR(2), of "ascii ''initrd''"] by (simp_all add: ascii_def)
  ultimately show "image_placed img m' loc files rs" using assms(1) area cs by (simp add: image_placed_def)
qed

section \<open>The steps of main\<close>

lemma paging_on_same:
  fixes s t :: "'a kmem"
  assumes "paging_on D N s" and "mem t = mem s" and "kheap t = kheap s" and "frames t = frames s"
    and "frames_bitmap_size t = frames_bitmap_size s" and "vm_page_dir t = vm_page_dir s" and "cur_vm_page_dir t = cur_vm_page_dir s"
    and "placement_address t = placement_address s" and "cr3 t = cr3 s"
  shows "paging_on D N t"
proof -
  have pk: "peek t = peek s" by (simp add: fun_eq_iff peek_def assms(2))
  from kernel_up_same [OF paging_on_up(1) [OF assms(1)] assms(2-8)]
  have "kernel_tables D N t" "heap_front 2 0xC008300C 0x7D000 t" "frame_set t = {..<N + 256}" "frame_count t = 4096"
    by (simp_all add: kernel_up_def)
  then show ?thesis using assms(1) by (simp add: paging_on_def pk assms)
qed

text \<open>A schedule of one task depends on its struct alone.\<close>

lemma schedules_alone:
  "schedules s \<lparr>pids = [p], running = 0, fresh = f\<rparr> \<longleftrightarrow> head_task s = cur_task s \<and> cur_task s \<noteq> 0 \<and> pcb_next s (cur_task s) = 0
     \<and> pcb_pid s (cur_task s) = p \<and> next_pid s = f"
proof -
  have one: "task_list s [t] \<longleftrightarrow> head_task s = t \<and> t \<noteq> 0 \<and> pcb_next s t = 0" for t
    by (simp add: task_list_def pcbs_apart_def conj_commute)
  have ts: "[p] = List.map (pcb_pid s) ts \<longleftrightarrow> (\<exists>t. ts = [t] \<and> pcb_pid s t = p)" for ts by (cases ts) auto
  have "schedules s \<lparr>pids = [p], running = 0, fresh = f\<rparr> \<longleftrightarrow> (\<exists>t. task_list s [t] \<and> cur_task s = t \<and> pcb_pid s t = p \<and> f = next_pid s)"
    unfolding schedules_def schedule.simps ts by (metis length_greater_0_conv list.distinct(1) nth_Cons_0)
  then show ?thesis unfolding one by metis
qed

lemma say_simps [simp]:
  "mem (say m s) = mem s" "kheap (say m s) = kheap s" "frames (say m s) = frames s" "frames_bitmap_size (say m s) = frames_bitmap_size s"
  "vm_page_dir (say m s) = vm_page_dir s" "cur_vm_page_dir (say m s) = cur_vm_page_dir s" "placement_address (say m s) = placement_address s"
  "cr3 (say m s) = cr3 s" "cr0 (say m s) = cr0 s" "if_flag (say m s) = if_flag s" "kernel_memory.more (say m s) = kernel_memory.more s" "peek (say m s) = peek s"
  by (simp_all add: say_def kprintf_def fun_eq_iff peek_def)

lemma say_console: "\<exists>c. say m s = s\<lparr>console := c\<rparr>"
  by (simp add: say_def kprintf_def) blast

text \<open>
  What \<open>main\<close> is asked to start from: no heap yet, the struct of the boot loader leading to an image at \<open>loc\<close> that holds the
  files and ends, like all the kernel's own memory, below \<open>mods_end\<close>; a stack of \<open>k\<close> words there; and cleared memory where the heap's
  blocks will be.
\<close>

definition boot_ready :: "image \<Rightarrow> u32 \<Rightarrow> u32 \<Rightarrow> u32 \<Rightarrow> u32 \<Rightarrow> nat \<Rightarrow> (u8 list \<times> u8 list) list \<Rightarrow> 'a shell \<Rightarrow> bool" where
  "boot_ready img mboot_ptr initial_stack loc mods_end k files s \<longleftrightarrow> kheap s = None
     \<and> peek s (peek s (off mboot_ptr 24)) = loc \<and> peek s (peek s (off mboot_ptr 24) + 4) = mods_end \<and> mods_end \<le> 0x3F0000
     \<and> image_placed img (mem s) loc files [(at_dirent img, 132)]
     \<and> list_all (\<lambda>(b, m). unat b + m \<le> unat mods_end) ((at_dirent img, 132) # image_area img (mem s) loc files) \<and> length files \<le> 512
     \<and> initial_stack - esp s = of_nat (4 * k) \<and> k < 0x800 \<and> unat (esp s) + 4 * k \<le> unat mods_end
     \<and> (\<forall>x. 0xC0087060 \<le> unat x \<and> unat x < 0xC00A0000 \<longrightarrow> mem s x = 0)"

text \<open>The file system on what \<open>init_multitask\<close> leaves: \<open>m\<close> is the memory at the start, and the first task's struct is kept.\<close>

lemma image_mounted:
  fixes c :: "'a ird"
  assumes placed: "image_placed img m loc files [(at_dirent img, 132)]" and files: "length files \<le> 512"
    and low: "list_all (\<lambda>(b, k). unat b + k \<le> unat mods_end) ((at_dirent img, 132) # image_area img m loc files)" and mods_end: "unat mods_end \<le> 0x3F0000"
    and front: "heap_front 5 0xC0087054 T c" and same: "\<And>x. unat x < unat mods_end \<Longrightarrow> mem c x = m x"
    and clear: "\<And>x. 0xC0087060 \<le> unat x \<Longrightarrow> unat x < 0xC00A0000 \<Longrightarrow> mem c x = 0"
  obtains v where "initialise_initrd img (Suc n) loc c = Inr (initrd_root v, v)"
    and "mounted img [(0xC0087014, 56)] (v\<lparr>fs_root := initrd_root v\<rparr>) files"
    and "\<And>j. j + 4 \<le> 56 \<Longrightarrow> peek v (off 0xC0087014 j) = peek c (off 0xC0087014 j)" and "same_tasks c v"
proof -
  let ?rs = "[(0xC0087014, 56)] :: (u32 \<times> nat) list" and ?area = "image_area img m loc files"
  let ?c = "c\<lparr>initrd_header := loc, file_headers := loc + 4\<rparr>"
  have low: "unat b + k \<le> unat mods_end" if "(b, k) \<in> set ((at_dirent img, 132) # ?area)" for b k
    using low that unfolding list_all_iff by blast
  have "mem c x = m x" if "(b, k) \<in> set ?area" "in_range b k x" for b k x
    using low [of b k] that mods_end by (intro same) (auto simp: in_range_interval)
  then have "same_on ?area (mem c) m" by (auto simp: same_on_def)
  note placed_now = image_placed_same [OF placed this]
  have "apart 0xC0087014 56 b k" if "(b, k) \<in> set ?area" for b k
  proof -
    have "unat b + k \<le> unat mods_end" using that by (intro low) simp
    then show ?thesis using mods_end by (intro below_apart) simp_all
  qed
  then have "clear_of 0xC0087014 56 ?area" by (auto simp: clear_of_def list_all_iff)
  then have pl: "image_placed img (mem c) loc files ((at_dirent img, 132) # ?rs)"
    using placed_now by (simp add: image_placed_def)
  have "allots (Suc n) [184, 184, length files * 184] (((at_dirent img, 132) # ?rs) @ ?area) ?c"
  proof (rule allots_from_heap)
    show "heap_front 5 0xC0087054 T ?c" by (rule heap_front_cong [OF front]) simp_all
    show "unat (0xC0087054 :: u32) + (\<Sum>k \<leftarrow> [184, 184, length files * 184]. k + 20) \<le> 0xC00A0000" using files by simp
    show "mem ?c y = 0" if "unat (0xC0087054 :: u32) + 12 \<le> unat y" "unat y < unat (0xC0087054 :: u32) + 12 + (\<Sum>k \<leftarrow> [184, 184, length files * 184]. k + 20)" for y
      using that files by (simp add: clear)
    show "list_all (\<lambda>(b, k). unat b + k \<le> 0xC0000000 \<or> 0xC0080000 \<le> unat b \<and> unat b + k \<le> unat (0xC0087054 :: u32)) (((at_dirent img, 132) # ?rs) @ ?area)"
      using low mods_end by (fastforce simp: list_all_iff)
  qed simp
  then obtain v where v: "initialise_initrd img (Suc n) loc c = Inr (initrd_root v, v)" "mounted img ?rs (v\<lparr>fs_root := initrd_root v\<rparr>) files"
    "same_on ((at_dirent img, 132) # ?rs) (mem v) (mem c)" "same_tasks c v"
    using initialise_initrd_result [OF pl, unfolded placed_now(1)] by blast
  show ?thesis
  proof (rule that [OF v(1,2) _ v(4)])
    show "peek v (off 0xC0087014 j) = peek c (off 0xC0087014 j)" if "j + 4 \<le> 56" for j
      by (rule same_on_peek [OF v(3), of _ 56]) (use that in simp_all)
  qed
qed

lemma main_boot_result:
  fixes s :: "'a shell"
  assumes ready: "boot_ready img mboot_ptr initial_stack loc mods_end k files s"
  obtains isrs' t where "main_boot img ti (Suc n) mboot_ptr initial_stack (dt, isrs, s)
      = Inr (init_descriptor_tables (at_gdt ti) (at_gdt_ptr ti) (at_idt ti) (at_idt_ptr ti) (stub_isr ti) (stub_irq ti) dt, isrs', t)"
    and "interrupt_handler isrs' IRQ0 = Some Timer_callback" and "interrupt_handler isrs' IRQ1 = Some Keyboard_handler"
    and "interrupt_handler isrs' 14 = Some Page_fault"
    and "schedules t \<lparr>pids = [next_pid s], running = 0, fresh = next_pid s + 1\<rparr>" and "mounted img [(cur_task t, 56)] t files"
    and "if_flag t" and "esp t = 0xE0000000 - of_nat (4 * k)" and "pcb_page_dir t (cur_task t) = 0xC0081000"
proof -
  note r = ready [unfolded boot_ready_def]
  have rl: "peek s (peek s (off mboot_ptr 24)) = loc" "peek s (peek s (off mboot_ptr 24) + 4) = mods_end" using r by blast+
  obtain isrs1 where timer: "init_timer 100 isrs = Inr isrs1" by (simp add: init_timer_def Let_def)
  then have h0: "interrupt_handler isrs1 IRQ0 = Some Timer_callback" by (auto simp: init_timer_def Let_def)
  define a0 where "a0 = say ''[^]timer ready'' (say ''[*]initialising timer...'' ((say ''[^]descriptor tables ready''
    (say ''[*]initialising descriptor tables...'' ((say ''hello, word!'' (s\<lparr>console := []\<rparr>))\<lparr>initial_esp := initial_stack\<rparr>)))\<lparr>if_flag := True\<rparr>))"
  define a where "a = say ''[*]initialising page...'' (a0\<lparr>placement_address := mods_end\<rparr>)"
  have pa: "peek a0 = peek s" by (simp add: fun_eq_iff peek_def a0_def say_def kprintf_def)
  have ga: "kheap a = None" "mem a = mem s" "placement_address a = mods_end" "esp a = esp s" "next_pid a = next_pid s" "initial_esp a = initial_stack"
    using r by (simp_all add: a_def a0_def say_def kprintf_def)
  have before: "kheap a = None" "placement_address a \<le> 0x3F0000" using r by (simp_all add: ga)
  obtain D N t where t: "init_paging (Suc n) isrs1 a = Inr (register_interrupt_handler 14 Page_fault isrs1, t)" "paging_on D N t"
    "\<And>x. x < mods_end \<Longrightarrow> mem t x = mem s x" "\<And>x. 0xC0083018 \<le> unat x \<Longrightarrow> unat x < 0xC00C0000 \<Longrightarrow> mem t x = mem s x"
    "kernel_memory.more t = kernel_memory.more a" "frames t = mods_end"
    using init_paging_result [OF before, of n isrs1] unfolding ga by metis
  define b where "b = say ''[*]initialising multithread...'' (say ''[^]page ready'' t)"
  have on: "paging_on D N b" by (rule paging_on_same [OF t(2)]) (simp_all add: b_def)
  have gt: "esp t = esp s" "next_pid t = next_pid s" "initial_esp t = initial_stack" using t(5) ga by (cases t; cases a; simp)+
  have gb: "esp b = esp s" "next_pid b = next_pid s" "initial_esp b = initial_stack" "frames b = mods_end" "mem b = mem t"
    using gt t(6) by (simp_all add: b_def say_def kprintf_def)
  have st: "initial_esp b - esp b = of_nat (4 * k)" "k < 0x800" "unat (esp b) + 4 * k \<le> unat (frames b)" using r by (simp_all add: gb)
  obtain u where u: "init_multitask (Suc n) b = Inr u" "schedules u \<lparr>pids = [next_pid s], running = 0, fresh = next_pid s + 1\<rparr>"
    "if_flag u" "heap_front 5 0xC0087054 0x78FD0 u" "esp u = 0xE0000000 - of_nat (4 * k)"
    "\<And>x. unat x < unat mods_end \<or> 0xC0087060 \<le> unat x \<and> unat x < 0xC00C0000 \<Longrightarrow> mem u x = mem t x"
    "pcb_page_dir u (cur_task u) = 0xC0081000" "cur_task u = 0xC0087014"
    using multitask_started [OF on st, of n] unfolding gb by metis
  have um: "mem u x = mem s x" if "unat x < unat mods_end \<or> 0xC0087060 \<le> unat x \<and> unat x < 0xC00C0000" for x
    using u(6) [OF that] t(3) [of x] t(4) [of x] that by (auto simp: word_less_nat_alt)
  define b' where "b' = say ''[*]initialising keyboard I/O...'' (say ''[^]multithread raedy'' u)"
  define isrs2 where "isrs2 = register_interrupt_handler 14 Page_fault isrs1"
  define c where "c = say ''[*]initialising VFS...'' (say ''[^]keyboard ready'' (b'\<lparr>kbd := snd (init_keyboard_driver (isrs2, kbd b'))\<rparr>))"
  have gc: "mem c = mem u" "kheap c = kheap u" "cur_task c = cur_task u" "head_task c = head_task u" "next_pid c = next_pid u" "esp c = esp u" "if_flag c = if_flag u"
    by (simp_all add: c_def b'_def say_def kprintf_def)
  have im: "image_placed img (mem s) loc files [(at_dirent img, 132)]" "length files \<le> 512"
    "list_all (\<lambda>(b, k). unat b + k \<le> unat mods_end) ((at_dirent img, 132) # image_area img (mem s) loc files)" "unat mods_end \<le> 0x3F0000"
    using r by (simp_all add: word_le_nat_alt)
  have fc: "heap_front 5 0xC0087054 0x78FD0 c" by (rule heap_front_cong [OF u(4)]) (simp_all add: gc)
  have cm: "\<And>x. unat x < unat mods_end \<Longrightarrow> mem c x = mem s x" "\<And>x. 0xC0087060 \<le> unat x \<Longrightarrow> unat x < 0xC00A0000 \<Longrightarrow> mem c x = 0"
    using um r by (simp_all add: gc)
  obtain v where v: "initialise_initrd img (Suc n) loc c = Inr (initrd_root v, v)"
    "mounted img [(0xC0087014, 56)] (v\<lparr>fs_root := initrd_root v\<rparr>) files"
    "\<And>j. j + 4 \<le> 56 \<Longrightarrow> peek v (off 0xC0087014 j) = peek c (off 0xC0087014 j)" "same_tasks c v"
    using image_mounted [OF im fc cm, of n] by metis
  define w where "w = say ''=============t -a -c -n -k            =============='' (say ''=============f -a -c -n -d            =============='' (say ''=============p -a                      =============='' (say (''=============welcome to mashiro'' @ [CHR 0x27] @ ''s OS=============='') (say ''[^]VFS ready'' (v\<lparr>fs_root := initrd_root v\<rparr>)))))"
  define isrs3 where "isrs3 = fst (init_keyboard_driver (isrs2, kbd b'))"
  have run: "main_boot img ti (Suc n) mboot_ptr initial_stack (dt, isrs, s)
      = Inr (init_descriptor_tables (at_gdt ti) (at_gdt_ptr ti) (at_idt ti) (at_idt_ptr ti) (stub_isr ti) (stub_irq ti) dt, isrs3, w)"
    by (simp only: main_boot_def Let_def prod.case timer ebind_simps a0_def [symmetric] pa rl a_def [symmetric] t(1) b_def [symmetric] u(1)
      b'_def [symmetric] isrs2_def [symmetric] c_def [symmetric] v(1) isrs3_def [symmetric] w_def [symmetric])
  have gw: "mem w = mem v" "cur_task w = cur_task u" "head_task w = head_task u" "next_pid w = next_pid u" "esp w = esp u" "if_flag w = if_flag u"
    using v(4) gc by (simp_all add: w_def say_def kprintf_def same_tasks_def)
  have pcb: "peek w (off 0xC0087014 j) = peek u (off 0xC0087014 j)" if "j + 4 \<le> 56" for j
    using v(3) [OF that] by (simp add: peek_def gw gc)
  show ?thesis
  proof (rule that [OF run])
    show "interrupt_handler isrs3 IRQ0 = Some Timer_callback" "interrupt_handler isrs3 IRQ1 = Some Keyboard_handler" "interrupt_handler isrs3 14 = Some Page_fault"
      using h0 by (simp_all add: isrs3_def isrs2_def init_keyboard_driver_def IRQ0_def IRQ1_def)
    show "schedules w \<lparr>pids = [next_pid s], running = 0, fresh = next_pid s + 1\<rparr>"
      using u(2) unfolding schedules_alone gw u(8) by (simp add: pcb_next_def pcb_pid_def pcb)
    show "mounted img [(cur_task w, 56)] w files"
      using v(2) by (simp add: gw u(8)) (simp add: w_def say_def kprintf_def mounted_printed)
    show "if_flag w" "esp w = 0xE0000000 - of_nat (4 * k)" using u(3,5) by (simp_all add: gw)
    show "pcb_page_dir w (cur_task w) = 0xC0081000" using u(7) pcb [of 44] by (simp add: pcb_page_dir_def gw u(8))
  qed
qed

text \<open>
  Property C1. From what the boot loader leaves, \<open>main\<close> gets to its call of \<open>fork\<close>: no step of the initialisation panics,
  hangs or runs out of memory. Then the descriptor tables are those that \<open>init_descriptor_tables\<close> makes, the handlers of
  the timer, the keyboard and page faults are registered and interrupts are enabled; one task runs, on the copied
  directory and the moved stack; and the files of the image are mounted, so that the listing prints the device directory
  and all their names.
\<close>

theorem main_boot_completes:
  fixes s :: "'a shell"
  assumes "boot_ready img mboot_ptr initial_stack loc mods_end k files s"
  shows "\<exists>isrs' t v. main_boot img ti (Suc n) mboot_ptr initial_stack (dt, isrs, s)
      = Inr (init_descriptor_tables (at_gdt ti) (at_gdt_ptr ti) (at_idt ti) (at_idt_ptr ti) (stub_isr ti) (stub_irq ti) dt, isrs', t)
    \<and> interrupt_handler isrs' IRQ0 = Some Timer_callback \<and> interrupt_handler isrs' IRQ1 = Some Keyboard_handler
    \<and> interrupt_handler isrs' 14 = Some Page_fault \<and> if_flag t
    \<and> schedules t \<lparr>pids = [next_pid s], running = 0, fresh = next_pid s + 1\<rparr> \<and> pcb_page_dir t (cur_task t) = 0xC0081000
    \<and> esp t = 0xE0000000 - of_nat (4 * k) \<and> mounted img [(cur_task t, 56)] t files
    \<and> print_all_file (initrd_driver img (Suc n)) t = Inr v
    \<and> console v = console t @ concat (List.map found_line (ascii ''dev'' # List.map fst files))"
proof -
  obtain isrs' t where t: "main_boot img ti (Suc n) mboot_ptr initial_stack (dt, isrs, s)
      = Inr (init_descriptor_tables (at_gdt ti) (at_gdt_ptr ti) (at_idt ti) (at_idt_ptr ti) (stub_isr ti) (stub_irq ti) dt, isrs', t)"
    "interrupt_handler isrs' IRQ0 = Some Timer_callback" "interrupt_handler isrs' IRQ1 = Some Keyboard_handler"
    "interrupt_handler isrs' 14 = Some Page_fault" "schedules t \<lparr>pids = [next_pid s], running = 0, fresh = next_pid s + 1\<rparr>"
    "mounted img [(cur_task t, 56)] t files" "if_flag t" "esp t = 0xE0000000 - of_nat (4 * k)" "pcb_page_dir t (cur_task t) = 0xC0081000"
    using main_boot_result [OF assms] by metis
  from initrd.print_all_file_lists [OF t(6), of "Suc n"] show ?thesis using t by (auto simp: entry_names_def)
qed

text \<open>The image with one file, the boot loader's struct at 0x5000, the address of the modules at 0x5018, and a stack of one word.\<close>

definition boot_mem :: memory where
  "boot_mem = image_mem(0x5018 := 0x20, 0x5019 := 0x50, 0x5021 := 0x30, 0x5025 := 0x60)"

definition boot_demo :: shell_memory where
  "boot_demo = demo_shell\<lparr>mem := boot_mem, kheap := None, esp := 0x5100, next_pid := 1\<rparr>"

lemma boot_demo_ready: "boot_ready demo_image 0x5000 0x5104 0x3000 0x6000 1 demo_files boot_demo"
proof -
  have d: "at_dirent demo_image = 0x200" by (simp add: demo_image_def)
  have g: "mem boot_demo = boot_mem" "kheap boot_demo = None" "esp boot_demo = 0x5100" by (simp_all add: boot_demo_def)
  have "peek boot_demo (off 0x5000 24) = 0x5020" "peek boot_demo 0x5020 = 0x3000" "peek boot_demo 0x5024 = 0x6000"
    by (simp_all add: peek_def g off_def load32_def boot_mem_def image_mem_def image_bytes_def)
  moreover have "same_on (image_area demo_image image_mem 0x3000 demo_files) boot_mem image_mem"
    unfolding image_ranges by (auto simp: same_on_def boot_mem_def in_range_def)
  note pl = image_placed_same [OF image_is_placed this]
  moreover have "boot_mem x = 0" if "0xC0087060 \<le> unat x" for x
  proof -
    have "\<not> x < 0xC0087060" using that by (simp add: word_less_nat_alt)
    then show ?thesis by (auto simp: boot_mem_def image_mem_def image_bytes_def)
  qed
  moreover have "length demo_files = 1" by (simp add: demo_files_def)
  ultimately show ?thesis
    using pl(2) by (simp add: boot_ready_def g d pl(1) image_ranges)
qed

theorem main_boot_completes_witness:
  "\<forall>ti dt isrs. \<exists>isrs' t v. main_boot demo_image ti 1 0x5000 0x5104 (dt, isrs, boot_demo)
      = Inr (init_descriptor_tables (at_gdt ti) (at_gdt_ptr ti) (at_idt ti) (at_idt_ptr ti) (stub_isr ti) (stub_irq ti) dt, isrs', t)
    \<and> schedules t \<lparr>pids = [1], running = 0, fresh = 2\<rparr> \<and> esp t = 0xDFFFFFFC
    \<and> print_all_file (initrd_driver demo_image 1) t = Inr v
    \<and> console v = console t @ found_line (ascii ''dev'') @ found_line (ascii ''a'')"
proof -
  have p: "next_pid boot_demo = 1" by (simp add: boot_demo_def)
  show ?thesis
    using main_boot_completes [OF boot_demo_ready, where n = 0] unfolding p by (fastforce simp: demo_files_def)
qed

end
