(* ===== verification/Spec2Isabelle.thy ===== *)
theory Spec2Isabelle
  imports Prelude Common_C Printf Monitor Descriptor_Tables Interrupts Keyboard Sorted_Array
    Memory_State Frames Page_Tables Kernel_Heap Heap_Correctness Heap_Aligned Heap_Front
    Paging Paging_Correctness Cloning Paging_Start Globals_Kept Tasking Task_Correctness Task_Endings Task_System Task_Start Lock Fs Initrd Initrd_Correctness Initrd_Changes Initrd_Mount Shell Shell_Correctness Boot Boot_Stack Boot_Run
begin

text \<open>
  A verification development of the kernel in \<open>src/src\<close>, a teaching kernel for 32-bit x86: console,
  descriptor tables and interrupts, keyboard, heap, paging, tasks, a file system on a boot image, and a
  shell.

  \<^bold>\<open>How the program is put together.\<close> \<open>main\<close> clears the screen, fills the descriptor tables, starts the timer,
  takes the place of the boot image from the boot loader's struct, and sets up paging. Until
  \<open>init_paging\<close> has created the heap, \<open>_malloc\<close> only moves \<open>placement_address\<close>; then it calls \<open>alloc\<close> of the
  heap, whose index of holes is a sorted array, and which grows through \<open>get_page\<close> and \<open>alloc_frame\<close>, and
  these allocate tables from the same heap. \<open>init_multitask\<close> moves the stack and makes the first task; the
  timer's handler switches tasks. The keyboard's handler fills a ring buffer that \<open>scanf\<close> polls. The initrd
  provides the operations that \<open>fs.c\<close> calls through the pointers in its nodes, and the shell, which runs in
  the second task, calls all of these.

  \<^bold>\<open>Theories and sources.\<close>
  \<^item> \<open>Prelude\<close>: words (\<open>type.h\<close>), byte memory with little-endian 32-bit access, C strings, the outcomes of calls
    that do not return (\<open>fault\<close>), the locale \<open>word_store\<close> of tables of words, the locale of bounded queues.
  \<^item> \<open>Common_C\<close> (\<open>common.c\<close>), \<open>Printf\<close> (\<open>printf.c\<close>, \<open>stdarg.h\<close>), \<open>Monitor\<close> (\<open>monitor.c\<close>),
    \<open>Descriptor_Tables\<close> (\<open>descriptor_tables.c\<close>), \<open>Interrupts\<close> (\<open>isr.c\<close>, \<open>timer.c\<close>), \<open>Keyboard\<close>
    (\<open>keyboard.c\<close>), \<open>Sorted_Array\<close> (\<open>sorted_array.c\<close>): one theory each, with the model and its theorems.
  \<^item> \<open>Memory_State\<close>: the state memory management shares, a record that later theories extend; \<open>Frames\<close> and
    \<open>Page_Tables\<close> (bitmap, page entries and \<open>get_page\<close> of \<open>page.c\<close>); \<open>Kernel_Heap\<close> (\<open>kheap.c\<close>,
    \<open>kernel_malloc.c\<close>); \<open>Paging\<close> (the rest of \<open>page.c\<close> and \<open>process.s\<close>). \<open>Heap_Correctness\<close>, \<open>Heap_Aligned\<close>,
    \<open>Heap_Front\<close> (one allocation after the other), \<open>Paging_Correctness\<close>, \<open>Cloning\<close>, \<open>Paging_Start\<close> (\<open>init_paging\<close> as a whole) and \<open>Globals_Kept\<close> hold their theorems.
  \<^item> \<open>Tasking\<close> (\<open>task.c\<close>) with \<open>Task_Correctness\<close>, \<open>Task_Endings\<close>, \<open>Task_System\<close> (a step relation of the
    operations and the schedule it follows) and \<open>Task_Start\<close> (the first task); \<open>Lock\<close> (\<open>lock.c\<close>).
  \<^item> \<open>Fs\<close> (\<open>fs.c\<close>), \<open>Initrd\<close> (\<open>initrd.c\<close>) with \<open>Initrd_Correctness\<close>,
    \<open>Initrd_Changes\<close> and \<open>Initrd_Mount\<close>; \<open>Shell\<close> (\<open>shell.c\<close>) with
    \<open>Shell_Correctness\<close>; \<open>Boot\<close> (\<open>main.c\<close>). \<open>Boot_Stack\<close> and \<open>Boot_Run\<close> follow \<open>main\<close> step by step: the tables and the pages
    of the new stack, cut from the heap that \<open>init_paging\<close> leaves, the first task, and the mounting of the boot image.

  \<^bold>\<open>State and operations.\<close> A struct the code reaches by pointers (a header of the heap, a page directory, a
  \<open>pcb_t\<close>, an \<open>fs_node_t\<close>) is bytes in memory at the offsets the compiler gives its fields, read and
  written by functions named after the fields, so aliasing is what it is in the code. Globals are fields
  of records: \<open>kernel_memory\<close>, extended by \<open>task_memory\<close>, \<open>fs_memory\<close>, \<open>initrd_memory\<close> and
  \<open>shell_memory\<close>. Tables the rest of memory does not alias (descriptor tables, key maps, video memory)
  are HOL values. What the linker or the processor gives (addresses of functions, literals and locals,
  \<open>cr2\<close>, scan codes, what \<open>read_eip\<close> returns) is an argument. A call returns \<open>Inr\<close> of its result, or \<open>Inl\<close> of
  the way it fails to: a panic, an endless loop, a division by zero, a call through a wild pointer, an
  expression C leaves undefined. A function that leaves by switching tasks gives a \<open>Jump\<close>.

  \<^bold>\<open>What the theorems show.\<close> Refinement of reference definitions: a terminal for the console, a formatter for
  \<open>vprintf\<close>, insertion into a sorted list, a set for the bitmap of frames, a schedule of pids for every run of the
  operations on tasks. Functional theorems for the
  allocator, the page tables, copying of address spaces, task switching, \<open>fork\<close> and the ends of tasks, the
  keyboard's ring, the move of the boot stack, the mounting, listing, making and removing of files, and one
  from the keys pressed to the names on the screen. The interfaces are locales: \<open>word_store\<close>, the queue and
  the \<open>simulation\<close> of the prelude, the directory that \<open>fs.c\<close> reads and its extension to reading contents,
  interpreted on memory, the keyboard's ring, the screen and the tasks, and the initrd.
  The initialisation is followed from the boot loader to the call of \<open>fork\<close>: \<open>init_paging\<close> returns and leaves the kernel mapped
  to itself, the blocks that \<open>move_stack\<close>, \<open>init_multitask\<close> and \<open>initialise_initrd\<close> ask for are there, and \<open>main\<close> ends with one
  task and the files mounted.
  The theorems also state where the code departs from what it means to do: the strings \<open>strcpy\<close>
  leaves without a terminator, the comparison that never sorts, the heap that wears out, \<open>kfree\<close> that never
  returns, the lock that excludes nobody, the first task that cannot end, the shell's line that is not
  cleared.

  \<^bold>\<open>Loops and fuel.\<close> Loops are structural recursion, functions with a measure, or, when they may run for ever,
  partial functions with an option, whose \<open>None\<close> is running for ever. The allocator calls itself through
  the growth of the heap and the page tables; its functions take a bound on the depth of these calls and
  give \<open>Out_of_fuel\<close> when it is too small. \<open>more_fuel_same_result\<close> in \<open>Heap_Correctness\<close> shows that any
  other result does not depend on the bound; an allocation from a hole that fits needs none. The shell's
  loop, which has no end, is run for a given number of rounds.

  \<^bold>\<open>Not modelled.\<close> The assembly of \<open>boot.s\<close>, \<open>gdt_w.s\<close>, \<open>idt_w.s\<close> and \<open>interrupt.s\<close> (entry code and stubs that
  pass control on). Page faults of the kernel's own accesses: every address can be read and written,
  except the header at 0xFFFFFFF4 that \<open>free\<close> looks for whatever its argument is, where \<open>faults\<close> asks the directory in use;
  and the kernel's addresses mean the same in every directory. The \<open>cli\<close> and \<open>sti\<close> in \<open>init_timer\<close>, which \<open>main\<close> calls with
  interrupts already enabled, are left out, and in \<open>copy_page_phy\<close> its \<open>cli\<close> and \<open>popf\<close> and the switching off and on of paging
  around the copy: the copy works on frames of physical memory, kept apart from the memory at virtual addresses. The 256
  entries of the table of handlers are a function of all vectors, so a vector past the table has no handler instead of what lies there. The contents of stacks, which differ
  from task to task; a switch is the change of the registers. Interrupts in the middle of an operation,
  other than the keyboard's between the polls of \<open>scanf\<close>. \<open>inb\<close> and \<open>inw\<close>, which read a device: what they
  read is an argument. \<open>task_exit\<close>, which nothing calls, is modelled but is not a step of \<open>Task_System\<close>.
\<close>

end
